(* ===== verification/Go_Base.thy ===== *)
theory Go_Base
  imports Complex_Main "HOL-Library.Word" "HOL-Library.AList" "HOL-Library.Char_ord"
    "HOL-Library.List_Lexorder" "HOL-Library.Product_Lexorder" "HOL-Library.Multiset"
    "HOL-Library.Sublist"
begin

text \<open>
  The prelude: what the gateway uses of the Go language and its standard library, with the
  lemmas every component shares.

  \<^item> Strings are byte strings, as in Go. \<open>ToLower\<close> and \<open>TrimSpace\<close> follow Go on ASCII bytes;
    bytes from 128 on are left alone (Go consults the Unicode tables for them).
  \<^item> \<open>int\<close> and \<open>time.Duration\<close> are 64-bit two's complement: a value is an \<^typ>\<open>int\<close> and
    every product that can leave the range goes through \<open>wrap64\<close>. A \<open>time.Time\<close> is the number of
    nanoseconds since Go's zero time, so \<open>IsZero\<close> is equality with 0; \<open>Sub\<close> saturates.
  \<^item> A Go map is an association list with distinct keys. A \<open>range\<close> loop visits the list in
    order; Go leaves the order open, and every property is stated for all lists.
  \<^item> \<open>sort.Slice\<close> is the stable insertion sort of the library. Go does not promise stability, so
    proofs use only that the result is a sorted permutation (\<open>sort_slice_unique\<close>: with distinct
    keys there is only one).
  \<^item> A returned \<open>error\<close> is a value of \<open>err\<close>; \<open>fmt.Errorf\<close> with \<open>%w\<close> is \<open>Wrapf\<close>.
\<close>

named_theorems go_defs \<open>definitions of the Go runtime layer to unfold\<close>
named_theorems gomap_simps \<open>lookup, insertion and deletion in Go maps\<close>

section \<open>Errors\<close>

datatype err =
    Errorf string "string list"
  | Wrapf string "string list" err
  | ContextCanceled
  | DeadlineExceeded
  | SysErr string

text \<open>\<open>errors.Is\<close>: an error and those it wraps.\<close>

fun errors_Is :: "err \<Rightarrow> err \<Rightarrow> bool" where
  "errors_Is (Wrapf msg args e) target \<longleftrightarrow> Wrapf msg args e = target \<or> errors_Is e target"
| "errors_Is e target \<longleftrightarrow> e = target"

type_synonym 'a result = "err + 'a"

section \<open>64-bit integers, durations and times\<close>

type_synonym duration = int
type_synonym time = int

definition in_int64 :: "int \<Rightarrow> bool" where
  "in_int64 x \<longleftrightarrow> - (2 ^ 63) \<le> x \<and> x < 2 ^ 63"

definition wrap64 :: "int \<Rightarrow> int" where
  "wrap64 x = (x + 2 ^ 63) mod 2 ^ 64 - 2 ^ 63"

definition sat64 :: "int \<Rightarrow> int" where
  "sat64 x = max (- (2 ^ 63)) (min (2 ^ 63 - 1) x)"

definition second :: duration where
  "second = 1000000000"

definition minute :: duration where
  "minute = 60 * second"

definition dur_mul :: "int \<Rightarrow> duration \<Rightarrow> duration" where
  "dur_mul n d = wrap64 (n * d)"

definition go_div :: "int \<Rightarrow> int \<Rightarrow> int" where
  "go_div a b = sgn a * sgn b * (\<bar>a\<bar> div \<bar>b\<bar>)"

definition time_sub :: "time \<Rightarrow> time \<Rightarrow> duration" where
  "time_sub t u = sat64 (t - u)"

definition is_zero_time :: "time \<Rightarrow> bool" where
  "is_zero_time t \<longleftrightarrow> t = 0"

section \<open>Strings\<close>

fun str_index :: "string \<Rightarrow> string \<Rightarrow> nat option" where
  "str_index sep [] = (if sep = [] then Some 0 else None)"
| "str_index sep (c # cs) =
     (if prefix sep (c # cs) then Some 0 else map_option Suc (str_index sep cs))"

definition go_Index :: "string \<Rightarrow> string \<Rightarrow> int" where
  "go_Index s sep = (case str_index sep s of None \<Rightarrow> -1 | Some n \<Rightarrow> int n)"

definition go_Contains :: "string \<Rightarrow> string \<Rightarrow> bool" where
  "go_Contains s sub \<longleftrightarrow> str_index sub s \<noteq> None"

definition go_SplitN2 :: "string \<Rightarrow> string \<Rightarrow> string list" where
  "go_SplitN2 s sep =
     (case str_index sep s of
        None \<Rightarrow> [s]
      | Some i \<Rightarrow> [take i s, drop (i + length sep) s])"

fun go_Split :: "string \<Rightarrow> char \<Rightarrow> string list" where
  "go_Split [] c = [[]]"
| "go_Split (x # xs) c =
     (if x = c then [] # go_Split xs c
      else (case go_Split xs c of [] \<Rightarrow> [[x]] | y # ys \<Rightarrow> (x # y) # ys))"

definition go_HasPrefix :: "string \<Rightarrow> string \<Rightarrow> bool" where
  "go_HasPrefix s p \<longleftrightarrow> prefix p s"

definition go_HasSuffix :: "string \<Rightarrow> string \<Rightarrow> bool" where
  "go_HasSuffix s p \<longleftrightarrow> suffix p s"

definition go_TrimPrefix :: "string \<Rightarrow> string \<Rightarrow> string" where
  "go_TrimPrefix s p = (if prefix p s then drop (length p) s else s)"

definition byte_of :: "char \<Rightarrow> nat" where
  "byte_of c = of_char c"

text \<open>
  The white space that \<open>strings.TrimSpace\<close> removes is Unicode's, in the UTF-8 encoding of the string:
  tab to carriage return, the blank, U+0085, U+00A0, U+1680, U+2000 to U+200A, U+2028, U+2029,
  U+202F, U+205F and U+3000.
\<close>

definition space_runes :: "nat list list" where
  "space_runes =
     map (\<lambda>b. [b]) [9, 10, 11, 12, 13, 32] @ [[0xC2, 0x85], [0xC2, 0xA0], [0xE1, 0x9A, 0x80]] @
     map (\<lambda>b. [0xE2, 0x80, b]) ([0x80..<0x8B] @ [0xA8, 0xA9, 0xAF]) @ [[0xE2, 0x81, 0x9F], [0xE3, 0x80, 0x80]]"

definition begins_with :: "nat list list \<Rightarrow> string \<Rightarrow> bool" where
  "begins_with runes s \<longleftrightarrow> list_ex (\<lambda>e. prefix e (map byte_of s)) runes"

fun trim_runes :: "nat list list \<Rightarrow> string \<Rightarrow> string" where
  "trim_runes runes [] = []"
| "trim_runes runes (c # s) =
     (case find (\<lambda>e. prefix e (map byte_of (c # s))) runes of
        None \<Rightarrow> c # s
      | Some e \<Rightarrow> trim_runes runes (drop (length e - 1) s))"

definition go_TrimSpace :: "string \<Rightarrow> string" where
  "go_TrimSpace s = rev (trim_runes (map rev space_runes) (rev (trim_runes space_runes s)))"

text \<open>
  The lower case of a string. Go maps the letters outside ASCII by Unicode's tables, which are not
  modelled: here their bytes stay as they are, and what depends on the case of a string is stated
  for ASCII strings.
\<close>

definition ascii :: "string \<Rightarrow> bool" where
  "ascii s \<longleftrightarrow> list_all (\<lambda>c. byte_of c < 128) s"

definition lower_char :: "char \<Rightarrow> char" where
  "lower_char c = (if 65 \<le> byte_of c \<and> byte_of c \<le> 90 then char_of (byte_of c + 32) else c)"

definition go_ToLower :: "string \<Rightarrow> string" where
  "go_ToLower s = map lower_char s"

section \<open>Numbers in text: strconv.Atoi and the verb d of fmt\<close>

definition digit_char :: "nat \<Rightarrow> char" where
  "digit_char d = char_of (48 + d)"

definition digit_val :: "char \<Rightarrow> int option" where
  "digit_val c = (if 48 \<le> byte_of c \<and> byte_of c \<le> 57 then Some (int (byte_of c) - 48) else None)"

fun parse_digits :: "int \<Rightarrow> string \<Rightarrow> int option" where
  "parse_digits acc [] = Some acc"
| "parse_digits acc (c # cs) =
     (case digit_val c of None \<Rightarrow> None | Some d \<Rightarrow> parse_digits (acc * 10 + d) cs)"

definition parse_uint :: "string \<Rightarrow> int option" where
  "parse_uint s = (if s = [] then None else parse_digits 0 s)"

definition check_range :: "int \<Rightarrow> int option" where
  "check_range n = (if in_int64 n then Some n else None)"

definition go_Atoi :: "string \<Rightarrow> int option" where
  "go_Atoi s =
     (case s of
        [] \<Rightarrow> None
      | c # cs \<Rightarrow>
          if c = CHR ''-'' then Option.bind (parse_uint cs) (\<lambda>n. check_range (- n))
          else if c = CHR ''+'' then Option.bind (parse_uint cs) check_range
          else Option.bind (parse_uint s) check_range)"

fun itoa_nat :: "nat \<Rightarrow> string" where
  "itoa_nat n = (if n < 10 then [digit_char n] else itoa_nat (n div 10) @ [digit_char (n mod 10)])"

declare itoa_nat.simps [simp del]

definition go_Itoa :: "int \<Rightarrow> string" where
  "go_Itoa n = (if n < 0 then CHR ''-'' # itoa_nat (nat (- n)) else itoa_nat (nat n))"

section \<open>Paths: filepath.Clean and filepath.Join\<close>

fun clean_step :: "bool \<Rightarrow> string list \<Rightarrow> string \<Rightarrow> string list" where
  "clean_step rooted out e =
     (if e = [] \<or> e = ''.'' then out
      else if e = ''..'' then
        (case out of
           [] \<Rightarrow> if rooted then [] else [e]
         | x # xs \<Rightarrow> if x = ''..'' then e # out else xs)
      else e # out)"

fun join_path :: "string list \<Rightarrow> string" where
  "join_path [] = []"
| "join_path [x] = x"
| "join_path (x # xs) = x @ CHR ''/'' # join_path xs"

definition filepath_Clean :: "string \<Rightarrow> string" where
  "filepath_Clean p =
     (if p = [] then ''.''
      else
        let rooted = (hd p = CHR ''/'');
            out = join_path (rev (foldl (clean_step rooted) [] (go_Split p (CHR ''/''))))
        in if rooted then CHR ''/'' # out else if out = [] then ''.'' else out)"

definition filepath_Join :: "string \<Rightarrow> string \<Rightarrow> string" where
  "filepath_Join a b =
     (if a \<noteq> [] then filepath_Clean (a @ CHR ''/'' # b)
      else if b \<noteq> [] then filepath_Clean b
      else [])"

section \<open>Maps, sorting, one-slot channels\<close>

type_synonym ('k, 'v) gomap = "('k \<times> 'v) list"

definition gomap_ok :: "('k, 'v) gomap \<Rightarrow> bool" where
  "gomap_ok m \<longleftrightarrow> distinct (map fst m)"

definition mget :: "('k, 'v) gomap \<Rightarrow> 'k \<Rightarrow> 'v option" where
  "mget m k = map_of m k"

definition mput :: "('k, 'v) gomap \<Rightarrow> 'k \<Rightarrow> 'v \<Rightarrow> ('k, 'v) gomap" where
  "mput m k v = AList.update k v m"

definition mdel :: "('k, 'v) gomap \<Rightarrow> 'k \<Rightarrow> ('k, 'v) gomap" where
  "mdel m k = AList.delete k m"

definition sort_slice :: "('a \<Rightarrow> 'k::linorder) \<Rightarrow> 'a list \<Rightarrow> 'a list" where
  "sort_slice key xs = sort_key key xs"

text \<open>
  A channel of capacity 1 used as a wake-up flag: the state is whether the slot is taken. A
  non-blocking send (a \<open>select\<close> with a \<open>default\<close>) always leaves it taken.
\<close>

definition signal :: "bool \<Rightarrow> bool" where
  "signal slot = True"

section \<open>Lemmas: integers\<close>

lemma in_int64_wrap64 [simp]: "in_int64 (wrap64 x)"
proof -
  have "0 \<le> (x + 2 ^ 63) mod 2 ^ 64" "(x + 2 ^ 63) mod 2 ^ 64 < 2 ^ 64" by simp_all
  then show ?thesis unfolding in_int64_def wrap64_def by simp
qed

lemma wrap64_id [simp]: "in_int64 x \<Longrightarrow> wrap64 x = x"
  by (simp add: in_int64_def wrap64_def)

lemma in_int64_sat64 [simp]: "in_int64 (sat64 x)"
  by (simp add: in_int64_def sat64_def)

lemma sat64_id [simp]: "in_int64 x \<Longrightarrow> sat64 x = x"
  by (simp add: in_int64_def sat64_def)

lemma sat64_mono: "x \<le> y \<Longrightarrow> sat64 x \<le> sat64 y"
  by (simp add: sat64_def)

lemma sat64_le_iff: "in_int64 d \<Longrightarrow> d < 2 ^ 63 - 1 \<Longrightarrow> sat64 x \<le> d \<longleftrightarrow> x \<le> d"
  by (auto simp: in_int64_def sat64_def)

lemma sat64_gt_iff: "in_int64 d \<Longrightarrow> d < 2 ^ 63 - 1 \<Longrightarrow> d < sat64 x \<longleftrightarrow> d < x"
  by (auto simp: in_int64_def sat64_def)

lemma minute_pos [simp]: "0 < minute" and second_pos [simp]: "0 < second"
  by (simp_all add: minute_def second_def)

lemma go_div_nonneg: "0 \<le> a \<Longrightarrow> 0 < b \<Longrightarrow> go_div a b = a div b"
  by (cases "a = 0") (simp_all add: go_div_def)

section \<open>Lemmas: strings\<close>

lemma str_index_prefix:
  "str_index sep s = Some i \<Longrightarrow> i + length sep \<le> length s \<and> prefix sep (drop i s)"
proof (induction s arbitrary: i)
  case Nil
  then show ?case by (auto split: if_splits)
next
  case (Cons c cs)
  then show ?case
    by (force split: if_splits dest: prefix_length_le)
qed

lemma str_index_append:
  assumes "str_index sep (s @ butlast sep) = None" and "sep \<noteq> []"
  shows "str_index sep (s @ sep @ t) = Some (length s)"
  using assms
proof (induction s)
  case Nil
  have "prefix sep (sep @ t)" by simp
  with Nil.prems(2) show ?case by (cases "sep @ t") (auto simp del: prefix_code)
next
  case (Cons c cs)
  have nop: "\<not> prefix sep (c # cs @ butlast sep)" and ih: "str_index sep (cs @ butlast sep) = None"
    using Cons.prems(1) by (auto split: if_splits)
  have "\<not> prefix sep (c # cs @ sep @ t)"
  proof
    assume p: "prefix sep (c # cs @ sep @ t)"
    have len: "length sep \<le> length (c # cs @ butlast sep)" using Cons.prems(2) by simp
    have split: "c # cs @ sep @ t = (c # cs @ butlast sep) @ [last sep] @ t"
      using Cons.prems(2) by simp
    have "prefix (c # cs @ butlast sep) (c # cs @ sep @ t)"
      unfolding split by (rule prefixI [OF refl])
    with p len have "prefix sep (c # cs @ butlast sep)"
      by (meson prefix_length_prefix)
    with nop show False by blast
  qed
  with Cons.IH [OF ih Cons.prems(2)] show ?case by simp
qed

lemma str_index_None_iff: "str_index sep s = None \<longleftrightarrow> \<not> sublist sep s"
proof (induction s)
  case Nil
  then show ?case by simp
next
  case (Cons c cs)
  have "sublist sep (c # cs) \<longleftrightarrow> prefix sep (c # cs) \<or> sublist sep cs"
    by (rule sublist_Cons_right)
  with Cons show ?case by auto
qed

lemma str_index_single:
  "str_index [x] s = (if x \<in> set s then Some (length (takeWhile (\<lambda>c. c \<noteq> x) s)) else None)"
  by (induction s) auto

lemma go_Index_single_pos:
  "0 < go_Index s [x] \<longleftrightarrow> x \<in> set s \<and> hd s \<noteq> x"
  by (cases s) (auto simp: go_Index_def str_index_single)

lemma take_go_Index_single:
  "x \<in> set s \<Longrightarrow> take (nat (go_Index s [x])) s = takeWhile (\<lambda>c. c \<noteq> x) s"
  by (simp add: go_Index_def str_index_single flip: takeWhile_eq_take)

lemma takeWhile_neq_append: "x \<notin> set ys \<Longrightarrow> takeWhile (\<lambda>c. c \<noteq> x) (ys @ x # zs) = ys"
  by (induction ys) auto

lemma takeWhile_split:
  assumes "x \<in> set s"
  obtains t where "s = takeWhile (\<lambda>c. c \<noteq> x) s @ x # t"
proof -
  from split_list_first [OF assms] obtain ys zs where "s = ys @ x # zs" "x \<notin> set ys" by blast
  then have "takeWhile (\<lambda>c. c \<noteq> x) s = ys" by (simp add: takeWhile_neq_append)
  with \<open>s = ys @ x # zs\<close> show thesis by (metis that)
qed

lemma go_Split_nonempty [simp]: "go_Split s c \<noteq> []"
  by (induction s) (auto split: list.split)

lemma go_Split_no_sep: "c \<notin> set s \<Longrightarrow> go_Split s c = [s]"
  by (induction s) auto

lemma go_Split_append: "c \<notin> set s \<Longrightarrow> go_Split (s @ c # t) c = s # go_Split t c"
  by (induction s) auto

lemma go_Split_no_sep_in: "p \<in> set (go_Split s c) \<Longrightarrow> c \<notin> set p"
proof (induction s arbitrary: p)
  case (Cons x xs)
  show ?case
  proof (cases "go_Split xs c")
    case Nil
    then show ?thesis by simp
  next
    case (Cons y ys)
    with Cons.IH Cons.prems show ?thesis by (auto split: if_splits)
  qed
qed simp

lemma go_ToLower_append [simp]: "go_ToLower (s @ t) = go_ToLower s @ go_ToLower t"
  by (simp add: go_ToLower_def)

lemma go_ToLower_eq_Nil [simp]: "go_ToLower s = [] \<longleftrightarrow> s = []"
  by (simp add: go_ToLower_def)

lemma byte_of_char_of [simp]: "n < 256 \<Longrightarrow> byte_of (char_of n) = n"
  by (simp add: byte_of_def)

lemma lower_char_idem [simp]: "lower_char (lower_char c) = lower_char c"
  by (simp add: lower_char_def)

lemma go_ToLower_idem [simp]: "go_ToLower (go_ToLower s) = go_ToLower s"
  by (simp add: go_ToLower_def)

lemma dropWhile_hd: "s = [] \<or> \<not> P (hd s) \<Longrightarrow> dropWhile P s = s"
  by (cases s) auto

lemma trim_runes_id:
  assumes "\<not> begins_with runes s"
  shows "trim_runes runes s = s"
proof -
  have "find (\<lambda>e. prefix e (map byte_of s)) runes = None"
    using assms by (simp add: begins_with_def list_ex_iff find_None_iff)
  then show ?thesis by (cases s) simp_all
qed

lemma go_TrimSpace_id:
  "\<not> begins_with space_runes s \<Longrightarrow> \<not> begins_with (map rev space_runes) (rev s) \<Longrightarrow> go_TrimSpace s = s"
  by (simp add: go_TrimSpace_def trim_runes_id)

lemma space_runes_bounds:
  "\<forall>e \<in> set (space_runes @ map rev space_runes). e \<noteq> [] \<and> (hd e \<le> 32 \<or> 128 \<le> hd e)"
  by (simp add: space_runes_def upt_rec)

text \<open>A printable ASCII character at an end of a string protects that end.\<close>

lemma begins_with_printable:
  assumes "s \<noteq> []" and "32 < byte_of (hd s)" and "byte_of (hd s) < 128"
  shows "\<not> begins_with space_runes s" and "\<not> begins_with (map rev space_runes) s"
proof -
  have "\<not> prefix e (map byte_of s)" if "e \<noteq> []" "hd e \<le> 32 \<or> 128 \<le> hd e" for e
    using that assms by (cases e; cases s) auto
  then show "\<not> begins_with space_runes s" "\<not> begins_with (map rev space_runes) s"
    using space_runes_bounds by (auto simp: begins_with_def list_ex_iff)
qed

lemma go_TrimSpace_printable:
  assumes "s \<noteq> []" and "32 < byte_of (hd s)" and "byte_of (hd s) < 128" and "32 < byte_of (last s)" and "byte_of (last s) < 128"
  shows "go_TrimSpace s = s"
  using assms by (intro go_TrimSpace_id begins_with_printable) (simp_all add: hd_rev)

lemma go_TrimSpace_Nil [simp]: "go_TrimSpace [] = []"
  by (simp add: go_TrimSpace_def)

section \<open>Lemmas: numbers in text\<close>

lemma digit_val_digit_char [simp]: "d < 10 \<Longrightarrow> digit_val (digit_char d) = Some (int d)"
  by (simp add: digit_val_def digit_char_def)

lemma parse_digits_append:
  "parse_digits acc (s @ t) = Option.bind (parse_digits acc s) (\<lambda>a. parse_digits a t)"
  by (induction s arbitrary: acc) (auto split: option.splits)

lemma itoa_nat_nonempty [simp]: "itoa_nat n \<noteq> []"
  by (subst itoa_nat.simps) simp

lemma parse_digits_itoa_nat: "parse_digits 0 (itoa_nat n) = Some (int n)"
proof (induction n rule: itoa_nat.induct)
  case (1 n)
  show ?case
  proof (cases "n < 10")
    case True
    then show ?thesis by (subst itoa_nat.simps) simp
  next
    case False
    then have "parse_digits 0 (itoa_nat n) = Some (int (n div 10) * 10 + int (n mod 10))"
      using 1 by (subst itoa_nat.simps) (simp add: parse_digits_append)
    then show ?thesis by (simp add: zdiv_int zmod_int)
  qed
qed

lemma parse_uint_itoa_nat [simp]: "parse_uint (itoa_nat n) = Some (int n)"
  by (simp add: parse_uint_def parse_digits_itoa_nat)

lemma itoa_nat_digits: "c \<in> set (itoa_nat n) \<Longrightarrow> \<exists>d < 10. c = digit_char d"
proof (induction n rule: itoa_nat.induct)
  case (1 n)
  have "c = digit_char n \<and> n < 10 \<or> c = digit_char (n mod 10) \<or> \<not> n < 10 \<and> c \<in> set (itoa_nat (n div 10))"
    using 1(2) by (subst (asm) itoa_nat.simps) (auto split: if_splits)
  moreover have "n mod 10 < 10" by simp
  ultimately show ?case using 1(1) by blast
qed

lemma digit_char_not_sign: "d < 10 \<Longrightarrow> digit_char d \<noteq> CHR ''-'' \<and> digit_char d \<noteq> CHR ''+''"
proof -
  assume d: "d < 10"
  then have "byte_of (digit_char d) = 48 + d" by (simp add: digit_char_def)
  moreover have "byte_of (CHR ''-'') = 45" "byte_of (CHR ''+'') = 43" by (simp_all add: byte_of_def)
  ultimately show ?thesis by auto
qed

lemma itoa_nat_inj: "itoa_nat m = itoa_nat n \<Longrightarrow> m = n"
  by (metis of_nat_eq_iff option.inject parse_digits_itoa_nat)

lemma go_Itoa_inj: "0 \<le> m \<Longrightarrow> 0 \<le> n \<Longrightarrow> go_Itoa m = go_Itoa n \<Longrightarrow> m = n"
  by (auto simp: go_Itoa_def dest: itoa_nat_inj)

lemma go_Atoi_Itoa:
  assumes "in_int64 n"
  shows "go_Atoi (go_Itoa n) = Some n"
proof (cases "n < 0")
  case True
  with assms show ?thesis by (simp add: go_Atoi_def go_Itoa_def check_range_def)
next
  case False
  obtain c cs where c: "itoa_nat (nat n) = c # cs"
    by (cases "itoa_nat (nat n)") auto
  then obtain d where "d < 10" "c = digit_char d"
    using itoa_nat_digits [of c "nat n"] by (metis list.set_intros(1))
  then have "c \<noteq> CHR ''-''" "c \<noteq> CHR ''+''" using digit_char_not_sign [of d] by (simp_all only: simp_thms)
  moreover have "parse_uint (c # cs) = Some n" using False parse_uint_itoa_nat [of "nat n"] by (simp add: c)
  ultimately show ?thesis using False assms c by (simp add: go_Atoi_def go_Itoa_def check_range_def)
qed

section \<open>Lemmas: maps\<close>

lemma mget_mput [gomap_simps]: "mget (mput m k v) k' = (if k' = k then Some v else mget m k')"
  by (simp add: mget_def mput_def update_conv')

lemma mget_mdel [gomap_simps]: "mget (mdel m k) k' = (if k' = k then None else mget m k')"
  by (simp add: mget_def mdel_def delete_conv')

lemma mget_Nil [simp]: "mget [] k = None"
  by (simp add: mget_def)

lemma gomap_ok_Nil [simp]: "gomap_ok []"
  by (simp add: gomap_ok_def)

lemma gomap_ok_mput [simp]: "gomap_ok m \<Longrightarrow> gomap_ok (mput m k v)"
  by (simp add: gomap_ok_def mput_def distinct_update)

lemma gomap_ok_mdel [simp]: "gomap_ok m \<Longrightarrow> gomap_ok (mdel m k)"
  by (simp add: gomap_ok_def mdel_def distinct_delete)

lemma gomap_ok_filter [simp]: "gomap_ok m \<Longrightarrow> gomap_ok (filter P m)"
  by (simp add: gomap_ok_def distinct_map_filter)

lemma mget_in_set: "mget m k = Some v \<Longrightarrow> (k, v) \<in> set m"
  by (simp add: mget_def map_of_SomeD)

lemma mget_iff: "gomap_ok m \<Longrightarrow> mget m k = Some v \<longleftrightarrow> (k, v) \<in> set m"
  by (simp add: mget_def gomap_ok_def)

lemma mget_None_iff: "mget m k = None \<longleftrightarrow> k \<notin> fst ` set m"
  by (simp add: mget_def map_of_eq_None_iff)

lemma mget_filter:
  "gomap_ok m \<Longrightarrow>
   mget (filter P m) k = (case mget m k of None \<Rightarrow> None | Some v \<Rightarrow> if P (k, v) then Some v else None)"
proof (induction m)
  case Nil
  then show ?case by simp
next
  case (Cons p m)
  obtain k' v' where p: "p = (k', v')" by (cases p)
  from Cons.prems p have "k' \<notin> fst ` set m" and ok: "gomap_ok m"
    by (auto simp: gomap_ok_def)
  then have "mget m k' = None" by (simp add: mget_None_iff)
  with Cons.IH [OF ok] p show ?case
    by (auto simp: mget_def split: option.splits)
qed

lemma mdel_filter: "mdel m k = filter (\<lambda>p. fst p \<noteq> k) m"
  unfolding mdel_def AList.delete_eq by (rule filter_cong) auto

lemma set_mput_subset: "set (mput m k v) \<subseteq> insert (k, v) (set m)"
  unfolding mput_def by (induction m) auto

lemma mset_mput_fresh: "mget m k = None \<Longrightarrow> mput m k v = m @ [(k, v)]"
  unfolding mget_def mput_def by (induction m) (auto split: if_splits)

lemma gomap_perm_lookup:
  assumes "gomap_ok m" and "mset m = mset m'"
  shows "mget m' k = mget m k" and "gomap_ok m'"
proof -
  have "mset (map fst m) = mset (map fst m')" using assms(2) by (metis mset_map)
  then show ok': "gomap_ok m'"
    using assms(1) unfolding gomap_ok_def by (metis mset_eq_imp_distinct_iff)
  have "set m = set m'" using assms(2) by (metis set_mset_mset)
  then show "mget m' k = mget m k"
    using assms(1) ok' by (metis (no_types) mget_iff not_None_eq)
qed

section \<open>Lemmas: sorting\<close>

lemma mset_sort_slice [simp]: "mset (sort_slice key xs) = mset xs"
  by (simp add: sort_slice_def)

lemma set_sort_slice [simp]: "set (sort_slice key xs) = set xs"
  by (simp add: sort_slice_def)

lemma length_sort_slice [simp]: "length (sort_slice key xs) = length xs"
  by (simp add: sort_slice_def)

lemma sorted_sort_slice [simp]: "sorted (map key (sort_slice key xs))"
  by (simp add: sort_slice_def)

lemma sort_slice_eq_Nil [simp]: "sort_slice key xs = [] \<longleftrightarrow> xs = []"
  by (metis length_0_conv length_sort_slice)

text \<open>With distinct keys, whatever a correct sort returns is what \<open>sort_slice\<close> returns.\<close>

lemma sort_slice_unique:
  assumes "mset ys = mset xs" and "sorted (map key ys)" and "inj_on key (set xs)"
  shows "ys = sort_slice key xs"
  unfolding sort_slice_def
  using assms by (metis sort_key_inj_key_eq)

lemma sort_slice_perm:
  assumes "mset xs = mset ys" and "inj_on key (set xs)"
  shows "sort_slice key xs = sort_slice key ys"
  by (rule sort_slice_unique) (use assms in \<open>auto dest: mset_eq_setD\<close>)

end
