(* ===== verification/Config.thy ===== *)
theory Config
  imports Go_Base
begin

text \<open>
  \<open>internal/config/config.go\<close>: the configuration read from the environment. The environment is a
  function from names to values; \<open>os.Getenv\<close> returns the empty string for an unset name, so an
  unset and an empty variable are the same. \<open>getEnvStr\<close>, \<open>getEnvBool\<close> and \<open>getEnvInt\<close> are the
  three readers and \<open>Load\<close> assembles the record.
\<close>

section \<open>Definitions\<close>

type_synonym environ = "string \<Rightarrow> string"

record config =
  Socks5Port :: int
  HTTPPort :: int
  ProxyUser :: string
  ProxyPass :: string
  OvpnDir :: string
  AuthFile :: string
  DefaultSessionTTL :: duration
  WorkerIdleTimeout :: duration
  WorkerMaxLifetime :: duration
  MinPoolSize :: int
  WorkerVerbose :: bool
  PreconnectConcurrency :: int
  WorkerLifetimeJitterPct :: int
  WorkerRotationGrace :: duration

definition getEnvStr :: "environ \<Rightarrow> string \<Rightarrow> string \<Rightarrow> string" where
  "getEnvStr env key fallback = (if env key \<noteq> [] then env key else fallback)"

definition getEnvBool :: "environ \<Rightarrow> string \<Rightarrow> bool \<Rightarrow> bool" where
  "getEnvBool env key fallback =
     (let v = go_ToLower (go_TrimSpace (env key)) in
      if v = [] then fallback
      else if v \<in> {''1'', ''true'', ''yes'', ''on''} then True
      else if v \<in> {''0'', ''false'', ''no'', ''off''} then False
      else fallback)"

definition getEnvInt :: "environ \<Rightarrow> string \<Rightarrow> int \<Rightarrow> int" where
  "getEnvInt env key fallback =
     (if env key = [] then fallback
      else (case go_Atoi (env key) of None \<Rightarrow> fallback | Some parsed \<Rightarrow> parsed))"

definition Load :: "environ \<Rightarrow> config" where
  "Load env =
     (let concurrency = getEnvInt env ''PRECONNECT_CONCURRENCY'' 3;
          concurrency = (if concurrency \<le> 0 then 1 else concurrency);
          jitter = getEnvInt env ''WORKER_LIFETIME_JITTER_PCT'' 10;
          jitter = (if jitter < 0 then 0 else if jitter > 50 then 50 else jitter)
      in \<lparr>Socks5Port = getEnvInt env ''SOCKS5_PORT'' 1080,
          HTTPPort = getEnvInt env ''HTTP_PORT'' 8888,
          ProxyUser = getEnvStr env ''PROXY_USER'' ''user'',
          ProxyPass = getEnvStr env ''PROXY_PASS'' ''pass'',
          OvpnDir = getEnvStr env ''OVPN_DIR'' ''/etc/openvpn/ovpn'',
          AuthFile = getEnvStr env ''AUTH_FILE'' ''/etc/openvpn/auth.txt'',
          DefaultSessionTTL = dur_mul (getEnvInt env ''DEFAULT_SESSION_TTL'' 30) minute,
          WorkerIdleTimeout = dur_mul (getEnvInt env ''WORKER_IDLE_TIMEOUT'' 10) minute,
          WorkerMaxLifetime = dur_mul (getEnvInt env ''WORKER_MAX_LIFETIME'' 0) minute,
          MinPoolSize = getEnvInt env ''MIN_POOL_SIZE'' 10,
          WorkerVerbose = getEnvBool env ''WORKER_VERBOSE'' False,
          PreconnectConcurrency = concurrency,
          WorkerLifetimeJitterPct = jitter,
          WorkerRotationGrace =
            dur_mul (getEnvInt env ''WORKER_ROTATION_GRACE_MINUTES'' 0) minute\<rparr>)"

text \<open>An environment that sets the rotation variables, for evaluation.\<close>

definition rotation_env :: environ where
  "rotation_env key =
     (if key = ''PRECONNECT_CONCURRENCY'' then go_Itoa 4
      else if key = ''WORKER_LIFETIME_JITTER_PCT'' then go_Itoa 25
      else if key = ''MIN_POOL_SIZE'' then ''ten'' else [])"

section \<open>Readers\<close>

lemma getEnvInt_unset [simp]: "env key = [] \<Longrightarrow> getEnvInt env key d = d"
  by (simp add: getEnvInt_def)

lemma go_Itoa_nonempty [simp]: "go_Itoa n \<noteq> []"
  by (simp add: go_Itoa_def)

lemma getEnvInt_number: "in_int64 n \<Longrightarrow> env key = go_Itoa n \<Longrightarrow> getEnvInt env key d = n"
  by (simp add: getEnvInt_def go_Atoi_Itoa)

lemma getEnvInt_range: "in_int64 d \<Longrightarrow> in_int64 (getEnvInt env key d)"
proof -
  assume d: "in_int64 d"
  have "in_int64 n" if "go_Atoi s = Some n" for s n
    using that by (auto simp: go_Atoi_def check_range_def bind_eq_Some_conv split: list.splits if_splits)
  with d show ?thesis by (auto simp: getEnvInt_def split: option.splits)
qed

lemma getEnvInt_fallback: "go_Atoi (env key) = None \<Longrightarrow> getEnvInt env key d = d"
  by (simp add: getEnvInt_def)

section \<open>Properties\<close>

text \<open>
  Whatever the environment holds, the loaded configuration is in range: a positive preconnect
  concurrency, a jitter between 0 and 50 per cent, a non-empty proxy user and password, and
  durations and numbers that fit 64 bits.
\<close>

theorem Load_bounds:
  "1 \<le> PreconnectConcurrency (Load env) \<and>
   0 \<le> WorkerLifetimeJitterPct (Load env) \<and> WorkerLifetimeJitterPct (Load env) \<le> 50 \<and>
   ProxyUser (Load env) \<noteq> [] \<and> ProxyPass (Load env) \<noteq> [] \<and>
   in_int64 (MinPoolSize (Load env)) \<and> in_int64 (DefaultSessionTTL (Load env)) \<and>
   in_int64 (WorkerMaxLifetime (Load env)) \<and> in_int64 (WorkerRotationGrace (Load env))"
proof -
  have "in_int64 (getEnvInt env ''MIN_POOL_SIZE'' 10)"
    by (rule getEnvInt_range) (simp add: in_int64_def)
  then show ?thesis by (auto simp: Load_def Let_def getEnvStr_def dur_mul_def)
qed

text \<open>
  An integer variable that holds a decimal 64-bit number is taken as that number, and one that
  is unset or does not parse leaves the default; for the rotation variables this means that an
  in-range setting is loaded exactly as written.
\<close>

theorem Load_rotation_settings:
  assumes "env ''PRECONNECT_CONCURRENCY'' = go_Itoa c" and "1 \<le> c" and "c < 2 ^ 63"
    and "env ''WORKER_LIFETIME_JITTER_PCT'' = go_Itoa j" and "0 \<le> j" and "j \<le> 50"
    and "go_Atoi (env ''MIN_POOL_SIZE'') = None"
  shows "PreconnectConcurrency (Load env) = c \<and> WorkerLifetimeJitterPct (Load env) = j \<and>
    MinPoolSize (Load env) = 10"
proof -
  have "getEnvInt env ''PRECONNECT_CONCURRENCY'' 3 = c"
    using assms by (intro getEnvInt_number) (simp_all add: in_int64_def)
  moreover have "getEnvInt env ''WORKER_LIFETIME_JITTER_PCT'' 10 = j"
    using assms by (intro getEnvInt_number) (simp_all add: in_int64_def)
  moreover have "getEnvInt env ''MIN_POOL_SIZE'' 10 = 10"
    using assms(7) by (rule getEnvInt_fallback)
  ultimately show ?thesis using assms(2,5,6) by (simp add: Load_def Let_def)
qed

theorem Load_rotation_settings_witness:
  "PreconnectConcurrency (Load rotation_env) = 4 \<and>
   WorkerLifetimeJitterPct (Load rotation_env) = 25 \<and> MinPoolSize (Load rotation_env) = 10"
  by (rule Load_rotation_settings)
    (simp_all add: rotation_env_def go_Atoi_def parse_uint_def digit_val_def byte_of_def)

text \<open>
  With nothing set, every field has the default written in \<open>Load\<close>; in particular the worker
  lifetime is 0, so rotation is off unless the environment turns it on.
\<close>

theorem Load_defaults:
  "Load (\<lambda>_. []) =
     \<lparr>Socks5Port = 1080, HTTPPort = 8888, ProxyUser = ''user'', ProxyPass = ''pass'',
      OvpnDir = ''/etc/openvpn/ovpn'', AuthFile = ''/etc/openvpn/auth.txt'',
      DefaultSessionTTL = 30 * minute, WorkerIdleTimeout = 10 * minute, WorkerMaxLifetime = 0,
      MinPoolSize = 10, WorkerVerbose = False, PreconnectConcurrency = 3,
      WorkerLifetimeJitterPct = 10, WorkerRotationGrace = 0\<rparr>"
  by (simp add: Load_def getEnvStr_def getEnvBool_def dur_mul_def wrap64_def
      minute_def second_def)

end
