(* ===== verification/Parser.thy ===== *)
theory Parser
  imports Go_Base
begin

text \<open>
  \<open>internal/parser/parser.go\<close>: the proxy username carries the request's parameters
  (\<open>user__cr.us;sessid.abc;sessttl.15\<close>). \<open>apply_item\<close> is the body of the loop over the items
  between semicolons, \<open>Parse\<close> the whole function. \<open>render\<close> is the documented notation, used to
  state that parsing reads it back.
\<close>

section \<open>Definitions\<close>

record params =
  p_Username :: string
  p_Country :: string
  p_SessionID :: string
  p_SessionTTL :: duration

definition IsSticky :: "params \<Rightarrow> bool" where
  "IsSticky p \<longleftrightarrow> p_SessionID p \<noteq> []"

definition apply_key :: "params \<Rightarrow> string \<Rightarrow> string \<Rightarrow> params" where
  "apply_key p key val =
     (if key = ''cr'' then p\<lparr>p_Country := go_ToLower val\<rparr>
      else if key = ''sessid'' then p\<lparr>p_SessionID := val\<rparr>
      else if key = ''sessttl'' then
        (case go_Atoi val of
           None \<Rightarrow> p
         | Some minutes \<Rightarrow>
             if minutes > 0 then p\<lparr>p_SessionTTL := dur_mul minutes minute\<rparr> else p)
      else p)"

definition apply_item :: "params \<Rightarrow> string \<Rightarrow> params" where
  "apply_item p item =
     (let keyValue = go_SplitN2 item ''.'' in
      if length keyValue \<noteq> 2 then p
      else
        let key = go_ToLower (go_TrimSpace (keyValue ! 0));
            val = go_TrimSpace (keyValue ! 1)
        in if val = [] then p else apply_key p key val)"

definition Parse :: "string \<Rightarrow> string \<Rightarrow> params" where
  "Parse username password =
     (let parts = go_SplitN2 username ''__'';
          ps = \<lparr>p_Username = parts ! 0, p_Country = [], p_SessionID = [], p_SessionTTL = 0\<rparr>
      in if length parts \<noteq> 2 \<or> parts ! 1 = [] then ps
         else foldl apply_item ps (go_Split (parts ! 1) (CHR '';'')))"

text \<open>The documented notation, in the order of the README's example.\<close>

definition render_item :: "string \<Rightarrow> string \<Rightarrow> string" where
  "render_item key val = key @ ''.'' @ val"

fun join_items :: "string list \<Rightarrow> string" where
  "join_items [] = []"
| "join_items [x] = x"
| "join_items (x # xs) = x @ CHR '';'' # join_items xs"

definition render :: "string \<Rightarrow> string \<Rightarrow> string \<Rightarrow> int \<Rightarrow> string" where
  "render user cr sessid minutes =
     user @ ''__'' @
     join_items [render_item ''cr'' cr, render_item ''sessid'' sessid,
       render_item ''sessttl'' (go_Itoa minutes)]"

text \<open>What a user name and a value need for the notation to be unambiguous.\<close>

definition plain_user :: "string \<Rightarrow> bool" where
  "plain_user u \<longleftrightarrow> \<not> go_Contains (u @ ''_'') ''__''"

definition plain_value :: "string \<Rightarrow> bool" where
  "plain_value v \<longleftrightarrow>
     v \<noteq> [] \<and> CHR '';'' \<notin> set v \<and> \<not> begins_with space_runes v \<and> \<not> begins_with (map rev space_runes) (rev v)"

section \<open>Splitting a user name\<close>

lemma split_user:
  assumes "plain_user u"
  shows "go_SplitN2 (u @ ''__'' @ t) ''__'' = [u, t]"
proof -
  have "str_index ''__'' (u @ butlast ''__'') = None"
    using assms by (simp add: plain_user_def go_Contains_def)
  then have "str_index ''__'' (u @ ''__'' @ t) = Some (length u)"
    by (rule str_index_append) simp
  then show ?thesis by (simp add: go_SplitN2_def)
qed

lemma split_user_none:
  assumes "\<not> go_Contains u ''__''"
  shows "go_SplitN2 u ''__'' = [u]"
  using assms by (simp add: go_SplitN2_def go_Contains_def split: option.splits)

lemma foldl_apply_item_Username: "p_Username (foldl apply_item p items) = p_Username p"
proof (induction items arbitrary: p)
  case (Cons i items)
  have "p_Username (apply_item p i) = p_Username p"
    by (simp add: apply_item_def apply_key_def Let_def split: option.splits)
  with Cons show ?case by simp
qed simp

lemma Parse_Username: "p_Username (Parse u pw) = go_SplitN2 u ''__'' ! 0"
  by (simp add: Parse_def Let_def foldl_apply_item_Username)

lemma first_part: "go_SplitN2 s sep ! 0 = (case str_index sep s of None \<Rightarrow> s | Some i \<Rightarrow> take i s)"
  by (simp add: go_SplitN2_def split: option.splits)

section \<open>Items\<close>

lemma split_item:
  assumes "CHR ''.'' \<notin> set key"
  shows "go_SplitN2 (render_item key val) ''.'' = [key, val]"
proof -
  have "str_index ''.'' (key @ butlast ''.'') = None"
    using assms by (simp add: str_index_None_iff sublist_def in_set_conv_decomp)
  then have "str_index ''.'' (key @ ''.'' @ val) = Some (length key)"
    by (rule str_index_append) simp
  then show ?thesis by (simp add: go_SplitN2_def render_item_def)
qed

lemma plain_value_trim: "plain_value v \<Longrightarrow> go_TrimSpace v = v"
  by (simp add: plain_value_def go_TrimSpace_id)

lemma known_keys:
  "go_ToLower (go_TrimSpace ''cr'') = ''cr''"
  "go_ToLower (go_TrimSpace ''sessid'') = ''sessid''"
  "go_ToLower (go_TrimSpace ''sessttl'') = ''sessttl''"
  by (simp_all add: go_ToLower_def go_TrimSpace_printable byte_of_def lower_char_def)

lemma apply_rendered_item:
  assumes "plain_value val" and "CHR ''.'' \<notin> set key"
    and "go_ToLower (go_TrimSpace key) = key"
  shows "apply_item p (render_item key val) = apply_key p key val"
  using assms by (simp add: apply_item_def split_item plain_value_trim plain_value_def)

lemma plain_value_Itoa:
  assumes "0 < n"
  shows "plain_value (go_Itoa n)"
proof -
  have digits: "\<exists>d < 10. c = digit_char d" if "c \<in> set (go_Itoa n)" for c
    using that assms itoa_nat_digits [of c "nat n"] by (simp add: go_Itoa_def)
  have ok: "c \<noteq> CHR '';'' \<and> 32 < byte_of c \<and> byte_of c < 128" if c: "c \<in> set (go_Itoa n)" for c
  proof -
    obtain d where "d < 10" "c = digit_char d" using digits [OF c] by blast
    then have "byte_of c = 48 + d" by (simp add: digit_char_def)
    moreover have "byte_of (CHR '';'') = 59" by (simp add: byte_of_def)
    ultimately show ?thesis using \<open>d < 10\<close> by auto
  qed
  have ne: "go_Itoa n \<noteq> []" using assms by (simp add: go_Itoa_def)
  then have "\<not> begins_with space_runes (go_Itoa n)" by (intro begins_with_printable) (simp_all add: ok)
  moreover have "\<not> begins_with (map rev space_runes) (rev (go_Itoa n))"
    using ne ok [OF last_in_set [OF ne]] by (intro begins_with_printable) (simp_all add: hd_rev)
  ultimately show ?thesis using ne ok by (auto simp: plain_value_def)
qed

lemma render_item_no_semi:
  "plain_value v \<Longrightarrow> CHR '';'' \<notin> set k \<Longrightarrow> CHR '';'' \<notin> set (render_item k v)"
  by (simp add: render_item_def plain_value_def)

lemma apply_key_TTL:
  "p_SessionTTL (apply_key p k v) = p_SessionTTL p \<or>
   (\<exists>n > 0. p_SessionTTL (apply_key p k v) = wrap64 (n * minute))"
  by (auto simp: apply_key_def dur_mul_def split: option.splits)

lemma apply_item_TTL:
  "p_SessionTTL (apply_item p i) = p_SessionTTL p \<or>
   (\<exists>n > 0. p_SessionTTL (apply_item p i) = wrap64 (n * minute))"
  using apply_key_TTL by (simp add: apply_item_def Let_def)

section \<open>Properties\<close>

text \<open>
  C38: parsing reads the documented notation back. For every user name without an ambiguous
  underscore, every ASCII country and every session identifier, in any encoding, free of semicolons and
  of white space (Unicode's) at both ends, and every positive number of minutes that fits a
  \<open>time.Duration\<close>, \<open>Parse\<close> recovers the user name, the lower-cased country, the session identifier
  and the TTL.
\<close>

theorem Parse_render:
  assumes "plain_user user" and "plain_value cr" and "ascii cr" and "plain_value sessid"
    and "0 < minutes" and "minutes * minute < 2 ^ 63"
  shows "Parse (render user cr sessid minutes) password =
    \<lparr>p_Username = user, p_Country = go_ToLower cr, p_SessionID = sessid,
     p_SessionTTL = minutes * minute\<rparr>"
proof -
  let ?i1 = "render_item ''cr'' cr" and ?i2 = "render_item ''sessid'' sessid"
  let ?i3 = "render_item ''sessttl'' (go_Itoa minutes)"
  have range: "in_int64 minutes" "in_int64 (minutes * minute)"
    using assms(5,6) by (simp_all add: in_int64_def minute_def second_def)
  have val: "plain_value (go_Itoa minutes)" using assms(5) by (rule plain_value_Itoa)
  have items: "go_Split (join_items [?i1, ?i2, ?i3]) (CHR '';'') = [?i1, ?i2, ?i3]"
    using assms(2,4) val by (simp add: go_Split_append go_Split_no_sep render_item_no_semi)
  have nonempty: "join_items [?i1, ?i2, ?i3] \<noteq> []" by (simp add: render_item_def)
  have "go_SplitN2 (render user cr sessid minutes) ''__'' = [user, join_items [?i1, ?i2, ?i3]]"
    unfolding render_def using assms(1) by (rule split_user)
  then have "Parse (render user cr sessid minutes) password =
      foldl apply_item \<lparr>p_Username = user, p_Country = [], p_SessionID = [], p_SessionTTL = 0\<rparr>
        [?i1, ?i2, ?i3]"
    unfolding Parse_def using nonempty items by (simp add: Let_def del: join_items.simps)
  also have "\<dots> = \<lparr>p_Username = user, p_Country = go_ToLower cr, p_SessionID = sessid,
     p_SessionTTL = minutes * minute\<rparr>"
    using assms(2,4,5) val range
    by (simp add: apply_rendered_item known_keys apply_key_def go_Atoi_Itoa dur_mul_def)
  finally show ?thesis .
qed

text \<open>The hypotheses hold for the README's example, with the country in capitals.\<close>

theorem Parse_render_witness:
  "Parse ''user__cr.US;sessid.abc;sessttl.15'' ''pass'' =
     \<lparr>p_Username = ''user'', p_Country = ''us'', p_SessionID = ''abc'',
      p_SessionTTL = 15 * minute\<rparr>"
proof -
  have "plain_user ''user''" by (simp add: plain_user_def go_Contains_def)
  moreover have "plain_value ''US''" "ascii ''US''" "plain_value ''abc''"
    by (simp_all add: plain_value_def begins_with_printable byte_of_def ascii_def)
  moreover have "(0::int) < 15" "15 * minute < 2 ^ 63" by (simp_all add: minute_def second_def)
  moreover have "render ''user'' ''US'' ''abc'' 15 = ''user__cr.US;sessid.abc;sessttl.15''"
    by (simp add: render_def render_item_def go_Itoa_def itoa_nat.simps digit_char_def char_of_def
        bit_iff_odd)
  moreover have "go_ToLower ''US'' = ''us''"
    by (simp add: go_ToLower_def lower_char_def byte_of_def char_of_def bit_iff_odd)
  ultimately show ?thesis using Parse_render [of "''user''" "''US''" "''abc''" 15 "''pass''"] by simp
qed

text \<open>
  The user name that is compared with the configured one is the text before the first double
  underscore, and never contains a double underscore itself; the parameters after it cannot
  change it.
\<close>

theorem Parse_Username_before_separator:
  "prefix (p_Username (Parse u pw)) u \<and>
   \<not> go_Contains (p_Username (Parse u pw)) ''__'' \<and>
   (go_Contains u ''__'' \<or> p_Username (Parse u pw) = u)"
proof (cases "str_index ''__'' u")
  case None
  then show ?thesis by (simp add: Parse_Username first_part go_Contains_def)
next
  case (Some i)
  have "str_index ''__'' (take i u) = None" using Some
  proof (induction u arbitrary: i)
    case (Cons c cs)
    show ?case
    proof (cases i)
      case (Suc j)
      with Cons.prems have "str_index ''__'' cs = Some j" and n: "\<not> prefix ''__'' (c # cs)"
        by (auto split: if_splits)
      moreover have "\<not> prefix ''__'' (c # take j cs)"
        using n by (metis append_take_drop_id append_Cons prefix_append)
      ultimately show ?thesis using Cons.IH Suc by simp
    qed simp
  qed simp
  with Some show ?thesis by (simp add: Parse_Username first_part go_Contains_def take_is_prefix)
qed

text \<open>
  The session TTL of a request is 0 (absent or not a positive number) or the 64-bit product of
  a positive number of minutes and one minute, and it always fits a \<open>time.Duration\<close>. The product
  is not checked for overflow.
\<close>

theorem Parse_TTL:
  "in_int64 (p_SessionTTL (Parse u pw)) \<and>
   (p_SessionTTL (Parse u pw) = 0 \<or> (\<exists>n > 0. p_SessionTTL (Parse u pw) = wrap64 (n * minute)))"
proof -
  let ?ok = "\<lambda>p. p_SessionTTL p = 0 \<or> (\<exists>n > 0. p_SessionTTL p = wrap64 (n * minute))"
  have fold: "?ok (foldl apply_item p items)" if "?ok p" for p items
    using that
  proof (induction items arbitrary: p)
    case (Cons i items)
    then have "?ok (apply_item p i)" using apply_item_TTL [of p i] by auto
    then show ?case using Cons.IH by simp
  qed simp
  have "?ok (Parse u pw)" unfolding Parse_def Let_def by (simp add: fold)
  moreover have "in_int64 0" by (simp add: in_int64_def)
  ultimately show ?thesis by (metis in_int64_wrap64)
qed

text \<open>
  The unchecked product wraps. A request for 307445735 minutes (585 years) is given a TTL of
  26 seconds, and one for 153722868 minutes a negative TTL, which the session manager then
  replaces by its default.
\<close>

theorem Parse_TTL_overflow:
  "p_SessionTTL (Parse ''u__sessttl.307445735'' pw) < 27 * second \<and>
   p_SessionTTL (Parse ''u__sessttl.153722868'' pw) < 0"
  by (simp add: Parse_def Let_def go_SplitN2_def apply_item_def known_keys apply_key_def
      go_Atoi_def parse_uint_def digit_val_def byte_of_def check_range_def in_int64_def
      dur_mul_def minute_def second_def wrap64_def go_TrimSpace_printable
      go_ToLower_def lower_char_def)

end
