(* ===== verification/Session.thy ===== *)
theory Session
  imports Go_Base
begin

text \<open>
  \<open>internal/session/session.go\<close>: the sticky-session table. Every operation runs under the
  manager's lock, so each is one function from the manager to the manager; \<open>time.Now()\<close> is the
  argument \<open>now\<close>. The \<open>for \<dots> range\<close> loops are folds over the table that delete from the table
  as they go. The locale \<open>session_store\<close> is the part of the contract the router relies on; it is
  interpreted on these operations at the end.
\<close>

section \<open>Definitions\<close>

record snapshot =
  sn_ID :: string
  sn_WorkerID :: string
  sn_Country :: string
  sn_TTL :: duration
  sn_CreatedAt :: time
  sn_LastUsed :: time

record stickySession =
  ss_id :: string
  ss_workerID :: string
  ss_country :: string
  ss_ttl :: duration
  ss_createdAt :: time
  ss_lastUsed :: time

definition expired :: "stickySession \<Rightarrow> time \<Rightarrow> bool" where
  "expired s now \<longleftrightarrow> time_sub now (ss_createdAt s) > ss_ttl s"

definition session_snapshot :: "stickySession \<Rightarrow> snapshot" where
  "session_snapshot s =
     \<lparr>sn_ID = ss_id s, sn_WorkerID = ss_workerID s, sn_Country = ss_country s, sn_TTL = ss_ttl s,
      sn_CreatedAt = ss_createdAt s, sn_LastUsed = ss_lastUsed s\<rparr>"

record sessionManager =
  sessions :: "(string, stickySession) gomap"
  defaultTTL :: duration

definition NewManager :: "duration \<Rightarrow> sessionManager" where
  "NewManager ttl = \<lparr>sessions = [], defaultTTL = ttl\<rparr>"

definition Lookup :: "time \<Rightarrow> sessionManager \<Rightarrow> string \<Rightarrow> snapshot option \<times> sessionManager" where
  "Lookup now m sid =
     (case mget (sessions m) sid of
        None \<Rightarrow> (None, m)
      | Some current \<Rightarrow>
          if expired current now then (None, m\<lparr>sessions := mdel (sessions m) sid\<rparr>)
          else
            let current = current\<lparr>ss_lastUsed := now\<rparr> in
            (Some (session_snapshot current), m\<lparr>sessions := mput (sessions m) sid current\<rparr>))"

definition Bind ::
  "time \<Rightarrow> sessionManager \<Rightarrow> string \<Rightarrow> string \<Rightarrow> duration \<Rightarrow> string \<Rightarrow>
   (snapshot \<times> bool) \<times> sessionManager" where
  "Bind now m sid country ttl workerID =
     (let ttl = (if ttl \<le> 0 then defaultTTL m else ttl);
          fresh = \<lparr>ss_id = sid, ss_workerID = workerID, ss_country = country, ss_ttl = ttl,
                   ss_createdAt = now, ss_lastUsed = now\<rparr>;
          create = ((session_snapshot fresh, True), m\<lparr>sessions := mput (sessions m) sid fresh\<rparr>)
      in case mget (sessions m) sid of
           None \<Rightarrow> create
         | Some current \<Rightarrow>
             if \<not> expired current now then
               let current = current\<lparr>ss_workerID := workerID,
                     ss_country := (if country \<noteq> [] then country else ss_country current),
                     ss_ttl := ttl, ss_lastUsed := now\<rparr>
               in ((session_snapshot current, False),
                   m\<lparr>sessions := mput (sessions m) sid current\<rparr>)
             else create)"

definition Remove :: "sessionManager \<Rightarrow> string \<Rightarrow> sessionManager" where
  "Remove m sid = m\<lparr>sessions := mdel (sessions m) sid\<rparr>"

definition RemoveByWorker :: "sessionManager \<Rightarrow> string \<Rightarrow> sessionManager" where
  "RemoveByWorker m workerID =
     m\<lparr>sessions :=
       foldl (\<lambda>acc (sid, current). if ss_workerID current = workerID then mdel acc sid else acc)
         (sessions m) (sessions m)\<rparr>"

definition Cleanup :: "time \<Rightarrow> sessionManager \<Rightarrow> int \<times> sessionManager" where
  "Cleanup now m =
     (let (removed, rest) =
        foldl (\<lambda>(removed, acc) (sid, current).
            if expired current now then (removed + 1, mdel acc sid) else (removed, acc))
          (0, sessions m) (sessions m)
      in (removed, m\<lparr>sessions := rest\<rparr>))"

definition ActiveSessionsForWorker :: "time \<Rightarrow> sessionManager \<Rightarrow> string \<Rightarrow> int" where
  "ActiveSessionsForWorker now m workerID =
     foldl (\<lambda>count (sid, current).
         if ss_workerID current = workerID \<and> \<not> expired current now then count + 1 else count)
       0 (sessions m)"

subsection \<open>Well-formed tables and what they mean\<close>

definition session_ok :: "sessionManager \<Rightarrow> bool" where
  "session_ok m \<longleftrightarrow> gomap_ok (sessions m) \<and> 0 \<le> defaultTTL m \<and>
     (\<forall>(sid, s) \<in> set (sessions m). ss_id s = sid)"

text \<open>The worker a session identifier stands for at a time, if the session is live.\<close>

definition binding :: "sessionManager \<Rightarrow> time \<Rightarrow> string \<Rightarrow> string option" where
  "binding m now sid =
     (case mget (sessions m) sid of
        None \<Rightarrow> None
      | Some s \<Rightarrow> if expired s now then None else Some (ss_workerID s))"

text \<open>A run of lookups of one session at the given times.\<close>

fun lookups :: "sessionManager \<Rightarrow> string \<Rightarrow> time list \<Rightarrow> sessionManager" where
  "lookups m sid [] = m"
| "lookups m sid (t # ts) = lookups (snd (Lookup t m sid)) sid ts"

text \<open>A table with one session, for evaluation: bound at time 0 for 30 minutes.\<close>

definition sample_sessions :: sessionManager where
  "sample_sessions = snd (Bind 0 (NewManager (30 * minute)) ''s1'' ''us'' 0 ''worker-0'')"

section \<open>The interface the router relies on\<close>

locale session_store =
  fixes lookup :: "time \<Rightarrow> 'm \<Rightarrow> string \<Rightarrow> snapshot option \<times> 'm"
    and bind :: "time \<Rightarrow> 'm \<Rightarrow> string \<Rightarrow> string \<Rightarrow> duration \<Rightarrow> string \<Rightarrow> (snapshot \<times> bool) \<times> 'm"
    and remove :: "'m \<Rightarrow> string \<Rightarrow> 'm"
    and bound :: "'m \<Rightarrow> time \<Rightarrow> string \<Rightarrow> string option"
    and inv :: "'m \<Rightarrow> bool"
  assumes lookup_bound: "inv m \<Longrightarrow> map_option sn_WorkerID (fst (lookup now m sid)) = bound m now sid"
    and lookup_keeps: "inv m \<Longrightarrow> now \<le> t \<Longrightarrow> bound (snd (lookup now m sid)) t sid' = bound m t sid'"
    and bind_bound: "inv m \<Longrightarrow> bound m now sid = None \<Longrightarrow>
      bound (snd (bind now m sid c ttl w)) now sid = Some w"
    and bind_other: "inv m \<Longrightarrow> sid' \<noteq> sid \<Longrightarrow>
      bound (snd (bind now m sid c ttl w)) t sid' = bound m t sid'"
    and remove_bound: "inv m \<Longrightarrow> bound (remove m sid) t sid' = (if sid' = sid then None else bound m t sid')"
    and inv_lookup: "inv m \<Longrightarrow> inv (snd (lookup now m sid))"
    and inv_bind: "inv m \<Longrightarrow> inv (snd (bind now m sid c ttl w))"
    and inv_remove: "inv m \<Longrightarrow> inv (remove m sid)"
begin

lemma lookup_None_iff: "inv m \<Longrightarrow> fst (lookup now m sid) = None \<longleftrightarrow> bound m now sid = None"
  using lookup_bound [of m now sid] by (metis map_option_is_None)

lemma lookup_Some: "inv m \<Longrightarrow> bound m now sid = Some w \<Longrightarrow> \<exists>sn. fst (lookup now m sid) = Some sn \<and> sn_WorkerID sn = w"
  using lookup_bound [of m now sid] by auto

text \<open>Looking up, removing and binding a session afresh: what the router does when it moves one.\<close>

lemma rebind:
  assumes "inv m" and "now \<le> t"
  shows "bound (snd (bind t (remove (snd (lookup now m sid)) sid) sid c ttl w)) t sid = Some w"
    and "sid' \<noteq> sid \<Longrightarrow>
      bound (snd (bind t (remove (snd (lookup now m sid)) sid) sid c ttl w)) t sid' = bound m t sid'"
proof -
  let ?m = "remove (snd (lookup now m sid)) sid"
  have i: "inv (snd (lookup now m sid))" "inv ?m"
    using assms(1) by (auto intro: inv_lookup inv_remove)
  have "bound ?m t sid = None" using i(1) by (simp add: remove_bound)
  then show "bound (snd (bind t ?m sid c ttl w)) t sid = Some w" by (rule bind_bound [OF i(2)])
  show "sid' \<noteq> sid \<Longrightarrow> bound (snd (bind t ?m sid c ttl w)) t sid' = bound m t sid'"
    using assms i by (simp add: bind_other remove_bound lookup_keeps)
qed

lemma bind_after_miss:
  assumes "inv m" and "now \<le> t" and "bound m now sid = None"
    and "\<And>t. now \<le> t \<Longrightarrow> bound m now sid = None \<Longrightarrow> bound m t sid = None"
  shows "bound (snd (bind t (snd (lookup now m sid)) sid c ttl w)) t sid = Some w"
  using assms by (intro bind_bound inv_lookup) (simp_all add: lookup_keeps)

end

section \<open>The loops\<close>

lemma foldl_mdel_filter:
  "foldl (\<lambda>acc (k, v). if P v then mdel acc k else acc) m xs =
   filter (\<lambda>p. \<not> (\<exists>v. (fst p, v) \<in> set xs \<and> P v)) m"
proof (induction xs arbitrary: m)
  case (Cons x xs)
  obtain k v where x: "x = (k, v)" by (cases x)
  show ?case
    unfolding x using Cons.IH by (auto simp: mdel_filter intro!: filter_cong)
qed simp

lemma foldl_mdel_all:
  assumes "gomap_ok m"
  shows "foldl (\<lambda>acc (k, v). if P v then mdel acc k else acc) m m = filter (\<lambda>p. \<not> P (snd p)) m"
  unfolding foldl_mdel_filter
proof (rule filter_cong [OF refl])
  fix p assume "p \<in> set m"
  then show "(\<not> (\<exists>v. (fst p, v) \<in> set m \<and> P v)) = (\<not> P (snd p))"
    using assms by (metis eq_key_imp_eq_value gomap_ok_def prod.collapse)
qed

lemma sessions_RemoveByWorker:
  assumes "gomap_ok (sessions m)"
  shows "sessions (RemoveByWorker m w) = filter (\<lambda>p. ss_workerID (snd p) \<noteq> w) (sessions m)"
  using foldl_mdel_all [OF assms, of "\<lambda>s. ss_workerID s = w"] by (simp add: RemoveByWorker_def)

lemma foldl_count_pair:
  "foldl (\<lambda>(n, acc) (k, v). if P v then (n + 1, mdel acc k) else (n, acc)) (n0, m) xs =
   (n0 + int (length (filter (\<lambda>p. P (snd p)) xs)),
    foldl (\<lambda>acc (k, v). if P v then mdel acc k else acc) m xs)"
  by (induction xs arbitrary: n0 m) auto

lemma Cleanup_eq:
  assumes "gomap_ok (sessions m)"
  shows "Cleanup now m =
    (int (length (filter (\<lambda>p. expired (snd p) now) (sessions m))),
     m\<lparr>sessions := filter (\<lambda>p. \<not> expired (snd p) now) (sessions m)\<rparr>)"
  unfolding Cleanup_def foldl_count_pair [where P = "\<lambda>s. expired s now"]
  using foldl_mdel_all [OF assms, of "\<lambda>s. expired s now"] by simp

lemma foldl_count:
  "foldl (\<lambda>n (k, v). if P v then n + 1 else n) n0 xs = n0 + int (length (filter (\<lambda>p. P (snd p)) xs))"
  by (induction xs arbitrary: n0) auto

lemma ActiveSessions_eq:
  "ActiveSessionsForWorker now m w =
   int (length (filter (\<lambda>p. ss_workerID (snd p) = w \<and> \<not> expired (snd p) now) (sessions m)))"
  unfolding ActiveSessionsForWorker_def
  using foldl_count [of "\<lambda>s. ss_workerID s = w \<and> \<not> expired s now" 0] by simp

section \<open>Expiry and the contract\<close>

lemma expired_mono: "expired s now \<Longrightarrow> now \<le> t \<Longrightarrow> expired s t"
proof -
  assume "expired s now" "now \<le> t"
  moreover have "time_sub now (ss_createdAt s) \<le> time_sub t (ss_createdAt s)"
    using \<open>now \<le> t\<close> unfolding time_sub_def by (intro sat64_mono) simp
  ultimately show ?thesis by (simp add: expired_def)
qed

lemma fresh_not_expired: "0 \<le> ss_ttl s \<Longrightarrow> ss_createdAt s = now \<Longrightarrow> \<not> expired s now"
  by (simp add: expired_def time_sub_def sat64_def)

lemma expired_lastUsed [simp]: "expired (s\<lparr>ss_lastUsed := t\<rparr>) = expired s"
  by (rule ext) (simp add: expired_def)

lemma snapshot_worker [simp]: "sn_WorkerID (session_snapshot s) = ss_workerID s"
  by (simp add: session_snapshot_def)

lemma set_mdel: "p \<in> set (mdel m k) \<Longrightarrow> p \<in> set m"
  by (simp add: mdel_filter)

lemma session_ok_mput:
  "session_ok m \<Longrightarrow> ss_id s = sid \<Longrightarrow> session_ok (m\<lparr>sessions := mput (sessions m) sid s\<rparr>)"
  by (auto simp: session_ok_def dest!: set_mput_subset [THEN subsetD])

lemma session_ok_mdel: "session_ok m \<Longrightarrow> session_ok (m\<lparr>sessions := mdel (sessions m) sid\<rparr>)"
  by (auto simp: session_ok_def dest!: set_mdel)

lemma session_ok_filter: "session_ok m \<Longrightarrow> session_ok (m\<lparr>sessions := filter P (sessions m)\<rparr>)"
  by (auto simp: session_ok_def)

lemma session_ok_id: "session_ok m \<Longrightarrow> mget (sessions m) sid = Some s \<Longrightarrow> ss_id s = sid"
  by (auto simp: session_ok_def dest!: mget_in_set)

lemma session_ok_Lookup: "session_ok m \<Longrightarrow> session_ok (snd (Lookup now m sid))"
  by (auto simp: Lookup_def Let_def intro!: session_ok_mdel session_ok_mput dest: session_ok_id
      split: option.split)

lemma session_ok_Bind: "session_ok m \<Longrightarrow> session_ok (snd (Bind now m sid c ttl w))"
  by (auto simp: Bind_def Let_def intro!: session_ok_mput dest: session_ok_id split: option.split)

lemma binding_Lookup:
  "now \<le> t \<Longrightarrow> binding (snd (Lookup now m sid)) t sid' = binding m t sid'"
  by (auto simp: Lookup_def binding_def Let_def gomap_simps dest: expired_mono split: option.splits)

lemma Lookup_binding: "map_option sn_WorkerID (fst (Lookup now m sid)) = binding m now sid"
  by (simp add: Lookup_def binding_def Let_def split: option.splits)

lemma Bind_binding:
  assumes "session_ok m" and "binding m now sid = None"
  shows "binding (snd (Bind now m sid c ttl w)) now sid = Some w"
proof -
  have "0 \<le> (if ttl \<le> 0 then defaultTTL m else ttl)" using assms(1) by (simp add: session_ok_def)
  then show ?thesis
    using assms(2)
    by (auto simp: Bind_def binding_def Let_def gomap_simps fresh_not_expired split: option.splits if_splits)
qed

lemma Bind_other: "sid' \<noteq> sid \<Longrightarrow> binding (snd (Bind now m sid c ttl w)) t sid' = binding m t sid'"
  by (auto simp: Bind_def binding_def Let_def gomap_simps split: option.split)

lemma Remove_binding: "binding (Remove m sid) t sid' = (if sid' = sid then None else binding m t sid')"
  by (simp add: Remove_def binding_def gomap_simps)

interpretation sess: session_store Lookup Bind Remove binding session_ok
proof (unfold_locales, goal_cases)
  case 1 show ?case by (rule Lookup_binding)
next
  case 2 then show ?case by (simp add: binding_Lookup)
next
  case 3 then show ?case by (rule Bind_binding)
next
  case 4 then show ?case by (simp add: Bind_other)
next
  case 5 show ?case by (rule Remove_binding)
next
  case 6 then show ?case by (rule session_ok_Lookup)
next
  case 7 then show ?case by (rule session_ok_Bind)
next
  case 8 then show ?case by (simp add: Remove_def session_ok_mdel)
qed

lemma session_ok_New: "0 \<le> ttl \<Longrightarrow> session_ok (NewManager ttl)"
  by (simp add: session_ok_def NewManager_def)

lemma sample_sessions_ok: "session_ok sample_sessions"
  unfolding sample_sessions_def by (intro session_ok_Bind session_ok_New) (simp add: minute_def second_def)

lemma sample_sessions_eq:
  "sessions sample_sessions =
   [(''s1'', \<lparr>ss_id = ''s1'', ss_workerID = ''worker-0'', ss_country = ''us'', ss_ttl = 30 * minute,
      ss_createdAt = 0, ss_lastUsed = 0\<rparr>)]"
  by (simp add: sample_sessions_def NewManager_def Bind_def Let_def mput_def)

section \<open>Properties\<close>

text \<open>
  C33: a session that is bound and looked up before its TTL runs out leads to the worker it was
  bound to, with the TTL that was asked for (or the default), and binding it leaves every other
  session as it was.
\<close>

theorem Bind_then_Lookup:
  assumes "session_ok m" and "binding m now sid = None"
    and "0 \<le> t - now" and "t - now \<le> (if ttl \<le> 0 then defaultTTL m else ttl)"
    and "(if ttl \<le> 0 then defaultTTL m else ttl) < 2 ^ 63"
  shows "(\<exists>sn. fst (Lookup t (snd (Bind now m sid c ttl w)) sid) = Some sn \<and>
      sn_WorkerID sn = w \<and> sn_Country sn = c \<and> sn_CreatedAt sn = now \<and>
      sn_TTL sn = (if ttl \<le> 0 then defaultTTL m else ttl)) \<and>
    (\<forall>sid'. sid' \<noteq> sid \<longrightarrow>
      fst (Lookup t (snd (Bind now m sid c ttl w)) sid') = fst (Lookup t m sid'))"
proof -
  let ?ttl = "if ttl \<le> 0 then defaultTTL m else ttl"
  let ?s = "\<lparr>ss_id = sid, ss_workerID = w, ss_country = c, ss_ttl = ?ttl, ss_createdAt = now,
             ss_lastUsed = now\<rparr>"
  have bind: "snd (Bind now m sid c ttl w) = m\<lparr>sessions := mput (sessions m) sid ?s\<rparr>"
    using assms(2) by (auto simp: Bind_def binding_def Let_def split: option.splits if_splits)
  have "in_int64 (t - now)" using assms(3-5) by (simp add: in_int64_def split: if_splits)
  then have "\<not> expired ?s t" using assms(4) by (simp add: expired_def time_sub_def)
  then show ?thesis
    unfolding bind by (auto simp: Lookup_def gomap_simps session_snapshot_def Let_def split: option.split)
qed

theorem Bind_then_Lookup_witness:
  "fst (Lookup (20 * minute) (snd (Bind 0 (NewManager (30 * minute)) ''s1'' ''us'' 0 ''worker-0'')) ''s2'') =
     fst (Lookup (20 * minute) (NewManager (30 * minute)) ''s2'') \<and>
   (\<exists>sn. fst (Lookup (20 * minute)
       (snd (Bind 0 (NewManager (30 * minute)) ''s1'' ''us'' 0 ''worker-0'')) ''s1'') = Some sn \<and>
     sn_WorkerID sn = ''worker-0'' \<and> sn_TTL sn = 30 * minute)"
proof -
  have "session_ok (NewManager (30 * minute))" by (simp add: session_ok_def NewManager_def minute_def second_def)
  moreover have "binding (NewManager (30 * minute)) 0 ''s1'' = None" by (simp add: binding_def NewManager_def)
  ultimately show ?thesis
    using Bind_then_Lookup [of "NewManager (30 * minute)" 0 "''s1''" "20 * minute" 0 "''us''" "''worker-0''"]
    by (auto simp: NewManager_def minute_def second_def)
qed

text \<open>
  Hits do not extend a session. However often and whenever a session is looked up, at a time
  when its TTL, counted from its creation, has run out it is found no more: the table refreshes
  \<open>lastUsed\<close> but measures age from \<open>createdAt\<close>.
\<close>

theorem Lookup_never_extends:
  assumes "mget (sessions m) sid = Some s" and "expired s t" and "\<forall>t' \<in> set ts. t' \<le> t"
  shows "fst (Lookup t (lookups m sid ts) sid) = None"
proof -
  have keeps: "binding (lookups m sid ts) t sid = binding m t sid" if "\<forall>t' \<in> set ts. t' \<le> t" for m ts
    using that by (induction ts arbitrary: m) (auto simp: binding_Lookup)
  have "binding m t sid = None" using assms(1,2) by (simp add: binding_def)
  with keeps [OF assms(3)] have "binding (lookups m sid ts) t sid = None" by simp
  then show ?thesis using Lookup_binding [of t "lookups m sid ts" sid] by simp
qed

theorem Lookup_never_extends_witness:
  "fst (Lookup (31 * minute)
     (lookups sample_sessions ''s1'' [10 * minute, 20 * minute, 29 * minute]) ''s1'') = None"
proof (rule Lookup_never_extends)
  show "mget (sessions sample_sessions) ''s1'' = Some (snd (hd (sessions sample_sessions)))"
    by (simp add: sample_sessions_eq mget_def)
  show "expired (snd (hd (sessions sample_sessions))) (31 * minute)"
    by (simp add: sample_sessions_eq expired_def time_sub_def sat64_def minute_def second_def)
qed (simp add: minute_def second_def)

text \<open>
  Removing a worker's sessions removes exactly those. Afterwards no session, live or expired,
  leads to that worker, and every other session is found as before.
\<close>

theorem RemoveByWorker_exact:
  assumes "session_ok m"
  shows "session_ok (RemoveByWorker m w) \<and>
    (\<forall>sid s. mget (sessions (RemoveByWorker m w)) sid = Some s \<longleftrightarrow>
       mget (sessions m) sid = Some s \<and> ss_workerID s \<noteq> w) \<and>
    ActiveSessionsForWorker now (RemoveByWorker m w) w = 0"
proof -
  have ok: "gomap_ok (sessions m)" using assms by (simp add: session_ok_def)
  note eq = sessions_RemoveByWorker [OF ok, of w]
  have "RemoveByWorker m w = m\<lparr>sessions := filter (\<lambda>p. ss_workerID (snd p) \<noteq> w) (sessions m)\<rparr>"
    using eq by (simp add: RemoveByWorker_def)
  then have "session_ok (RemoveByWorker m w)" using assms by (simp add: session_ok_filter)
  then show ?thesis using ok by (auto simp: eq ActiveSessions_eq mget_filter split: option.splits)
qed

theorem RemoveByWorker_exact_witness:
  "ActiveSessionsForWorker 0 sample_sessions ''worker-0'' = 1 \<and>
   ActiveSessionsForWorker 0 (RemoveByWorker sample_sessions ''worker-0'') ''worker-0'' = 0"
proof -
  have "ActiveSessionsForWorker 0 sample_sessions ''worker-0'' = 1"
    by (simp add: ActiveSessions_eq sample_sessions_eq expired_def time_sub_def sat64_def minute_def second_def)
  with RemoveByWorker_exact [OF sample_sessions_ok, of "''worker-0''" 0] show ?thesis by blast
qed

text \<open>
  C40: the periodic cleanup changes no answer. It removes exactly the expired sessions and counts
  them, and from then on every lookup and every count of active sessions gives what it would have
  given without it.
\<close>

theorem Cleanup_transparent:
  assumes "session_ok m" and "now \<le> t"
  shows "session_ok (snd (Cleanup now m)) \<and>
    fst (Cleanup now m) = int (length (sessions m)) - int (length (sessions (snd (Cleanup now m)))) \<and>
    (\<forall>(sid, s) \<in> set (sessions (snd (Cleanup now m))). \<not> expired s now) \<and>
    binding (snd (Cleanup now m)) t sid = binding m t sid \<and>
    ActiveSessionsForWorker t (snd (Cleanup now m)) w = ActiveSessionsForWorker t m w"
proof -
  have ok: "gomap_ok (sessions m)" using assms(1) by (simp add: session_ok_def)
  have len: "length (filter P xs) + length (filter (\<lambda>x. \<not> P x) xs) = length xs" for P and xs :: "(string \<times> stickySession) list"
    by (rule sum_length_filter_compl)
  have "binding (snd (Cleanup now m)) t sid = binding m t sid"
    using expired_mono [OF _ assms(2)]
    by (auto simp: Cleanup_eq [OF ok] binding_def mget_filter [OF ok] split: option.splits)
  moreover have "ActiveSessionsForWorker t (snd (Cleanup now m)) w = ActiveSessionsForWorker t m w"
    using expired_mono [OF _ assms(2)]
    by (auto simp: Cleanup_eq [OF ok] ActiveSessions_eq intro!: arg_cong [where f = length] filter_cong)
  ultimately show ?thesis
    using session_ok_filter [OF assms(1)] len [of "\<lambda>p. expired (snd p) now" "sessions m"]
    by (auto simp: Cleanup_eq [OF ok])
qed

theorem Cleanup_transparent_witness:
  "fst (Cleanup (31 * minute) sample_sessions) =
     1 - int (length (sessions (snd (Cleanup (31 * minute) sample_sessions)))) \<and>
   session_ok (snd (Cleanup (31 * minute) sample_sessions))"
  using Cleanup_transparent [OF sample_sessions_ok order_refl, of "31 * minute"]
  by (auto simp: sample_sessions_eq)

end
