(* ===== verification/Router.thy ===== *)
theory Router
  imports Parser Session
begin

text \<open>
  \<open>internal/router/router.go\<close>: which worker serves a request. The interface \<open>WorkerPool\<close> is the
  record \<open>worker_pool\<close> of its three methods over a pool state \<open>'p\<close>; the methods that only read
  return no new state. The router's own state is the pool, the session table and the 64-bit
  round-robin counter, whose \<open>Add\<close> wraps. The two readings of the clock, in \<open>Lookup\<close> and in
  \<open>Bind\<close>, are the arguments \<open>t1\<close> and \<open>t2\<close>.

  The locale \<open>worker_pool_contract\<close> is what the router relies on in a pool; the manager
  interprets it (theory \<open>Manager\<close>). What the router promises its callers is proved inside it.
\<close>

section \<open>Definitions\<close>

datatype worker_state =
    WorkerCreating
  | WorkerReady
  | WorkerIdle
  | WorkerClosing
  | WorkerAwaitingReplacement

text \<open>The constants are numbered by \<open>iota\<close>; Go compares the numbers.\<close>

fun iota :: "worker_state \<Rightarrow> nat" where
  "iota WorkerCreating = 0"
| "iota WorkerReady = 1"
| "iota WorkerIdle = 2"
| "iota WorkerClosing = 3"
| "iota WorkerAwaitingReplacement = 4"

instantiation worker_state :: linorder
begin

definition less_eq_worker_state :: "worker_state \<Rightarrow> worker_state \<Rightarrow> bool" where
  "less_eq_worker_state s t \<longleftrightarrow> iota s \<le> iota t"

definition less_worker_state :: "worker_state \<Rightarrow> worker_state \<Rightarrow> bool" where
  "less_worker_state s t \<longleftrightarrow> iota s < iota t"

instance
proof
  fix s t :: worker_state
  show "s \<le> t \<Longrightarrow> t \<le> s \<Longrightarrow> s = t"
    by (cases s; cases t) (simp_all add: less_eq_worker_state_def)
qed (auto simp: less_eq_worker_state_def less_worker_state_def)

end

record worker_info =
  wi_ID :: string
  wi_Country :: string
  wi_State :: worker_state

record 'p worker_pool =
  pool_GetReadyWorkers :: "'p \<Rightarrow> string \<Rightarrow> worker_info list"
  pool_GetRoutableWorkers :: "'p \<Rightarrow> string \<Rightarrow> worker_info list"
  pool_RequestWorker :: "'p \<Rightarrow> string \<Rightarrow> worker_info result \<times> 'p"

record 'p router =
  r_pool :: 'p
  r_session :: sessionManager
  r_roundRobin :: "64 word"

definition NewRouter :: "'p \<Rightarrow> sessionManager \<Rightarrow> 'p router" where
  "NewRouter pool sm = \<lparr>r_pool = pool, r_session = sm, r_roundRobin = 0\<rparr>"

definition findReady :: "'p worker_pool \<Rightarrow> 'p router \<Rightarrow> string \<Rightarrow> worker_info option" where
  "findReady V r workerID = find (\<lambda>w. wi_ID w = workerID) (pool_GetReadyWorkers V (r_pool r) [])"

definition selectOrCreate ::
  "'p worker_pool \<Rightarrow> string \<Rightarrow> 'p router \<Rightarrow> worker_info result \<times> 'p router" where
  "selectOrCreate V country r =
     (let workers = pool_GetRoutableWorkers V (r_pool r) country in
      if length workers > 0 then
        let workers = sort_slice wi_ID workers;
            rr = r_roundRobin r + 1;
            index = rr - 1
        in (Inr (workers ! unat (index mod of_nat (length workers))), r\<lparr>r_roundRobin := rr\<rparr>)
      else
        (case pool_RequestWorker V (r_pool r) country of
           (Inl e, p) \<Rightarrow> (Inl (Wrapf ''request worker for country'' [country] e), r\<lparr>r_pool := p\<rparr>)
         | (Inr w, p) \<Rightarrow> (Inr w, r\<lparr>r_pool := p\<rparr>)))"

definition bindNew ::
  "'p worker_pool \<Rightarrow> time \<Rightarrow> params \<Rightarrow> 'p router \<Rightarrow> worker_info result \<times> 'p router" where
  "bindNew V t2 ps r =
     (case selectOrCreate V (p_Country ps) r of
        (Inl e, r) \<Rightarrow> (Inl e, r)
      | (Inr w, r) \<Rightarrow>
          (Inr w, r\<lparr>r_session :=
             snd (Bind t2 (r_session r) (p_SessionID ps) (wi_Country w) (p_SessionTTL ps) (wi_ID w))\<rparr>))"

definition routeSticky ::
  "'p worker_pool \<Rightarrow> time \<Rightarrow> time \<Rightarrow> params \<Rightarrow> 'p router \<Rightarrow> worker_info result \<times> 'p router" where
  "routeSticky V t1 t2 ps r =
     (let (found, sm) = Lookup t1 (r_session r) (p_SessionID ps);
          r = r\<lparr>r_session := sm\<rparr>;
          removed = r\<lparr>r_session := Remove sm (p_SessionID ps)\<rparr>
      in case found of
           None \<Rightarrow> bindNew V t2 ps r
         | Some sn \<Rightarrow>
             (case findReady V r (sn_WorkerID sn) of
                None \<Rightarrow> bindNew V t2 ps removed
              | Some w \<Rightarrow>
                  if p_Country ps = [] \<or> wi_Country w = p_Country ps then (Inr w, r)
                  else bindNew V t2 ps removed))"

definition Route ::
  "'p worker_pool \<Rightarrow> time \<Rightarrow> time \<Rightarrow> params \<Rightarrow> 'p router \<Rightarrow> worker_info result \<times> 'p router" where
  "Route V t1 t2 ps r =
     (if IsSticky ps then routeSticky V t1 t2 ps r else selectOrCreate V (p_Country ps) r)"

text \<open>A run of requests that carry no session, for one country.\<close>

fun plain_routes :: "'p worker_pool \<Rightarrow> string \<Rightarrow> nat \<Rightarrow> 'p router \<Rightarrow> worker_info result list \<times> 'p router" where
  "plain_routes V country 0 r = ([], r)"
| "plain_routes V country (Suc n) r =
     (let (x, r) = selectOrCreate V country r; (xs, r) = plain_routes V country n r in (x # xs, r))"

text \<open>A run of requests, each with the time at which it is routed.\<close>

fun route_run :: "'p worker_pool \<Rightarrow> (time \<times> params) list \<Rightarrow> 'p router \<Rightarrow> worker_info result list \<times> 'p router" where
  "route_run V [] r = ([], r)"
| "route_run V ((t, ps) # rqs) r =
     (let (x, r) = Route V t t ps r; (xs, r) = route_run V rqs r in (x # xs, r))"

text \<open>The states a worker serves requests in.\<close>

definition serving :: "worker_state \<Rightarrow> bool" where
  "serving s \<longleftrightarrow> s \<in> {WorkerReady, WorkerIdle, WorkerAwaitingReplacement}"

definition country_ok :: "string \<Rightarrow> worker_info \<Rightarrow> bool" where
  "country_ok c w \<longleftrightarrow> c = [] \<or> wi_Country w = c"

text \<open>A pool of three workers that never changes, for evaluation.\<close>

definition sample_info :: "nat \<Rightarrow> worker_info" where
  "sample_info n = \<lparr>wi_ID = ''worker-'' @ itoa_nat n, wi_Country = ''us'', wi_State = WorkerReady\<rparr>"

definition fixed_pool :: "unit worker_pool" where
  "fixed_pool =
     \<lparr>pool_GetReadyWorkers = (\<lambda>p c. map sample_info [2, 0, 1]),
      pool_GetRoutableWorkers = (\<lambda>p c. map sample_info [2, 0, 1]),
      pool_RequestWorker = (\<lambda>p c. (Inl (Errorf ''no surfshark servers discovered'' []), p))\<rparr>"

section \<open>Round robin\<close>

lemma selectOrCreate_routable:
  assumes "pool_GetRoutableWorkers V (r_pool r) c \<noteq> []"
  shows "selectOrCreate V c r =
    (Inr (sort_slice wi_ID (pool_GetRoutableWorkers V (r_pool r) c) !
        unat (r_roundRobin r mod of_nat (length (pool_GetRoutableWorkers V (r_pool r) c)))),
     r\<lparr>r_roundRobin := r_roundRobin r + 1\<rparr>)"
  using assms by (simp add: selectOrCreate_def Let_def)

lemma word_mod_nat:
  assumes "0 < n" and "n < 2 ^ 64"
  shows "unat ((k :: 64 word) mod of_nat n) = unat k mod n"
proof -
  have "unat (of_nat n :: 64 word) = n" using assms(2) by (simp add: unat_of_nat)
  then show ?thesis by (simp add: unat_mod_distrib)
qed

lemma selectOrCreate_in:
  assumes "ws = pool_GetRoutableWorkers V (r_pool r) c" and "ws \<noteq> []" and "length ws < 2 ^ 64"
    and "selectOrCreate V c r = (Inr w, r')"
  shows "w \<in> set ws" and "r_pool r' = r_pool r" and "r_session r' = r_session r"
proof -
  have "unat (r_roundRobin r mod of_nat (length ws)) < length (sort_slice wi_ID ws)"
    using assms(2,3) by (simp add: word_mod_nat)
  then have "sort_slice wi_ID ws ! unat (r_roundRobin r mod of_nat (length ws)) \<in> set (sort_slice wi_ID ws)"
    by (rule nth_mem)
  then show "w \<in> set ws" and "r_pool r' = r_pool r" and "r_session r' = r_session r"
    using assms by (auto simp: selectOrCreate_routable)
qed

lemma plain_routes_eq:
  assumes "ws = pool_GetRoutableWorkers V (r_pool r) c" and "ws \<noteq> []" and "length ws < 2 ^ 64"
    and "unat (r_roundRobin r) + n < 2 ^ 64"
  shows "fst (plain_routes V c n r) =
    map (\<lambda>i. Inr (sort_slice wi_ID ws ! ((unat (r_roundRobin r) + i) mod length ws))) [0..<n]"
  using assms
proof (induction n arbitrary: r)
  case (Suc n)
  let ?r' = "r\<lparr>r_roundRobin := r_roundRobin r + 1\<rparr>"
  have next': "unat (r_roundRobin r + 1) = Suc (unat (r_roundRobin r))"
    using Suc.prems(4) by (simp add: unat_word_ariths)
  have "fst (plain_routes V c n ?r') =
      map (\<lambda>i. Inr (sort_slice wi_ID ws ! ((unat (r_roundRobin ?r') + i) mod length ws))) [0..<n]"
    using Suc.prems next' by (intro Suc.IH) auto
  moreover have "selectOrCreate V c r =
      (Inr (sort_slice wi_ID ws ! (unat (r_roundRobin r) mod length ws)), ?r')"
    using Suc.prems by (simp add: selectOrCreate_routable word_mod_nat)
  ultimately show ?case
    using next' by (simp add: upt_conv_Cons map_Suc_upt [symmetric] del: upt_Suc split: prod.split)
      (auto simp: o_def)
qed simp

lemma rotation_covers:
  assumes "0 < n"
  shows "bij_betw (\<lambda>i. (k + i) mod n) {0..<n} {0..<n :: nat}"
proof -
  have "inj_on (\<lambda>i. (k + i) mod n) {0..<n}"
  proof (rule linorder_inj_onI')
    fix i j assume "i < j" and "i \<in> {0..<n}" and "j \<in> {0..<n}"
    then have "\<not> n dvd (k + j) - (k + i)" by (auto dest: dvd_imp_le)
    with \<open>i < j\<close> show "(k + i) mod n \<noteq> (k + j) mod n" using mod_eq_dvd_iff_nat [of "k + i" "k + j" n] by auto
  qed
  moreover have "(\<lambda>i. (k + i) mod n) ` {0..<n} \<subseteq> {0..<n}" using assms by auto
  ultimately show ?thesis by (simp add: bij_betw_def endo_inj_surj)
qed

lemma rotation_mset:
  assumes "length ws = n"
  shows "mset (map (\<lambda>i. ws ! ((k + i) mod n)) [0..<n]) = mset ws"
proof (cases "n = 0")
  case True
  with assms show ?thesis by simp
next
  case False
  then have "image_mset (\<lambda>i. (k + i) mod n) (mset_set {0..<n}) = mset_set {0..<n}"
    using rotation_covers [of n k] by (simp add: bij_betw_def image_mset_mset_set)
  then have "image_mset (nth ws) (image_mset (\<lambda>i. (k + i) mod n) (mset_set {0..<n})) = image_mset (nth ws) (mset_set {0..<n})"
    by simp
  moreover have "image_mset (nth ws) (mset_set {0..<n}) = mset ws"
    using assms by (metis map_nth mset_map mset_upt)
  ultimately show ?thesis by (simp add: image_mset.compositionality o_def mset_upt)
qed

lemma binding_stays_None: "binding m now sid = None \<Longrightarrow> now \<le> t \<Longrightarrow> binding m t sid = None"
  by (auto simp: binding_def dest: expired_mono split: option.splits if_splits)

lemma select_session: "r_session (snd (selectOrCreate V c r)) = r_session r"
  by (auto simp: selectOrCreate_def Let_def split: prod.split sum.split)

text \<open>Routing changes the pool at most by asking it for one worker.\<close>

lemma Route_pool:
  assumes "Route V t1 t2 ps r = (x, r')"
  shows "r_pool r' = r_pool r \<or> (\<exists>y. pool_RequestWorker V (r_pool r) (p_Country ps) = (y, r_pool r'))"
proof -
  have select: "r_pool r' = r_pool r0 \<or> (\<exists>y. pool_RequestWorker V (r_pool r0) c = (y, r_pool r'))"
    if "selectOrCreate V c r0 = (x, r')" for c r0 x r'
    using that by (auto simp: selectOrCreate_def Let_def split: if_splits prod.splits sum.splits)
  have bind: "r_pool r' = r_pool r0 \<or> (\<exists>y. pool_RequestWorker V (r_pool r0) (p_Country ps) = (y, r_pool r'))"
    if b: "bindNew V t2 ps r0 = (x, r')" for r0
  proof -
    obtain y r1 where s: "selectOrCreate V (p_Country ps) r0 = (y, r1)" by (metis surj_pair)
    then have "r_pool r' = r_pool r1" using b by (auto simp: bindNew_def split: sum.splits)
    then show ?thesis using select [OF s] by simp
  qed
  show ?thesis
  proof (cases "IsSticky ps")
    case False
    then show ?thesis using assms select by (simp add: Route_def)
  next
    case True
    obtain sn sm where l: "Lookup t1 (r_session r) (p_SessionID ps) = (sn, sm)" by (metis surj_pair)
    have "(x, r') = (x, r\<lparr>r_session := sm\<rparr>) \<or> bindNew V t2 ps (r\<lparr>r_session := sm\<rparr>) = (x, r') \<or>
        bindNew V t2 ps (r\<lparr>r_session := Remove sm (p_SessionID ps)\<rparr>) = (x, r')"
      using assms True l by (auto simp: Route_def routeSticky_def Let_def split: option.splits if_splits)
    then show ?thesis using bind [of "r\<lparr>r_session := sm\<rparr>"] bind [of "r\<lparr>r_session := Remove sm (p_SessionID ps)\<rparr>"] by auto
  qed
qed

section \<open>What the router relies on in a pool, and what it promises\<close>

locale worker_pool_contract =
  fixes V :: "'p worker_pool" and inv :: "'p \<Rightarrow> bool"
  assumes ready_country: "inv p \<Longrightarrow>
      set (pool_GetReadyWorkers V p c) = {w \<in> set (pool_GetReadyWorkers V p []). country_ok c w}"
    and ready_serving: "inv p \<Longrightarrow> w \<in> set (pool_GetReadyWorkers V p []) \<Longrightarrow> serving (wi_State w)"
    and ready_ids: "inv p \<Longrightarrow> inj_on wi_ID (set (pool_GetReadyWorkers V p []))"
    and routable_ready: "inv p \<Longrightarrow> set (pool_GetRoutableWorkers V p c) \<subseteq> set (pool_GetReadyWorkers V p c)"
    and routable_nonempty: "inv p \<Longrightarrow> pool_GetReadyWorkers V p c \<noteq> [] \<Longrightarrow> pool_GetRoutableWorkers V p c \<noteq> []"
    and routable_few: "inv p \<Longrightarrow> length (pool_GetRoutableWorkers V p c) < 2 ^ 64"
    and request_ready: "inv p \<Longrightarrow> pool_RequestWorker V p c = (Inr w, p') \<Longrightarrow>
      w \<in> set (pool_GetReadyWorkers V p' c)"
    and request_keeps: "inv p \<Longrightarrow> pool_RequestWorker V p c = (x, p') \<Longrightarrow>
      set (pool_GetReadyWorkers V p []) \<subseteq> set (pool_GetReadyWorkers V p' [])"
    and request_inv: "inv p \<Longrightarrow> pool_RequestWorker V p c = (x, p') \<Longrightarrow> inv p'"
begin

lemma find_ready:
  assumes "inv (r_pool r)"
  shows "findReady V r i = Some w \<longleftrightarrow> w \<in> set (pool_GetReadyWorkers V (r_pool r) []) \<and> wi_ID w = i"
proof
  assume "findReady V r i = Some w"
  then show "w \<in> set (pool_GetReadyWorkers V (r_pool r) []) \<and> wi_ID w = i"
    by (auto simp: findReady_def find_Some_iff)
next
  assume w: "w \<in> set (pool_GetReadyWorkers V (r_pool r) []) \<and> wi_ID w = i"
  then obtain w' where w': "findReady V r i = Some w'"
    unfolding findReady_def by (cases "find (\<lambda>w. wi_ID w = i) (pool_GetReadyWorkers V (r_pool r) [])")
      (auto simp: find_None_iff)
  then have "w' \<in> set (pool_GetReadyWorkers V (r_pool r) [])" "wi_ID w' = i"
    by (auto simp: findReady_def find_Some_iff)
  with w have "w' = w" using ready_ids [OF assms] by (auto simp: inj_on_def)
  with w' show "findReady V r i = Some w" by simp
qed

lemma select_sound:
  assumes "inv (r_pool r)" and "selectOrCreate V c r = (Inr w, r')"
  shows "w \<in> set (pool_GetReadyWorkers V (r_pool r') c)"
    and "inv (r_pool r')" and "r_session r' = r_session r"
    and "set (pool_GetReadyWorkers V (r_pool r) []) \<subseteq> set (pool_GetReadyWorkers V (r_pool r') [])"
proof -
  let ?ws = "pool_GetRoutableWorkers V (r_pool r) c"
  have "w \<in> set (pool_GetReadyWorkers V (r_pool r') c) \<and> inv (r_pool r') \<and> r_session r' = r_session r \<and>
    set (pool_GetReadyWorkers V (r_pool r) []) \<subseteq> set (pool_GetReadyWorkers V (r_pool r') [])"
  proof (cases "?ws = []")
    case True
    with assms(2) obtain p where "pool_RequestWorker V (r_pool r) c = (Inr w, p)" "r' = r\<lparr>r_pool := p\<rparr>"
      by (auto simp: selectOrCreate_def split: prod.splits sum.splits)
    then show ?thesis using assms(1) request_ready request_inv request_keeps by auto
  next
    case False
    with selectOrCreate_in [OF refl False routable_few assms(2)] assms(1) routable_ready
    show ?thesis by auto
  qed
  then show "w \<in> set (pool_GetReadyWorkers V (r_pool r') c)"
    and "inv (r_pool r')" and "r_session r' = r_session r"
    and "set (pool_GetReadyWorkers V (r_pool r) []) \<subseteq> set (pool_GetReadyWorkers V (r_pool r') [])"
    by simp_all
qed

lemma select_error:
  assumes "inv (r_pool r)" and "selectOrCreate V c r = (Inl e, r')"
  shows "pool_GetReadyWorkers V (r_pool r) c = []"
    and "\<exists>e'. pool_RequestWorker V (r_pool r) c = (Inl e', r_pool r') \<and>
      e = Wrapf ''request worker for country'' [c] e'"
    and "r_session r' = r_session r" and "inv (r_pool r')"
proof -
  have empty: "pool_GetRoutableWorkers V (r_pool r) c = []"
    using assms(2) by (auto simp: selectOrCreate_def Let_def split: if_splits)
  then show "pool_GetReadyWorkers V (r_pool r) c = []" using assms(1) routable_nonempty by blast
  from empty assms(2) obtain p e' where "pool_RequestWorker V (r_pool r) c = (Inl e', p)"
    and "r' = r\<lparr>r_pool := p\<rparr>" and "e = Wrapf ''request worker for country'' [c] e'"
    by (auto simp: selectOrCreate_def split: prod.splits sum.splits)
  then show "\<exists>e'. pool_RequestWorker V (r_pool r) c = (Inl e', r_pool r') \<and>
      e = Wrapf ''request worker for country'' [c] e'"
    and "r_session r' = r_session r" and "inv (r_pool r')"
    using assms(1) request_inv by auto
qed

text \<open>A sticky request either hits its live session or binds a worker with no session in the way.\<close>

lemma sticky_split:
  assumes "inv (r_pool r)" and "session_ok (r_session r)"
  obtains (hit) w i where "binding (r_session r) t1 (p_SessionID ps) = Some i"
      and "w \<in> set (pool_GetReadyWorkers V (r_pool r) [])" and "wi_ID w = i" and "country_ok (p_Country ps) w"
      and "routeSticky V t1 t2 ps r =
        (Inr w, r\<lparr>r_session := snd (Lookup t1 (r_session r) (p_SessionID ps))\<rparr>)"
  | (miss) r1 where "routeSticky V t1 t2 ps r = bindNew V t2 ps r1" and "r_pool r1 = r_pool r"
      and "session_ok (r_session r1)"
      and "\<And>t. t1 \<le> t \<Longrightarrow> binding (r_session r1) t (p_SessionID ps) = None"
      and "\<And>t sid. t1 \<le> t \<Longrightarrow> sid \<noteq> p_SessionID ps \<Longrightarrow>
        binding (r_session r1) t sid = binding (r_session r) t sid"
      and "\<And>i w. binding (r_session r) t1 (p_SessionID ps) = Some i \<Longrightarrow>
        w \<in> set (pool_GetReadyWorkers V (r_pool r) []) \<Longrightarrow> wi_ID w = i \<Longrightarrow> \<not> country_ok (p_Country ps) w"
proof -
  let ?sid = "p_SessionID ps" and ?m = "r_session r"
  obtain found sm where l: "Lookup t1 ?m ?sid = (found, sm)" by (cases "Lookup t1 ?m ?sid")
  let ?r0 = "r\<lparr>r_session := sm\<rparr>" and ?r1 = "r\<lparr>r_session := Remove sm ?sid\<rparr>"
  have ok: "session_ok sm" "session_ok (Remove sm ?sid)"
    using sess.inv_lookup [OF assms(2), of t1 ?sid] sess.inv_remove l by auto
  have b: "binding sm t sid = binding ?m t sid" if "t1 \<le> t" for t sid
    using sess.lookup_keeps [OF assms(2) that, of ?sid sid] l by simp
  have found: "map_option sn_WorkerID found = binding ?m t1 ?sid"
    using Lookup_binding [of t1 ?m ?sid] l by simp
  have gone: "binding (Remove sm ?sid) t sid = (if sid = ?sid then None else binding ?m t sid)" if "t1 \<le> t" for t sid
    using that b by (simp add: Remove_binding)
  show thesis
  proof (cases found)
    case None
    then have "binding ?m t1 ?sid = None" using found by simp
    then have "binding ?m t ?sid = None" if "t1 \<le> t" for t using that by (rule binding_stays_None)
    moreover have "routeSticky V t1 t2 ps r = bindNew V t2 ps ?r0" using l None by (simp add: routeSticky_def)
    ultimately show thesis using miss [of ?r0] ok(1) b \<open>binding ?m t1 ?sid = None\<close> by auto
  next
    case (Some sn)
    then have bound: "binding ?m t1 ?sid = Some (sn_WorkerID sn)" using found by simp
    show thesis
    proof (cases "\<exists>w. findReady V ?r0 (sn_WorkerID sn) = Some w \<and> country_ok (p_Country ps) w")
      case True
      then obtain w where w: "findReady V ?r0 (sn_WorkerID sn) = Some w" "country_ok (p_Country ps) w" by blast
      then have "w \<in> set (pool_GetReadyWorkers V (r_pool r) [])" "wi_ID w = sn_WorkerID sn"
        using find_ready [of ?r0] assms(1) by auto
      then show thesis
        using hit [of "sn_WorkerID sn" w] bound w l Some by (auto simp: routeSticky_def country_ok_def)
    next
      case False
      then have "routeSticky V t1 t2 ps r = bindNew V t2 ps ?r1"
        using l Some by (auto simp: routeSticky_def country_ok_def Let_def split: option.split)
      moreover have "\<not> country_ok (p_Country ps) w"
        if "w \<in> set (pool_GetReadyWorkers V (r_pool r) [])" "wi_ID w = sn_WorkerID sn" for w
        using False find_ready [of ?r0 "sn_WorkerID sn" w] assms(1) that by auto
      ultimately show thesis using miss [of ?r1] ok(2) gone bound by auto
    qed
  qed
qed

text \<open>Every successful route ends at a serving worker of the requested country.\<close>

lemma route_sound:
  assumes "inv (r_pool r)" and "session_ok (r_session r)" and "Route V t1 t2 ps r = (Inr w, r')"
  shows "w \<in> set (pool_GetReadyWorkers V (r_pool r') [])" and "country_ok (p_Country ps) w"
    and "serving (wi_State w)" and "inv (r_pool r')" and "session_ok (r_session r')"
proof -
  have "w \<in> set (pool_GetReadyWorkers V (r_pool r') []) \<and> country_ok (p_Country ps) w \<and>
    inv (r_pool r') \<and> session_ok (r_session r')"
  proof (cases "IsSticky ps")
    case False
    then have s: "selectOrCreate V (p_Country ps) r = (Inr w, r')" using assms(3) by (simp add: Route_def)
    from select_sound [OF assms(1) s] assms(2) ready_country [of "r_pool r'" "p_Country ps"]
    show ?thesis by auto
  next
    case True
    then have s: "routeSticky V t1 t2 ps r = (Inr w, r')" using assms(3) by (simp add: Route_def)
    from assms(1,2) show ?thesis
    proof (cases rule: sticky_split [of r t1 ps t2])
      case (hit w0 i)
      with s assms show ?thesis by (auto intro: session_ok_Lookup)
    next
      case (miss r1)
      from s miss(1) obtain r2 where s: "selectOrCreate V (p_Country ps) r1 = (Inr w, r2)"
        and r': "r' = r2\<lparr>r_session := snd (Bind t2 (r_session r2) (p_SessionID ps) (wi_Country w) (p_SessionTTL ps) (wi_ID w))\<rparr>"
        by (auto simp: bindNew_def split: prod.splits sum.splits)
      have i1: "inv (r_pool r1)" using assms(1) miss(2) by simp
      from select_sound [OF i1 s] miss(3) r' ready_country [of "r_pool r2" "p_Country ps"]
      show ?thesis by (auto intro: session_ok_Bind)
    qed
  qed
  then show "w \<in> set (pool_GetReadyWorkers V (r_pool r') [])" "country_ok (p_Country ps) w"
    "inv (r_pool r')" "session_ok (r_session r')" by simp_all
  then show "serving (wi_State w)" using ready_serving by blast
qed

lemma route_binds:
  assumes "inv (r_pool r)" and "session_ok (r_session r)" and "IsSticky ps"
    and "Route V t t ps r = (Inr w, r')"
  shows "binding (r_session r') t (p_SessionID ps) = Some (wi_ID w)"
    and "\<And>t' sid. t \<le> t' \<Longrightarrow> sid \<noteq> p_SessionID ps \<Longrightarrow> binding (r_session r') t' sid = binding (r_session r) t' sid"
proof -
  have s: "routeSticky V t t ps r = (Inr w, r')" using assms(3,4) by (simp add: Route_def)
  have "binding (r_session r') t (p_SessionID ps) = Some (wi_ID w) \<and>
    (\<forall>t' sid. t \<le> t' \<longrightarrow> sid \<noteq> p_SessionID ps \<longrightarrow> binding (r_session r') t' sid = binding (r_session r) t' sid)"
    using assms(1,2)
  proof (cases rule: sticky_split [of r t ps t])
    case (hit w0 i)
    with s show ?thesis by (auto simp: binding_Lookup)
  next
    case (miss r1)
    from s miss(1) obtain r2 where s: "selectOrCreate V (p_Country ps) r1 = (Inr w, r2)"
      and r': "r' = r2\<lparr>r_session := snd (Bind t (r_session r2) (p_SessionID ps) (wi_Country w) (p_SessionTTL ps) (wi_ID w))\<rparr>"
      by (auto simp: bindNew_def split: prod.splits sum.splits)
    have i1: "inv (r_pool r1)" using assms(1) miss(2) by simp
    have "r_session r2 = r_session r1" by (rule select_sound(3) [OF i1 s])
    with r' miss(3-5) show ?thesis by (auto simp: Bind_binding Bind_other)
  qed
  then show "binding (r_session r') t (p_SessionID ps) = Some (wi_ID w)"
    and "\<And>t' sid. t \<le> t' \<Longrightarrow> sid \<noteq> p_SessionID ps \<Longrightarrow> binding (r_session r') t' sid = binding (r_session r) t' sid"
    by simp_all
qed

text \<open>Whatever comes of a request, the workers that serve go on serving and no other session changes.\<close>

lemma route_any:
  assumes "inv (r_pool r)" and "session_ok (r_session r)" and "Route V t1 t2 ps r = (x, r')"
  shows "inv (r_pool r')" and "session_ok (r_session r')"
    and "set (pool_GetReadyWorkers V (r_pool r) []) \<subseteq> set (pool_GetReadyWorkers V (r_pool r') [])"
    and "t1 \<le> t \<Longrightarrow> \<not> IsSticky ps \<or> sid \<noteq> p_SessionID ps \<Longrightarrow>
      binding (r_session r') t sid = binding (r_session r) t sid"
proof -
  show "inv (r_pool r')" and "set (pool_GetReadyWorkers V (r_pool r) []) \<subseteq> set (pool_GetReadyWorkers V (r_pool r') [])"
    using Route_pool [OF assms(3)] assms(1) request_inv request_keeps by (metis, metis subset_refl)
  have "session_ok (r_session r') \<and>
    (t1 \<le> t \<longrightarrow> \<not> IsSticky ps \<or> sid \<noteq> p_SessionID ps \<longrightarrow> binding (r_session r') t sid = binding (r_session r) t sid)"
  proof (cases "IsSticky ps")
    case False
    then show ?thesis using assms(2,3) select_session [of V "p_Country ps" r] by (simp add: Route_def)
  next
    case True
    then have s: "routeSticky V t1 t2 ps r = (x, r')" using assms(3) by (simp add: Route_def)
    from assms(1,2) show ?thesis
    proof (cases rule: sticky_split [of r t1 ps t2])
      case (hit w i)
      with s assms(2) True show ?thesis by (auto simp: binding_Lookup intro: session_ok_Lookup)
    next
      case (miss r1)
      obtain y r2 where y: "selectOrCreate V (p_Country ps) r1 = (y, r2)" by (metis surj_pair)
      then have "r_session r2 = r_session r1" using select_session [of V "p_Country ps" r1] by simp
      with y s miss True show ?thesis by (cases y) (auto simp: bindNew_def Bind_other intro: session_ok_Bind)
    qed
  qed
  then show "session_ok (r_session r')" and "t1 \<le> t \<Longrightarrow> \<not> IsSticky ps \<or> sid \<noteq> p_SessionID ps \<Longrightarrow>
      binding (r_session r') t sid = binding (r_session r) t sid" by simp_all
qed

text \<open>While the session is live and its worker serves, the session stays with the worker.\<close>

lemma route_sticks:
  assumes "inv (r_pool r)" and "session_ok (r_session r)" and "IsSticky ps"
    and "binding (r_session r) t1 (p_SessionID ps) = Some (wi_ID w)"
    and "w \<in> set (pool_GetReadyWorkers V (r_pool r) [])" and "country_ok (p_Country ps) w"
  shows "Route V t1 t2 ps r = (Inr w, r\<lparr>r_session := snd (Lookup t1 (r_session r) (p_SessionID ps))\<rparr>)"
  using assms(1,2)
proof (cases rule: sticky_split [of r t1 ps t2])
  case (hit w0 i)
  then have "w0 = w" using assms(4,5) ready_ids [OF assms(1)] by (auto simp: inj_on_def)
  with hit assms(3) show ?thesis by (simp add: Route_def)
next
  case (miss r1)
  with assms(4-6) show ?thesis by blast
qed

text \<open>Over any run of requests, those of a live session all go to its worker.\<close>

lemma run_affinity:
  assumes "inv (r_pool r)" and "session_ok (r_session r)"
    and "w \<in> set (pool_GetReadyWorkers V (r_pool r) [])" and "sid \<noteq> []"
    and "\<forall>(t, ps) \<in> set rqs. binding (r_session r) t sid = Some (wi_ID w) \<and>
      (p_SessionID ps = sid \<longrightarrow> country_ok (p_Country ps) w)"
    and "sorted (map fst rqs)" and "i < length rqs" and "p_SessionID (snd (rqs ! i)) = sid"
  shows "fst (route_run V rqs r) ! i = Inr w"
  using assms
proof (induction rqs arbitrary: r i)
  case (Cons rq rqs)
  obtain t ps where rq: "rq = (t, ps)" by (cases rq)
  obtain x r1 where x: "Route V t t ps r = (x, r1)" by (metis surj_pair)
  note any = route_any [OF Cons.prems(1,2) x]
  have now: "binding (r_session r) t sid = Some (wi_ID w)" "p_SessionID ps = sid \<longrightarrow> country_ok (p_Country ps) w"
    using Cons.prems(5) rq by auto
  have hit: "x = Inr w \<and> (\<forall>u \<ge> t. binding (r_session r1) u sid = binding (r_session r) u sid)" if "p_SessionID ps = sid"
    using route_sticks [OF Cons.prems(1,2), of ps t w t] that now Cons.prems(3,4) x
    by (auto simp: IsSticky_def binding_Lookup)
  have same: "binding (r_session r1) u sid = binding (r_session r) u sid" if "t \<le> u" for u
    using hit any(4) [of u sid] that by (cases "p_SessionID ps = sid") auto
  show ?case
  proof (cases i)
    case 0
    then show ?thesis using hit Cons.prems(8) rq x by (simp split: prod.split)
  next
    case (Suc j)
    have "fst (route_run V rqs r1) ! j = Inr w"
    proof (rule Cons.IH [OF any(1,2)])
      show "\<forall>(t, ps) \<in> set rqs. binding (r_session r1) t sid = Some (wi_ID w) \<and>
          (p_SessionID ps = sid \<longrightarrow> country_ok (p_Country ps) w)"
        using Cons.prems(5,6) rq same by fastforce
    qed (use any(3) Cons.prems Suc in auto)
    then show ?thesis using rq x Suc by (auto split: prod.split)
  qed
qed simp

text \<open>A route fails only when nothing of the country serves and the pool could not create any.\<close>

lemma route_error:
  assumes "inv (r_pool r)" and "session_ok (r_session r)" and "Route V t1 t2 ps r = (Inl e, r')"
  shows "pool_GetReadyWorkers V (r_pool r) (p_Country ps) = []"
    and "\<exists>e'. pool_RequestWorker V (r_pool r) (p_Country ps) = (Inl e', r_pool r') \<and>
      e = Wrapf ''request worker for country'' [p_Country ps] e'"
    and "IsSticky ps \<Longrightarrow> t1 \<le> t \<Longrightarrow> binding (r_session r') t (p_SessionID ps) = None"
proof -
  have "\<exists>r1. selectOrCreate V (p_Country ps) r1 = (Inl e, r') \<and> r_pool r1 = r_pool r \<and>
      (IsSticky ps \<longrightarrow> t1 \<le> t \<longrightarrow> binding (r_session r1) t (p_SessionID ps) = None)"
  proof (cases "IsSticky ps")
    case False
    then show ?thesis using assms(3) by (auto simp: Route_def)
  next
    case True
    then have s: "routeSticky V t1 t2 ps r = (Inl e, r')" using assms(3) by (simp add: Route_def)
    from assms(1,2) show ?thesis
    proof (cases rule: sticky_split [of r t1 ps t2])
      case (hit w0 i)
      with s show ?thesis by simp
    next
      case (miss r1)
      with s show ?thesis by (auto simp: bindNew_def split: prod.splits sum.splits)
    qed
  qed
  then obtain r1 where s: "selectOrCreate V (p_Country ps) r1 = (Inl e, r')" and p: "r_pool r1 = r_pool r"
    and b: "IsSticky ps \<Longrightarrow> t1 \<le> t \<Longrightarrow> binding (r_session r1) t (p_SessionID ps) = None" by blast
  have i1: "inv (r_pool r1)" using assms(1) p by simp
  from select_error [OF i1 s] p b show "pool_GetReadyWorkers V (r_pool r) (p_Country ps) = []"
    and "\<exists>e'. pool_RequestWorker V (r_pool r) (p_Country ps) = (Inl e', r_pool r') \<and>
      e = Wrapf ''request worker for country'' [p_Country ps] e'"
    and "IsSticky ps \<Longrightarrow> t1 \<le> t \<Longrightarrow> binding (r_session r') t (p_SessionID ps) = None" by auto
qed

end

section \<open>Properties\<close>

text \<open>
  C30: round robin is fair. While the routable set stays the same and the 64-bit counter does not
  wrap, any run of consecutive requests as long as the set uses every routable worker exactly
  once, whatever order the pool lists them in.
\<close>

theorem round_robin_fair:
  assumes "ws = pool_GetRoutableWorkers V (r_pool r) c" and "ws \<noteq> []" and "length ws < 2 ^ 64"
    and "unat (r_roundRobin r) + length ws < 2 ^ 64"
  shows "mset (fst (plain_routes V c (length ws) r)) = image_mset Inr (mset ws)"
proof -
  let ?s = "sort_slice wi_ID ws"
  have "mset (map (\<lambda>i. ?s ! ((unat (r_roundRobin r) + i) mod length ws)) [0..<length ws]) = mset ?s"
    by (rule rotation_mset) simp
  then have "image_mset Inr (mset (map (\<lambda>i. ?s ! ((unat (r_roundRobin r) + i) mod length ws)) [0..<length ws])) =
      image_mset Inr (mset ws)" by simp
  then show ?thesis by (simp add: plain_routes_eq [OF assms] image_mset.compositionality o_def)
qed

theorem round_robin_fair_witness:
  "mset (fst (plain_routes fixed_pool ''us'' 3 (NewRouter () (NewManager minute)))) =
   {#Inr (sample_info 0), Inr (sample_info 1), Inr (sample_info 2)#}"
proof -
  let ?r = "NewRouter () (NewManager minute)"
  have "map sample_info [2, 0, 1] = pool_GetRoutableWorkers fixed_pool (r_pool ?r) ''us''"
    by (simp add: fixed_pool_def)
  from round_robin_fair [OF this]
  have "mset (fst (plain_routes fixed_pool ''us'' (length (map sample_info [2, 0, 1])) ?r)) =
      image_mset Inr (mset (map sample_info [2, 0, 1]))" by (simp add: NewRouter_def)
  then show ?thesis by (simp add: add_mset_commute numeral_3_eq_3 del: plain_routes.simps)
qed

end
