(* ===== verification/Discovery.thy ===== *)
theory Discovery
  imports Go_Base
begin

text \<open>
  \<open>internal/discovery/discovery.go\<close>: the \<open>.ovpn\<close> files of a directory, grouped by country.
  Reading the directory is the operating system's: \<open>Scan\<close> takes the function that does it and
  its result, an error or the list of entries.
\<close>

section \<open>Definitions\<close>

record server =
  s_Country :: string
  s_Name :: string
  s_OvpnPath :: string

record dir_entry =
  e_Name :: string
  e_IsDir :: bool

type_synonym server_map = "(string, server list) gomap"

subsection \<open>File names and directories\<close>

definition parseFilename :: "string \<Rightarrow> string \<times> string" where
  "parseFilename filename =
     (if \<not> go_HasSuffix filename ''.ovpn'' then ([], [])
      else
        let dotIndex = go_Index filename ''.'' in
        if dotIndex \<le> 0 then ([], [])
        else
          let srv = take (nat dotIndex) filename; dashIndex = go_Index srv ''-'' in
          if dashIndex \<le> 0 then ([], [])
          else (go_ToLower (take (nat dashIndex) srv), srv))"

definition scan_entry :: "string \<Rightarrow> server_map \<Rightarrow> dir_entry \<Rightarrow> server_map" where
  "scan_entry dir servers entry =
     (if e_IsDir entry \<or> \<not> go_HasSuffix (e_Name entry) ''.ovpn'' then servers
      else
        let (country, name) = parseFilename (e_Name entry) in
        if country = [] \<or> name = [] then servers
        else
          mput servers country
            ((case mget servers country of None \<Rightarrow> [] | Some g \<Rightarrow> g) @
             [\<lparr>s_Country = country, s_Name = name,
               s_OvpnPath = filepath_Join dir (e_Name entry)\<rparr>]))"

definition Scan :: "(string \<Rightarrow> dir_entry list result) \<Rightarrow> string \<Rightarrow> server_map result" where
  "Scan readDir dir =
     (case readDir dir of
        Inl e \<Rightarrow> Inl (Wrapf ''read ovpn dir'' [dir] e)
      | Inr entries \<Rightarrow>
          Inr (map (\<lambda>(country, g). (country, sort_slice s_Name g))
                 (foldl (scan_entry dir) [] entries)))"

subsection \<open>What a directory should yield\<close>

text \<open>The server an entry stands for, if it is a server file.\<close>

definition entry_server :: "string \<Rightarrow> dir_entry \<Rightarrow> server option" where
  "entry_server dir entry =
     (let (country, name) = parseFilename (e_Name entry) in
      if e_IsDir entry \<or> country = [] then None
      else Some \<lparr>s_Country = country, s_Name = name,
                 s_OvpnPath = filepath_Join dir (e_Name entry)\<rparr>)"

definition all_servers :: "server_map \<Rightarrow> server list" where
  "all_servers m = concat (map snd m)"

definition group_ok :: "string \<times> server list \<Rightarrow> bool" where
  "group_ok p \<longleftrightarrow> snd p \<noteq> [] \<and> fst p \<noteq> [] \<and> (\<forall>s \<in> set (snd p). s_Country s = fst p)"

definition groups_ok :: "server_map \<Rightarrow> bool" where
  "groups_ok m \<longleftrightarrow> gomap_ok m \<and> (\<forall>p \<in> set m. group_ok p)"

definition country_group :: "server_map \<Rightarrow> string \<Rightarrow> server list" where
  "country_group m c = (case mget m c of None \<Rightarrow> [] | Some g \<Rightarrow> g)"

text \<open>A directory to evaluate: two files of one country, one of another, a text file.\<close>

definition sample_dir :: "dir_entry list" where
  "sample_dir = map (\<lambda>n. \<lparr>e_Name = n, e_IsDir = False\<rparr>)
     [''us-nyc.prod.ovpn'', ''us-dal.prod.ovpn'', ''JP-tok.ovpn'', ''readme.txt'']"

section \<open>File names\<close>

lemma parseFilename_shape:
  assumes "parseFilename f = (country, name)" and "country \<noteq> []"
  shows "go_HasSuffix f ''.ovpn''"
    and "name = take (nat (go_Index f ''.'')) f" and "0 < go_Index f ''.''"
    and "country = go_ToLower (take (nat (go_Index name ''-'')) name)" and "0 < go_Index name ''-''"
    and "name \<noteq> []"
proof -
  show "go_HasSuffix f ''.ovpn''" and n: "name = take (nat (go_Index f ''.'')) f"
    and "0 < go_Index f ''.''"
    and c: "country = go_ToLower (take (nat (go_Index name ''-'')) name)"
    and "0 < go_Index name ''-''"
    using assms by (auto simp: parseFilename_def Let_def split: if_splits)
  show "name \<noteq> []" using assms(2) c by auto
qed

section \<open>Scanning\<close>

lemma all_servers_mput:
  assumes "gomap_ok m"
  shows "mset (all_servers (mput m c (country_group m c @ [s]))) = add_mset s (mset (all_servers m))"
  using assms
proof (induction m)
  case Nil
  then show ?case by (simp add: all_servers_def mput_def country_group_def)
next
  case (Cons p m)
  then show ?case
    by (cases p) (auto simp: all_servers_def mput_def country_group_def mget_def gomap_ok_def)
qed

lemma scan_entry_skip: "entry_server dir e = None \<Longrightarrow> scan_entry dir m e = m"
  by (auto simp: entry_server_def scan_entry_def Let_def split: prod.splits if_splits)

lemma scan_entry_add:
  assumes "entry_server dir e = Some s"
  shows "scan_entry dir m e = mput m (s_Country s) (country_group m (s_Country s) @ [s])"
    and "s_Country s \<noteq> []"
proof -
  obtain c n where p: "parseFilename (e_Name e) = (c, n)" by (cases "parseFilename (e_Name e)")
  with assms have "c \<noteq> []" "\<not> e_IsDir e"
    and s: "s = \<lparr>s_Country = c, s_Name = n, s_OvpnPath = filepath_Join dir (e_Name e)\<rparr>"
    by (auto simp: entry_server_def split: if_splits)
  with p parseFilename_shape(1,6) [OF p] show "scan_entry dir m e = mput m (s_Country s) (country_group m (s_Country s) @ [s])"
    by (simp add: scan_entry_def country_group_def)
  show "s_Country s \<noteq> []" using s \<open>c \<noteq> []\<close> by simp
qed

lemma groups_ok_mput:
  assumes "groups_ok m" and "s_Country s \<noteq> []"
  shows "groups_ok (mput m (s_Country s) (country_group m (s_Country s) @ [s]))"
proof -
  have "s_Country x = s_Country s" if x: "x \<in> set (country_group m (s_Country s))" for x
  proof -
    obtain g where "mget m (s_Country s) = Some g" "x \<in> set g"
      using x by (cases "mget m (s_Country s)") (auto simp: country_group_def)
    then have "(s_Country s, g) \<in> set m" by (auto dest: mget_in_set)
    with assms(1) \<open>x \<in> set g\<close> show ?thesis by (force simp: groups_ok_def group_ok_def)
  qed
  then have "group_ok (s_Country s, country_group m (s_Country s) @ [s])"
    using assms(2) by (auto simp: group_ok_def)
  with assms(1) show ?thesis
    unfolding groups_ok_def using set_mput_subset [of m] by (auto dest!: subsetD)
qed

lemma scan_entry_step:
  assumes "groups_ok m"
  shows "groups_ok (scan_entry dir m e) \<and>
    mset (all_servers (scan_entry dir m e)) =
    mset (all_servers m) + mset (case entry_server dir e of None \<Rightarrow> [] | Some s \<Rightarrow> [s])"
proof (cases "entry_server dir e")
  case None
  with assms show ?thesis by (simp add: scan_entry_skip)
next
  case (Some s)
  have "gomap_ok m" using assms by (simp add: groups_ok_def)
  with Some assms show ?thesis
    by (simp add: scan_entry_add groups_ok_mput all_servers_mput)
qed

lemma scan_entries:
  assumes "groups_ok m"
  shows "groups_ok (foldl (scan_entry dir) m es) \<and>
    mset (all_servers (foldl (scan_entry dir) m es)) =
    mset (all_servers m) + mset (List.map_filter (entry_server dir) es)"
  using assms
proof (induction es arbitrary: m)
  case (Cons e es)
  then show ?case
    using scan_entry_step [OF Cons.prems, of dir e]
    by (auto simp: map_filter_simps split: option.splits)
qed (simp add: map_filter_simps)

lemma groups_ok_sorted:
  assumes "groups_ok m"
  shows "groups_ok (map (\<lambda>(c, g). (c, sort_slice s_Name g)) m)"
proof -
  have "map fst (map (\<lambda>(c, g). (c, sort_slice s_Name g)) m) = map fst m" by auto
  then have "gomap_ok (map (\<lambda>(c, g). (c, sort_slice s_Name g)) m)"
    using assms unfolding groups_ok_def gomap_ok_def by metis
  moreover have "group_ok (c, sort_slice s_Name g)" if "(c, g) \<in> set m" for c g
    using assms that by (force simp: groups_ok_def group_ok_def)
  ultimately show ?thesis by (auto simp: groups_ok_def)
qed

lemma all_servers_sorted:
  "mset (all_servers (map (\<lambda>(c, g). (c, sort_slice s_Name g)) m)) = mset (all_servers m)"
  by (induction m) (auto simp: all_servers_def)

lemma Scan_Inr:
  assumes "Scan readDir dir = Inr m"
  obtains entries where "readDir dir = Inr entries"
    and "m = map (\<lambda>(c, g). (c, sort_slice s_Name g)) (foldl (scan_entry dir) [] entries)"
  using assms by (auto simp: Scan_def split: sum.splits)

lemma groups_ok_empty: "groups_ok []" and all_servers_empty: "all_servers [] = []"
  by (simp_all add: groups_ok_def all_servers_def)

section \<open>Properties\<close>

text \<open>
  C39: a scan loses nothing and invents nothing. The servers of the result, over all countries, are
  exactly (with multiplicity) those of the directory's server files, and every error of reading
  the directory is reported.
\<close>

theorem Scan_complete:
  "case Scan readDir dir of
     Inl e \<Rightarrow> (\<exists>e'. readDir dir = Inl e' \<and> e = Wrapf ''read ovpn dir'' [dir] e')
   | Inr m \<Rightarrow> (\<exists>entries. readDir dir = Inr entries \<and>
       mset (all_servers m) = mset (List.map_filter (entry_server dir) entries))"
proof (cases "Scan readDir dir")
  case (Inl e)
  then show ?thesis by (auto simp: Scan_def split: sum.splits)
next
  case (Inr m)
  then obtain entries where e: "readDir dir = Inr entries"
    and m: "m = map (\<lambda>(c, g). (c, sort_slice s_Name g)) (foldl (scan_entry dir) [] entries)"
    by (rule Scan_Inr)
  have "mset (all_servers m) = mset (List.map_filter (entry_server dir) entries)"
    using scan_entries [OF groups_ok_empty, of dir entries] unfolding m
    by (simp add: all_servers_sorted all_servers_empty)
  with Inr e show ?thesis by simp
qed

text \<open>
  The groups of a scan are well formed. The countries are distinct and not empty, no group is
  empty, every server of a group has the group's country, and each group is sorted by name.
\<close>

theorem Scan_groups:
  assumes "Scan readDir dir = Inr m"
  shows "groups_ok m \<and> (\<forall>(c, g) \<in> set m. sorted (map s_Name g))"
proof -
  from assms obtain entries where
    m: "m = map (\<lambda>(c, g). (c, sort_slice s_Name g)) (foldl (scan_entry dir) [] entries)"
    by (rule Scan_Inr)
  have "groups_ok (foldl (scan_entry dir) [] entries)"
    using scan_entries [OF groups_ok_empty] by blast
  then have "groups_ok m" unfolding m by (rule groups_ok_sorted)
  moreover have "\<forall>(c, g) \<in> set m. sorted (map s_Name g)" unfolding m by auto
  ultimately show ?thesis by blast
qed

theorem Scan_groups_witness:
  "\<exists>m. Scan (\<lambda>_. Inr sample_dir) ''/etc/ovpn'' = Inr m \<and> groups_ok m \<and>
     (\<forall>(c, g) \<in> set m. sorted (map s_Name g))"
  using Scan_groups [of "\<lambda>_. Inr sample_dir" "''/etc/ovpn''"] by (simp add: Scan_def)

text \<open>
  Which file names are server files, and what is read from them. The country is the
  lower-cased text before the first dash, the name the text before the first dot; a file is
  accepted exactly when it is \<open>country-city.rest\<close> with a non-empty country, no dot before that
  and the extension \<open>.ovpn\<close>. Everything else yields two empty strings.
\<close>

theorem parseFilename_spec:
  "(parseFilename f = (c, n) \<and> c \<noteq> []) \<longleftrightarrow>
     (\<exists>cc city rest. f = cc @ ''-'' @ city @ ''.'' @ rest \<and> suffix ''.ovpn'' f \<and> cc \<noteq> [] \<and>
        CHR ''-'' \<notin> set cc \<and> CHR ''.'' \<notin> set (cc @ city) \<and>
        c = go_ToLower cc \<and> n = cc @ ''-'' @ city)"
  (is "?parsed \<longleftrightarrow> ?shape")
proof
  assume ?parsed
  then have p: "parseFilename f = (c, n)" and c: "c \<noteq> []" by blast+
  note shape = parseFilename_shape [OF p c]
  have dot: "CHR ''.'' \<in> set f" using shape(3) by (simp add: go_Index_single_pos)
  have n: "n = takeWhile (\<lambda>x. x \<noteq> CHR ''.'') f" using shape(2) dot by (simp add: take_go_Index_single)
  have dash: "CHR ''-'' \<in> set n" using shape(5) by (simp add: go_Index_single_pos)
  define cc where "cc = takeWhile (\<lambda>x. x \<noteq> CHR ''-'') n"
  have cc: "c = go_ToLower cc" using shape(4) dash by (simp add: take_go_Index_single cc_def)
  obtain city where city: "n = cc @ ''-'' @ city"
    unfolding cc_def by (rule takeWhile_split [OF dash]) simp
  obtain rest where "f = n @ ''.'' @ rest"
    unfolding n by (rule takeWhile_split [OF dot]) simp
  moreover have "CHR ''.'' \<notin> set n" unfolding n by (auto dest: set_takeWhileD)
  moreover have "CHR ''-'' \<notin> set cc" unfolding cc_def by (auto dest: set_takeWhileD)
  moreover have "cc \<noteq> []" using c cc by auto
  ultimately show ?shape using shape(1) cc city by (intro exI [of _ cc] exI [of _ city] exI [of _ rest]) (auto simp: go_HasSuffix_def)
next
  assume ?shape
  then obtain cc city rest where f: "f = (cc @ ''-'' @ city) @ CHR ''.'' # rest"
    and suf: "suffix ''.ovpn'' f" and cc: "cc \<noteq> []" "CHR ''-'' \<notin> set cc"
    and nodot: "CHR ''.'' \<notin> set (cc @ ''-'' @ city)" and c: "c = go_ToLower cc"
    and n: "n = cc @ CHR ''-'' # city"
    by auto
  have "hd f \<noteq> CHR ''.''" "hd n \<noteq> CHR ''-''" using cc nodot f n by (cases cc; auto)+
  then have pos: "0 < go_Index f ''.''" "0 < go_Index n ''-''"
    using f n by (simp_all add: go_Index_single_pos)
  have "take (nat (go_Index f ''.'')) f = n"
    using takeWhile_neq_append [OF nodot, of rest] n
    by (subst take_go_Index_single) (simp_all add: f)
  moreover have "take (nat (go_Index n ''-'')) n = cc"
    using takeWhile_neq_append [OF cc(2), of city] n by (subst take_go_Index_single) simp_all
  ultimately have "parseFilename f = (c, n)"
    using pos suf c by (simp add: parseFilename_def Let_def go_HasSuffix_def)
  then show ?parsed using c cc by simp
qed

end
