(* ===== verification/Os.thy ===== *)
theory Os
  imports Go_Base
begin

text \<open>
  The boundary to the operating system. The gateway reaches the kernel through \<open>netlink\<close> and
  \<open>vishvananda/netns\<close>, through commands (\<open>iptables\<close>, \<open>umount\<close>, \<open>openvpn\<close>), files and
  processes; none of that code is part of the repository. A call is a value of \<open>oscall\<close>; the
  environment \<open>os\<close> is a parameter that decides, from everything that happened before, whether a
  call fails and which descriptor or process number a successful one returns. Running the model
  yields the list of the calls issued, each with its outcome (\<open>hist\<close>), and the properties speak
  about that list.

  Some things the program asks its surroundings for are calls too: whether a context is
  cancelled (\<open>CtxErr\<close>, which "fails" with the context's error), which case of a \<open>select\<close> between a
  ticker or a timer and a context fires (\<open>WaitTick\<close>, \<open>WaitFor\<close>), and the clock (\<open>TimeNow\<close>, whose
  number is the time).

  \<open>run_all\<close> is the source's pattern of a sequence of fallible calls in which the first error is
  wrapped and returned; \<open>issue\<close> is a call whose error is ignored (\<open>_ = f()\<close>).
\<close>

section \<open>Definitions\<close>

datatype oscall =
    LockOSThread
  | UnlockOSThread
  | NsGet
  | NsSet int
  | NsNewNamed string
  | NsDeleteNamed string
  | NsClose int
  | LinkAdd string string
  | LinkByName string
  | LinkSetUp string
  | LinkSetNsFd string int
  | LinkDel string
  | ParseAddr string
  | AddrAdd string string
  | RouteAdd string string
  | Exec string "string list"
  | OsStat string
  | OsRemove string
  | OsRemoveAll string
  | OsMkdirAll string
  | OsWriteFile string string
  | StdoutPipe
  | StderrPipe
  | ProcStart "string list"
  | ProcSignalTerm int
  | ProcWaitDone int
  | ProcWait int
  | ProcKill int
  | Dial string string
  | ConnClose int
  | ConnWrite int string
  | RequestWrite int "(string \<times> string list) list"
  | HijackSupported
  | Hijack
  | CopyConn int int
  | CloseWrite int
  | NetListen string
  | ServeListener
  | ListenAndServeHTTP string
  | WaitSignal
  | CtxErr
  | WaitTick
  | WaitFor int
  | TimeNow

type_synonym hist = "(oscall \<times> err option) list"

record os =
  os_err :: "hist \<Rightarrow> oscall \<Rightarrow> err option"
  os_fd :: "hist \<Rightarrow> oscall \<Rightarrow> int"

definition sys :: "os \<Rightarrow> oscall \<Rightarrow> hist \<Rightarrow> err option \<times> hist" where
  "sys E c h = (os_err E h c, h @ [(c, os_err E h c)])"

definition issue :: "os \<Rightarrow> oscall \<Rightarrow> hist \<Rightarrow> hist" where
  "issue E c h = snd (sys E c h)"

fun run_all :: "os \<Rightarrow> (oscall \<times> (err \<Rightarrow> err)) list \<Rightarrow> hist \<Rightarrow> err option \<times> hist" where
  "run_all E [] h = (None, h)"
| "run_all E ((c, wrap) # cs) h =
     (case sys E c h of (Some e, h) \<Rightarrow> (Some (wrap e), h) | (None, h) \<Rightarrow> run_all E cs h)"

text \<open>An environment in which nothing fails and every descriptor is \<open>fd\<close>, for evaluation.\<close>

definition calm_os :: "int \<Rightarrow> os" where
  "calm_os fd = \<lparr>os_err = (\<lambda>h c. None), os_fd = (\<lambda>h c. fd)\<rparr>"

text \<open>The calls of a history that succeeded, in order.\<close>

definition done_calls :: "hist \<Rightarrow> oscall list" where
  "done_calls h = map fst (filter (\<lambda>p. snd p = None) h)"

section \<open>Lemmas\<close>

lemma sys_fst: "fst (sys E c h) = os_err E h c"
  by (simp add: sys_def)

lemma issue_eq: "issue E c h = h @ [(c, os_err E h c)]"
  by (simp add: issue_def sys_def)

lemma done_calls_append [simp]: "done_calls (h @ h') = done_calls h @ done_calls h'"
  by (simp add: done_calls_def)

lemma done_calls_Nil [simp]: "done_calls [] = []"
  by (simp add: done_calls_def)

lemma done_calls_Cons [simp]:
  "done_calls ((c, e) # h) = (if e = None then c # done_calls h else done_calls h)"
  by (simp add: done_calls_def)

lemma run_all_None: "run_all E cs h = (None, h') \<Longrightarrow> h' = h @ map (\<lambda>p. (fst p, None)) cs"
proof (induction cs arbitrary: h)
  case (Cons p cs)
  obtain c w where p: "p = (c, w)" by (cases p)
  with Cons.prems have "run_all E cs (h @ [(c, None)]) = (None, h')"
    by (simp add: sys_def split: option.splits)
  from Cons.IH [OF this] p show ?case by simp
qed simp

lemma done_calls_ok [simp]: "done_calls (map (\<lambda>p. (fst p, None)) cs) = map fst cs"
  by (induction cs) auto

lemma done_calls_run_all: "run_all E cs h = (None, h') \<Longrightarrow> done_calls h' = done_calls h @ map fst cs"
  by (drule run_all_None) simp

lemma run_all_calls: "run_all E cs h = (r, h') \<Longrightarrow> \<exists>t. h' = h @ t \<and> fst ` set t \<subseteq> fst ` set cs"
proof (induction cs arbitrary: h)
  case (Cons p cs)
  obtain c w where p: "p = (c, w)" by (cases p)
  show ?case
  proof (cases "os_err E h c")
    case None
    with Cons.prems p have "run_all E cs (h @ [(c, None)]) = (r, h')" by (simp add: sys_def)
    from Cons.IH [OF this] obtain t where "h' = (h @ [(c, None)]) @ t" "fst ` set t \<subseteq> fst ` set cs" by blast
    then show ?thesis using p by (intro exI [of _ "(c, None) # t"]) auto
  next
    case (Some e)
    with Cons.prems p show ?thesis by (auto simp: sys_def)
  qed
qed simp

lemma run_all_ok:
  "\<forall>c \<in> fst ` set cs. \<forall>h. os_err E h c = None \<Longrightarrow>
   run_all E cs h = (None, h @ map (\<lambda>p. (fst p, None)) cs)"
  by (induction cs arbitrary: h) (auto simp: sys_def)

end
