(* ===== verification/Netns.thy ===== *)
theory Netns
  imports Os
begin

text \<open>
  \<open>internal/netns/netns_linux.go\<close>: one network namespace per worker, with a veth pair, a default
  route, the iptables kill switch, a NAT rule and a resolver file; and its destruction.
  \<open>create_in\<close> is the part of \<open>Create\<close> that runs with the thread locked and the origin namespace
  known, so that the deferred \<open>origin.Close()\<close> and \<open>UnlockOSThread()\<close> stand after it, and
  \<open>configure_inside\<close> is the part of \<open>configurePeer\<close> that runs inside the new namespace.
  \<open>NsHandle.Close\<close> resets the handle to -1 when it succeeds, and \<open>IsOpen\<close> is a comparison
  with -1.
\<close>

section \<open>Definitions\<close>

record namespace =
  ns_Name :: string
  ns_Index :: int
  ns_Handle :: int
  ns_VethHost :: string
  ns_VethPeer :: string
  ns_HostIP :: "8 word list"
  ns_PeerIP :: "8 word list"
  ns_Subnet :: string

definition ip_string :: "8 word list \<Rightarrow> string" where
  "ip_string ip =
     (case map (\<lambda>b. go_Itoa (uint b)) ip of
        [a, b, c, d] \<Rightarrow> a @ ''.'' @ b @ ''.'' @ c @ ''.'' @ d
      | _ \<Rightarrow> [])"

definition new_namespace :: "string \<Rightarrow> int \<Rightarrow> int \<Rightarrow> namespace" where
  "new_namespace name index handle =
     \<lparr>ns_Name = name, ns_Index = index, ns_Handle = handle,
      ns_VethHost = ''veth-'' @ go_Itoa index, ns_VethPeer = ''vpeer-'' @ go_Itoa index,
      ns_HostIP = [10, 200, word_of_int index, 1], ns_PeerIP = [10, 200, word_of_int index, 2],
      ns_Subnet = ''10.200.'' @ go_Itoa index @ ''.0/30''\<rparr>"

definition cleanupStaleNamespace :: "os \<Rightarrow> string \<Rightarrow> hist \<Rightarrow> hist" where
  "cleanupStaleNamespace E name h =
     (let path = filepath_Join ''/run/netns'' name in
      case sys E (OsStat path) h of
        (Some e, h) \<Rightarrow> h
      | (None, h) \<Rightarrow> issue E (OsRemove path) (issue E (Exec ''umount'' [path]) h))"

definition runCommand :: "string \<Rightarrow> string list \<Rightarrow> oscall \<times> (err \<Rightarrow> err)" where
  "runCommand name args = (Exec name args, Wrapf ''failed'' (name # args))"

definition veth_script :: "namespace \<Rightarrow> (oscall \<times> (err \<Rightarrow> err)) list" where
  "veth_script ns =
       [(LinkAdd (ns_VethHost ns) (ns_VethPeer ns), Wrapf ''create veth pair'' []),
        (LinkByName (ns_VethHost ns), Wrapf ''lookup host veth'' [ns_VethHost ns]),
        (ParseAddr (ip_string (ns_HostIP ns) @ ''/30''), Wrapf ''parse host addr'' []),
        (AddrAdd (ns_VethHost ns) (ip_string (ns_HostIP ns) @ ''/30''), Wrapf ''assign host addr'' []),
        (LinkSetUp (ns_VethHost ns), Wrapf ''bring up host veth'' []),
        (LinkByName (ns_VethPeer ns), Wrapf ''lookup peer veth'' [ns_VethPeer ns]),
        (LinkSetNsFd (ns_VethPeer ns) (ns_Handle ns), Wrapf ''move peer into netns'' [])]"

definition createVethPair :: "os \<Rightarrow> namespace \<Rightarrow> hist \<Rightarrow> err option \<times> hist" where
  "createVethPair E ns h = run_all E (veth_script ns) h"

definition resolv_content :: string where
  "resolv_content = ''nameserver 1.1.1.1'' @ [CHR 0x0A] @ ''nameserver 1.0.0.1'' @ [CHR 0x0A]"

definition resolv_script :: "string \<Rightarrow> (oscall \<times> (err \<Rightarrow> err)) list" where
  "resolv_script name =
     (let dir = filepath_Join ''/etc/netns'' name in
      [(OsMkdirAll dir, \<lambda>e. e), (OsWriteFile (filepath_Join dir ''resolv.conf'') resolv_content, \<lambda>e. e)])"

definition writeNsResolvConf :: "os \<Rightarrow> string \<Rightarrow> hist \<Rightarrow> err option \<times> hist" where
  "writeNsResolvConf E name h = run_all E (resolv_script name) h"

definition kill_rules :: "string \<Rightarrow> string list list" where
  "kill_rules vethPeer =
     [[''-F'', ''OUTPUT''],
      [''-P'', ''OUTPUT'', ''ACCEPT''],
      [''-A'', ''OUTPUT'', ''-o'', ''lo'', ''-j'', ''ACCEPT''],
      [''-A'', ''OUTPUT'', ''-m'', ''conntrack'', ''--ctstate'', ''ESTABLISHED,RELATED'', ''-j'', ''ACCEPT''],
      [''-A'', ''OUTPUT'', ''-p'', ''udp'', ''-d'', ''1.1.1.1'', ''--dport'', ''53'', ''-j'', ''ACCEPT''],
      [''-A'', ''OUTPUT'', ''-p'', ''udp'', ''-d'', ''1.0.0.1'', ''--dport'', ''53'', ''-j'', ''ACCEPT''],
      [''-A'', ''OUTPUT'', ''-o'', ''tun+'', ''-j'', ''ACCEPT''],
      [''-A'', ''OUTPUT'', ''-o'', vethPeer, ''-j'', ''ACCEPT''],
      [''-P'', ''OUTPUT'', ''DROP'']]"

definition kill_script :: "string \<Rightarrow> (oscall \<times> (err \<Rightarrow> err)) list" where
  "kill_script vethPeer =
     map (\<lambda>rule. (fst (runCommand ''iptables'' rule),
                   \<lambda>e. Wrapf ''iptables'' rule (snd (runCommand ''iptables'' rule) e)))
       (kill_rules vethPeer)"

definition applyKillSwitch :: "os \<Rightarrow> string \<Rightarrow> hist \<Rightarrow> err option \<times> hist" where
  "applyKillSwitch E vethPeer h = run_all E (kill_script vethPeer) h"

definition peer_script :: "namespace \<Rightarrow> (oscall \<times> (err \<Rightarrow> err)) list" where
  "peer_script ns =
     [(LinkByName ''lo'', Wrapf ''lookup loopback'' []),
      (LinkSetUp ''lo'', Wrapf ''bring up loopback'' []),
      (LinkByName (ns_VethPeer ns), Wrapf ''lookup peer veth inside namespace'' []),
      (ParseAddr (ip_string (ns_PeerIP ns) @ ''/30''), Wrapf ''parse peer addr'' []),
      (AddrAdd (ns_VethPeer ns) (ip_string (ns_PeerIP ns) @ ''/30''), Wrapf ''assign peer addr'' []),
      (LinkSetUp (ns_VethPeer ns), Wrapf ''bring up peer veth'' []),
      (RouteAdd (ns_VethPeer ns) (ip_string (ns_HostIP ns)), Wrapf ''add default route'' [])]"

definition configure_inside :: "os \<Rightarrow> namespace \<Rightarrow> hist \<Rightarrow> err option \<times> hist" where
  "configure_inside E ns h =
     (case run_all E (peer_script ns) h of
        (Some e, h) \<Rightarrow> (Some e, h)
      | (None, h) \<Rightarrow>
          (case applyKillSwitch E (ns_VethPeer ns) h of
             (Some e, h) \<Rightarrow> (Some (Wrapf ''apply kill switch'' [] e), h)
           | (None, h) \<Rightarrow> (None, h)))"

definition configurePeer :: "os \<Rightarrow> namespace \<Rightarrow> hist \<Rightarrow> err option \<times> hist" where
  "configurePeer E ns h0 =
     (let h1 = issue E LockOSThread h0; origin = os_fd E h1 NsGet in
      case sys E NsGet h1 of
        (Some e, h) \<Rightarrow> (Some (Wrapf ''get current namespace'' [] e), issue E UnlockOSThread h)
      | (None, h) \<Rightarrow>
          (case sys E (NsSet (ns_Handle ns)) h of
             (Some e, h) \<Rightarrow>
               (Some (Wrapf ''switch to namespace'' [ns_Name ns] e),
                issue E UnlockOSThread (issue E (NsClose origin) h))
           | (None, h) \<Rightarrow>
               let (r, h) = configure_inside E ns h in
               (r, issue E UnlockOSThread (issue E (NsClose origin) (issue E (NsSet origin) h)))))"

definition nat_rule :: "string \<Rightarrow> string \<Rightarrow> string list" where
  "nat_rule op subnet = [''-t'', ''nat'', op, ''POSTROUTING'', ''-s'', subnet, ''-j'', ''MASQUERADE'']"

definition nat_script :: "namespace \<Rightarrow> (oscall \<times> (err \<Rightarrow> err)) list" where
  "nat_script ns = [runCommand ''iptables'' (nat_rule ''-A'' (ns_Subnet ns))]"

definition delete_host_link :: "os \<Rightarrow> namespace \<Rightarrow> hist \<Rightarrow> hist" where
  "delete_host_link E ns h =
     (case sys E (LinkByName (ns_VethHost ns)) h of
        (None, h) \<Rightarrow> issue E (LinkDel (ns_VethHost ns)) h
      | (Some e, h) \<Rightarrow> h)"

definition close_handle :: "os \<Rightarrow> namespace \<Rightarrow> hist \<Rightarrow> namespace \<times> hist" where
  "close_handle E ns h =
     (if ns_Handle ns \<noteq> -1 then
        (case sys E (NsClose (ns_Handle ns)) h of
           (None, h) \<Rightarrow> (ns\<lparr>ns_Handle := -1\<rparr>, h)
         | (Some e, h) \<Rightarrow> (ns, h))
      else (ns, h))"

definition Destroy :: "os \<Rightarrow> namespace option \<Rightarrow> hist \<Rightarrow> err option \<times> namespace option \<times> hist" where
  "Destroy E mns h =
     (case mns of
        None \<Rightarrow> (None, None, h)
      | Some ns \<Rightarrow>
          let h = (if ns_Subnet ns \<noteq> [] then issue E (Exec ''iptables'' (nat_rule ''-D'' (ns_Subnet ns))) h else h);
              h = delete_host_link E ns h;
              h = issue E (NsDeleteNamed (ns_Name ns)) h;
              (ns, h) = close_handle E ns h;
              h = cleanupStaleNamespace E (ns_Name ns) h;
              h = issue E (OsRemoveAll (filepath_Join ''/etc/netns'' (ns_Name ns))) h
          in (None, Some ns, h))"

definition destroyed :: "os \<Rightarrow> namespace \<Rightarrow> hist \<Rightarrow> hist" where
  "destroyed E ns h = snd (snd (Destroy E (Some ns) h))"

definition create_in :: "os \<Rightarrow> string \<Rightarrow> int \<Rightarrow> int \<Rightarrow> hist \<Rightarrow> namespace result \<times> hist" where
  "create_in E name index origin h0 =
     (let handle = os_fd E h0 (NsNewNamed name) in
      case sys E (NsNewNamed name) h0 of
        (Some e, h) \<Rightarrow> (Inl (Wrapf ''create namespace'' [name] e), cleanupStaleNamespace E name h)
      | (None, h) \<Rightarrow>
          (case sys E (NsSet origin) h of
             (Some e, h) \<Rightarrow>
               (Inl (Wrapf ''restore origin namespace'' [] e),
                cleanupStaleNamespace E name (issue E (NsClose handle) (issue E (NsDeleteNamed name) h)))
           | (None, h) \<Rightarrow>
               let ns = new_namespace name index handle in
               (case createVethPair E ns h of
                  (Some e, h) \<Rightarrow> (Inl e, destroyed E ns h)
                | (None, h) \<Rightarrow>
               (case configurePeer E ns h of
                  (Some e, h) \<Rightarrow> (Inl e, destroyed E ns h)
                | (None, h) \<Rightarrow>
               (case run_all E (nat_script ns) h of
                  (Some e, h) \<Rightarrow> (Inl (Wrapf ''configure NAT for'' [ns_Subnet ns] e), destroyed E ns h)
                | (None, h) \<Rightarrow>
               (case writeNsResolvConf E name h of
                  (Some e, h) \<Rightarrow> (Inl (Wrapf ''write netns resolv.conf'' [] e), destroyed E ns h)
                | (None, h) \<Rightarrow> (Inr ns, h)))))))"

definition Create :: "os \<Rightarrow> string \<Rightarrow> int \<Rightarrow> hist \<Rightarrow> namespace result \<times> hist" where
  "Create E name index h =
     (if index < 0 \<or> index > 254 then
        (Inl (Errorf ''namespace index out of range'' [go_Itoa index]), h)
      else
        let h1 = issue E LockOSThread (cleanupStaleNamespace E name h); origin = os_fd E h1 NsGet in
        case sys E NsGet h1 of
          (Some e, h) \<Rightarrow> (Inl (Wrapf ''get current namespace'' [] e), issue E UnlockOSThread h)
        | (None, h) \<Rightarrow>
            let (r, h) = create_in E name index origin h in
            (r, issue E UnlockOSThread (issue E (NsClose origin) h)))"

subsection \<open>Reading a history\<close>

text \<open>
  The namespace the thread runs in after a history, which starts in \<open>cur\<close>: a successful \<open>Set\<close>
  switches to the handle, and \<open>NewNamed\<close> switches to the namespace it creates (the comment in
  \<open>Create\<close>). It does so before it gives the namespace its name, so that a \<open>NewNamed\<close> that fails
  may have moved the thread as well: \<open>fd name r\<close> is the namespace in which \<open>NewNamed\<close> with the
  result \<open>r\<close> leaves the thread, or \<open>None\<close> when it stays where it was.
\<close>

definition ns_effect :: "(string \<Rightarrow> err option \<Rightarrow> int option) \<Rightarrow> int \<Rightarrow> oscall \<times> err option \<Rightarrow> int" where
  "ns_effect fd cur p =
     (case fst p of
        NsSet n \<Rightarrow> if snd p = None then n else cur
      | NsNewNamed name \<Rightarrow> (case fd name (snd p) of None \<Rightarrow> cur | Some n \<Rightarrow> n)
      | _ \<Rightarrow> cur)"

fun thread_ns :: "(string \<Rightarrow> err option \<Rightarrow> int option) \<Rightarrow> int \<Rightarrow> hist \<Rightarrow> int" where
  "thread_ns fd cur [] = cur"
| "thread_ns fd cur (p # h) = thread_ns fd (ns_effect fd cur p) h"

text \<open>
  What the code relies on to return to where it came from: \<open>Get\<close> returns the handle of the
  thread's current namespace.
\<close>

definition get_is_current :: "os \<Rightarrow> (string \<Rightarrow> err option \<Rightarrow> int option) \<Rightarrow> int \<Rightarrow> bool" where
  "get_is_current E fd cur \<longleftrightarrow> (\<forall>h. os_fd E h NsGet = thread_ns fd cur h)"

text \<open>In a history \<open>t\<close>: a call \<open>c\<close> was made and failed.\<close>

definition failed_in :: "oscall \<Rightarrow> hist \<Rightarrow> bool" where
  "failed_in c t \<longleftrightarrow> (\<exists>e. (c, Some e) \<in> set t)"




text \<open>An environment for evaluation: \<open>Get\<close> answers truthfully, new namespaces get handle 9.\<close>

definition sample_os :: os where
  "sample_os = \<lparr>os_err = (\<lambda>h c. if c = OsStat ''/run/netns/worker-3'' then Some (SysErr ''ENOENT'') else None),
     os_fd = (\<lambda>h c. if c = NsGet then thread_ns (\<lambda>_ _. Some 9) 7 h else 9)\<rparr>"

text \<open>An environment in which creating the veth pair fails.\<close>

definition failing_os :: os where
  "failing_os = \<lparr>os_err = (\<lambda>h c. case c of LinkAdd a b \<Rightarrow> Some (SysErr ''EEXIST'') | _ \<Rightarrow> None),
     os_fd = (\<lambda>h c. 9)\<rparr>"

text \<open>
  Most calls neither switch the thread's namespace nor create one. \<open>qext h h'\<close>: the history \<open>h'\<close>
  extends \<open>h\<close> by such calls only.
\<close>

definition quiet_call :: "oscall \<Rightarrow> bool" where
  "quiet_call c = (case c of NsSet n \<Rightarrow> False | NsNewNamed name \<Rightarrow> False | _ \<Rightarrow> True)"

definition quiet :: "hist \<Rightarrow> bool" where
  "quiet t \<longleftrightarrow> list_all (\<lambda>p. quiet_call (fst p)) t"

definition qext :: "hist \<Rightarrow> hist \<Rightarrow> bool" where
  "qext h h' \<longleftrightarrow> (\<exists>t. h' = h @ t \<and> quiet t)"

text \<open>
  The OUTPUT chain that a list of iptables commands leaves behind, and the verdict of a chain on a
  packet: the first matching rule decides, else the policy. What a match expression matches is the
  parameter \<open>matches\<close>.
\<close>

fun chain_step :: "string list list \<times> string \<Rightarrow> string list \<Rightarrow> string list list \<times> string" where
  "chain_step (rules, policy) cmd =
     (if take 2 cmd = [''-F'', ''OUTPUT''] then ([], policy)
      else if take 2 cmd = [''-P'', ''OUTPUT''] then (rules, cmd ! 2)
      else if take 2 cmd = [''-A'', ''OUTPUT''] then (rules @ [drop 2 cmd], policy)
      else (rules, policy))"

fun verdict :: "(string list \<Rightarrow> 'pkt \<Rightarrow> bool) \<Rightarrow> string list list \<times> string \<Rightarrow> 'pkt \<Rightarrow> string" where
  "verdict matches ([], policy) pkt = policy"
| "verdict matches (r # rs, policy) pkt =
     (if matches (take (length r - 2) r) pkt then last r else verdict matches (rs, policy) pkt)"

text \<open>
  The documented meaning of \<open>-o\<close>: a name matches the outgoing interface exactly, and one that
  ends in a plus sign matches every interface that starts with the rest.
\<close>

definition matches_out_iface :: "(string list \<Rightarrow> 'pkt \<Rightarrow> bool) \<Rightarrow> ('pkt \<Rightarrow> string) \<Rightarrow> bool" where
  "matches_out_iface matches oif \<longleftrightarrow>
     (\<forall>i pkt. matches [''-o'', i] pkt \<longleftrightarrow>
        (if i \<noteq> [] \<and> last i = CHR ''+'' then prefix (butlast i) (oif pkt) else oif pkt = i))"

text \<open>A packet reduced to its outgoing interface, for evaluation.\<close>

definition iface_match :: "string list \<Rightarrow> string \<Rightarrow> bool" where
  "iface_match m pkt =
     (case m of
        [o', i] \<Rightarrow> o' = ''-o'' \<and> (if i \<noteq> [] \<and> last i = CHR ''+'' then prefix (butlast i) pkt else pkt = i)
      | _ \<Rightarrow> False)"

section \<open>Calls that leave namespaces alone\<close>

lemma quiet_call_simps [simp]:
  "\<not> quiet_call (NsSet n)" "\<not> quiet_call (NsNewNamed name)" "quiet_call LockOSThread"
  "quiet_call UnlockOSThread" "quiet_call NsGet" "quiet_call (NsDeleteNamed name)"
  "quiet_call (NsClose n)" "quiet_call (LinkAdd a b)" "quiet_call (LinkByName a)"
  "quiet_call (LinkSetUp a)" "quiet_call (LinkSetNsFd a n)" "quiet_call (LinkDel a)"
  "quiet_call (ParseAddr a)" "quiet_call (AddrAdd a b)" "quiet_call (RouteAdd a b)"
  "quiet_call (Exec a xs)" "quiet_call (OsStat a)" "quiet_call (OsRemove a)"
  "quiet_call (OsRemoveAll a)" "quiet_call (OsMkdirAll a)" "quiet_call (OsWriteFile a b)"
  "quiet_call StdoutPipe" "quiet_call StderrPipe" "quiet_call (ProcStart xs)" "quiet_call (ProcSignalTerm n)"
  "quiet_call (ProcWaitDone n)" "quiet_call (ProcWait n)" "quiet_call (ProcKill n)" "quiet_call CtxErr"
  "quiet_call WaitTick" "quiet_call (WaitFor n)" "quiet_call TimeNow" "quiet_call (Dial a b)" "quiet_call (ConnClose n)"
  "quiet_call (ConnWrite n a)" "quiet_call (RequestWrite n hs)" "quiet_call HijackSupported" "quiet_call Hijack"
  "quiet_call (CopyConn n k)" "quiet_call (CloseWrite n)" "quiet_call (NetListen a)"
  "quiet_call ServeListener" "quiet_call (ListenAndServeHTTP a)" "quiet_call WaitSignal"
  by (simp_all add: quiet_call_def)

lemma ns_effect_simps [simp]:
  "ns_effect fd cur (NsSet n, Some e) = cur" "ns_effect fd cur (NsSet n, None) = n"
  "ns_effect fd cur (NsNewNamed name, r) = (case fd name r of None \<Rightarrow> cur | Some n \<Rightarrow> n)"
  by (simp_all add: ns_effect_def)

lemma ns_effect_quiet: "quiet_call (fst p) \<Longrightarrow> ns_effect fd cur p = cur"
  by (cases "fst p") (simp_all add: ns_effect_def)

lemma quiet_simps [simp]:
  "quiet []" "quiet (p # t) \<longleftrightarrow> quiet_call (fst p) \<and> quiet t" "quiet (t @ u) \<longleftrightarrow> quiet t \<and> quiet u"
  by (simp_all add: quiet_def)

lemma thread_ns_append: "thread_ns fd cur (h @ t) = thread_ns fd (thread_ns fd cur h) t"
  by (induction h arbitrary: cur) auto

lemma thread_ns_quiet: "quiet t \<Longrightarrow> thread_ns fd cur t = cur"
  by (induction t) (auto simp: ns_effect_quiet)


lemma qext_refl [simp, intro]: "qext h h"
  by (simp add: qext_def)

lemma qext_trans [trans]: "qext h h' \<Longrightarrow> qext h' h'' \<Longrightarrow> qext h h''"
  by (auto simp: qext_def)

lemma qext_issue: "qext h h' \<Longrightarrow> quiet_call c \<Longrightarrow> qext h (issue E c h')"
  by (auto simp: qext_def issue_eq)

lemma qext_run_all: "run_all E cs h = (r, h') \<Longrightarrow> \<forall>c \<in> fst ` set cs. quiet_call c \<Longrightarrow> qext h h'"
  unfolding qext_def quiet_def list_all_iff using run_all_calls by (metis image_subset_iff)

lemma qext_cleanup: "qext h h' \<Longrightarrow> qext h (cleanupStaleNamespace E name h')"
  by (cases "os_err E h' (OsStat (filepath_Join ''/run/netns'' name))")
    (auto simp: cleanupStaleNamespace_def Let_def sys_def qext_def issue_eq)

lemma qext_thread: "qext h h' \<Longrightarrow> thread_ns fd cur h' = thread_ns fd cur h"
  by (auto simp: qext_def thread_ns_append thread_ns_quiet)

lemmas qext_intros = qext_refl qext_issue qext_cleanup

section \<open>Destruction\<close>

lemma qext_delete_host_link: "qext h h' \<Longrightarrow> qext h (delete_host_link E ns h')"
  by (cases "os_err E h' (LinkByName (ns_VethHost ns))")
    (auto simp: delete_host_link_def sys_def qext_def issue_eq)

lemma close_handle_facts:
  "close_handle E ns h = (ns', h') \<Longrightarrow> qext h h' \<and> ns_Name ns' = ns_Name ns \<and>
     (ns_Handle ns' = -1 \<or> ns' = ns)"
  by (cases "os_err E h (NsClose (ns_Handle ns))")
    (auto simp: close_handle_def sys_def qext_def split: if_splits)

lemma delete_host_link_calls:
  obtains t where "delete_host_link E ns h = h @ t" and "subseq [LinkByName (ns_VethHost ns)] (map fst t)"
  by (cases "os_err E h (LinkByName (ns_VethHost ns))")
    (simp_all add: delete_host_link_def sys_def issue_eq)

lemma close_handle_calls:
  assumes "close_handle E ns h = (ns', h')"
  obtains t where "h' = h @ t"
    and "subseq (if ns_Handle ns = -1 then [] else [NsClose (ns_Handle ns)]) (map fst t)"
  using assms
  by (cases "os_err E h (NsClose (ns_Handle ns))")
    (auto simp: close_handle_def sys_def split: if_splits)

lemma destroyed_split:
  obtains h1 e where "qext h h1" and "qext (h1 @ [(NsDeleteNamed (ns_Name ns), e)]) (destroyed E ns h)"
proof -
  define h1 where "h1 = delete_host_link E ns
    (if ns_Subnet ns \<noteq> [] then issue E (Exec ''iptables'' (nat_rule ''-D'' (ns_Subnet ns))) h else h)"
  let ?h2 = "issue E (NsDeleteNamed (ns_Name ns)) h1"
  obtain ns' h' where close: "close_handle E ns ?h2 = (ns', h')" by (cases "close_handle E ns ?h2")
  have "qext h h1" unfolding h1_def by (auto intro!: qext_delete_host_link qext_issue)
  moreover have "destroyed E ns h = issue E (OsRemoveAll (filepath_Join ''/etc/netns'' (ns_Name ns')))
      (cleanupStaleNamespace E (ns_Name ns') h')"
    using close by (simp add: destroyed_def Destroy_def Let_def flip: h1_def)
  then have "qext ?h2 (destroyed E ns h)"
    using close_handle_facts [OF close] by (auto intro!: qext_issue qext_cleanup)
  ultimately show thesis
    using that [of h1 "os_err E h1 (NsDeleteNamed (ns_Name ns))"] by (simp add: issue_eq)
qed

section \<open>Creation\<close>

lemma prefix_run_all: "run_all E cs h = (r, h') \<Longrightarrow> prefix h h'"
  by (drule run_all_calls) auto

lemma prefix_issue: "prefix h h' \<Longrightarrow> prefix h (issue E c h')"
  by (simp add: issue_eq)

lemma prefix_configure_inside: "configure_inside E ns h = (r, h') \<Longrightarrow> prefix h h'"
  by (auto simp: configure_inside_def applyKillSwitch_def split: prod.splits option.splits
      dest!: prefix_run_all intro: prefix_order.trans)

lemma prefix_configurePeer: "configurePeer E ns h = (r, h') \<Longrightarrow> prefix h h'"
  by (auto simp: configurePeer_def Let_def sys_def issue_eq split: prod.splits option.splits
      dest!: prefix_configure_inside) (auto simp: prefix_def)

lemma configurePeer_done:
  assumes "configurePeer E ns h = (None, h')"
  shows "\<exists>t. h' = h @ t \<and> subseq ([NsSet (ns_Handle ns)] @ map fst (peer_script ns) @
      map (Exec ''iptables'') (kill_rules (ns_VethPeer ns))) (done_calls t)"
proof -
  let ?h1 = "issue E LockOSThread h" and ?o = "os_fd E (issue E LockOSThread h) NsGet"
  have "os_err E ?h1 NsGet = None" and "os_err E (?h1 @ [(NsGet, None)]) (NsSet (ns_Handle ns)) = None"
    and "\<exists>h2. configure_inside E ns (?h1 @ [(NsGet, None), (NsSet (ns_Handle ns), None)]) = (None, h2) \<and>
      h' = issue E UnlockOSThread (issue E (NsClose ?o) (issue E (NsSet ?o) h2))"
    using assms by (auto simp: configurePeer_def sys_def Let_def split: option.splits prod.splits)
  then obtain h2 where c: "configure_inside E ns (?h1 @ [(NsGet, None), (NsSet (ns_Handle ns), None)]) = (None, h2)"
    and h': "h' = issue E UnlockOSThread (issue E (NsClose ?o) (issue E (NsSet ?o) h2))" by blast
  from c obtain h3 where "run_all E (peer_script ns) (?h1 @ [(NsGet, None), (NsSet (ns_Handle ns), None)]) = (None, h3)"
    and "run_all E (kill_script (ns_VethPeer ns)) h3 = (None, h2)"
    by (auto simp: configure_inside_def applyKillSwitch_def split: option.splits prod.splits)
  then have h2: "h2 = ?h1 @ [(NsGet, None), (NsSet (ns_Handle ns), None)] @
      map (\<lambda>p. (fst p, None)) (peer_script ns) @ map (\<lambda>p. (fst p, None)) (kill_script (ns_VethPeer ns))"
    by (auto dest!: run_all_None)
  define u where "u = [(NsSet ?o, os_err E h2 (NsSet ?o)),
    (NsClose ?o, os_err E (issue E (NsSet ?o) h2) (NsClose ?o)),
    (UnlockOSThread, os_err E (issue E (NsClose ?o) (issue E (NsSet ?o) h2)) UnlockOSThread)]"
  let ?t = "[(LockOSThread, os_err E h LockOSThread), (NsGet, None), (NsSet (ns_Handle ns), None)] @
    map (\<lambda>p. (fst p, None)) (peer_script ns) @ map (\<lambda>p. (fst p, None)) (kill_script (ns_VethPeer ns)) @ u"
  have calls: "map fst (kill_script p) = map (Exec ''iptables'') (kill_rules p)" for p
    by (simp add: kill_script_def runCommand_def)
  have "h' = h @ ?t" unfolding h' by (simp add: issue_eq u_def h2)
  moreover have "subseq ([NsSet (ns_Handle ns)] @ map fst (peer_script ns) @
      map (Exec ''iptables'') (kill_rules (ns_VethPeer ns))) (done_calls ?t)"
    unfolding done_calls_append done_calls_ok calls
    by (intro list_emb_append_mono list_emb_prefix subseq_order.order_refl) simp
  ultimately show ?thesis by blast
qed

lemma create_in_Inr:
  assumes "create_in E name index origin h = (Inr ns, h')"
  obtains h1 h2 h3 where "ns = new_namespace name index (os_fd E h (NsNewNamed name))"
    and "createVethPair E ns (h @ [(NsNewNamed name, None), (NsSet origin, None)]) = (None, h1)"
    and "configurePeer E ns h1 = (None, h2)"
    and "run_all E (nat_script ns) h2 = (None, h3)"
    and "writeNsResolvConf E name h3 = (None, h')"
  using assms by (auto simp: create_in_def sys_def Let_def split: prod.splits option.splits)

lemma Create_Inr:
  "Create E name index h = (Inr ns, h') \<Longrightarrow>
   0 \<le> index \<and> index \<le> 254 \<and> ns = new_namespace name index (ns_Handle ns)"
  by (auto simp: Create_def create_in_def sys_def Let_def new_namespace_def
      split: if_splits option.splits prod.splits)

text \<open>The four stages after the namespace exists, as one function: what each failure leaves.\<close>

lemma create_stages:
  assumes "create_in E name index origin h = (Inl e, h')"
    and "os_err E h (NsNewNamed name) = None"
    and "os_err E (h @ [(NsNewNamed name, None)]) (NsSet origin) = None"
  shows "\<exists>h1. prefix h h1 \<and> h' = destroyed E (new_namespace name index (os_fd E h (NsNewNamed name))) h1"
proof -
  let ?ns = "new_namespace name index (os_fd E h (NsNewNamed name))"
  let ?h0 = "h @ [(NsNewNamed name, None), (NsSet origin, None)]"
  obtain r1 h1 where s1: "createVethPair E ?ns ?h0 = (r1, h1)" by (cases "createVethPair E ?ns ?h0")
  obtain r2 h2 where s2: "configurePeer E ?ns h1 = (r2, h2)" by (cases "configurePeer E ?ns h1")
  obtain r3 h3 where s3: "run_all E (nat_script ?ns) h2 = (r3, h3)" by (cases "run_all E (nat_script ?ns) h2")
  obtain r4 h4 where s4: "writeNsResolvConf E name h3 = (r4, h4)" by (cases "writeNsResolvConf E name h3")
  have p0: "prefix h ?h0" by simp
  have p1: "prefix h h1"
    using p0 s1 unfolding createVethPair_def by (metis prefix_order.trans prefix_run_all)
  have p2: "prefix h h2" using p1 s2 by (metis prefix_order.trans prefix_configurePeer)
  have p3: "prefix h h3" using p2 s3 by (metis prefix_order.trans prefix_run_all)
  have p4: "prefix h h4"
    using p3 s4 unfolding writeNsResolvConf_def by (metis prefix_order.trans prefix_run_all)
  show ?thesis
    using assms s1 s2 s3 s4 p1 p2 p3 p4
    by (cases r1; cases r2; cases r3; cases r4) (auto simp: create_in_def sys_def Let_def)
qed

lemma create_in_Inl:
  assumes "create_in E name index origin h = (Inl e, h')"
  obtains (not_created) e' where "qext (h @ [(NsNewNamed name, Some e')]) h'"
  | (deleted) h1 e' where "prefix h h1" and "qext (h1 @ [(NsDeleteNamed name, e')]) h'"
proof (cases "os_err E h (NsNewNamed name)")
  case (Some x)
  with assms have "h' = cleanupStaleNamespace E name (h @ [(NsNewNamed name, Some x)])"
    by (simp add: create_in_def sys_def Let_def)
  then show thesis by (intro not_created [of x]) (simp add: qext_cleanup)
next
  case None
  let ?h = "h @ [(NsNewNamed name, None)]"
  show thesis
  proof (cases "os_err E ?h (NsSet origin)")
    case (Some x)
    with None assms have "h' = cleanupStaleNamespace E name (issue E (NsClose (os_fd E h (NsNewNamed name)))
        ((?h @ [(NsSet origin, Some x)]) @
         [(NsDeleteNamed name, os_err E (?h @ [(NsSet origin, Some x)]) (NsDeleteNamed name))]))"
      by (simp add: create_in_def sys_def Let_def issue_eq)
    then show thesis by (intro deleted [of "?h @ [(NsSet origin, Some x)]"]) (auto intro!: qext_cleanup qext_issue)
  next
    case (None)
    with create_stages [OF assms] \<open>os_err E h (NsNewNamed name) = None\<close> obtain h1 where
      h1: "prefix h h1" "h' = destroyed E (new_namespace name index (os_fd E h (NsNewNamed name))) h1" by blast
    obtain h2 e' where "qext h1 h2" "qext (h2 @ [(NsDeleteNamed name, e')]) h'"
      using destroyed_split [of h1 "new_namespace name index (os_fd E h (NsNewNamed name))" E] h1(2)
      by (metis (no_types, lifting) namespace.select_convs(1) new_namespace_def)
    with h1(1) show thesis by (intro deleted [of h2 e']) (auto simp: qext_def prefix_def)
  qed
qed

text \<open>Every step of a creation only adds to the history.\<close>

lemma prefix_cleanup: "prefix h h' \<Longrightarrow> prefix h (cleanupStaleNamespace E name h')"
  using qext_cleanup [of h' h' E name] by (auto simp: qext_def prefix_def)

lemma prefix_destroyed: "prefix h h' \<Longrightarrow> prefix h (destroyed E ns h')"
  using destroyed_split [of h' ns E] by (fastforce simp: qext_def prefix_def)

lemma prefix_create_in: "create_in E name index origin h = (x, h') \<Longrightarrow> prefix h h'"
proof -
  assume c: "create_in E name index origin h = (x, h')"
  show ?thesis
  proof (cases x)
    case (Inl e)
    with c have "create_in E name index origin h = (Inl e, h')" by simp
    then show ?thesis by (cases rule: create_in_Inl) (auto simp: qext_def prefix_def)
  next
    case (Inr ns)
    with c have "create_in E name index origin h = (Inr ns, h')" by simp
    then obtain h1 h2 h3 where s: "createVethPair E ns (h @ [(NsNewNamed name, None), (NsSet origin, None)]) = (None, h1)"
      "configurePeer E ns h1 = (None, h2)" "run_all E (nat_script ns) h2 = (None, h3)" "writeNsResolvConf E name h3 = (None, h')"
      by (rule create_in_Inr)
    have "prefix h h1" using prefix_run_all [OF s(1) [unfolded createVethPair_def]] by (auto simp: prefix_def)
    also have "prefix h1 h2" by (rule prefix_configurePeer [OF s(2)])
    also have "prefix h2 h3" by (rule prefix_run_all [OF s(3)])
    also have "prefix h3 h'" by (rule prefix_run_all [OF s(4) [unfolded writeNsResolvConf_def]])
    finally show ?thesis .
  qed
qed

lemma prefix_Create: "Create E name index h = (x, h') \<Longrightarrow> prefix h h'"
proof -
  assume c: "Create E name index h = (x, h')"
  let ?h1 = "issue E LockOSThread (cleanupStaleNamespace E name h)"
  have h1: "prefix h ?h1" by (simp add: prefix_issue prefix_cleanup)
  show ?thesis
  proof (cases "index < 0 \<or> index > 254 \<or> os_err E ?h1 NsGet \<noteq> None")
    case True
    with c h1 show ?thesis by (auto simp: Create_def Let_def sys_def prefix_issue split: if_splits)
  next
    case False
    obtain y h2 where i: "create_in E name index (os_fd E ?h1 NsGet) (?h1 @ [(NsGet, None)]) = (y, h2)"
      by (cases "create_in E name index (os_fd E ?h1 NsGet) (?h1 @ [(NsGet, None)])")
    with c False have "h' = issue E UnlockOSThread (issue E (NsClose (os_fd E ?h1 NsGet)) h2)"
      by (auto simp: Create_def Let_def sys_def)
    moreover have "prefix h h2" using prefix_create_in [OF i] h1 by (auto simp: prefix_def)
    ultimately show ?thesis by (simp add: prefix_issue)
  qed
qed

section \<open>The thread's namespace\<close>

lemma script_quiet:
  "\<forall>c \<in> fst ` set (veth_script ns). quiet_call c"
  "\<forall>c \<in> fst ` set (peer_script ns). quiet_call c"
  "\<forall>c \<in> fst ` set (kill_script p). quiet_call c"
  "\<forall>c \<in> fst ` set (nat_script ns). quiet_call c"
  "\<forall>c \<in> fst ` set (resolv_script name). quiet_call c"
  by (simp_all add: veth_script_def peer_script_def kill_script_def nat_script_def resolv_script_def
      runCommand_def Let_def)

lemma qext_configure_inside: "configure_inside E ns h = (r, h') \<Longrightarrow> qext h h'"
  by (auto simp: configure_inside_def applyKillSwitch_def split: prod.splits option.splits
      dest!: qext_run_all [OF _ script_quiet(2)] qext_run_all [OF _ script_quiet(3)]
      intro: qext_trans)

lemma thread_ns_issue: "quiet_call c \<Longrightarrow> thread_ns fd cur (issue E c h) = thread_ns fd cur h"
  by (rule qext_thread) (simp add: qext_issue)

lemma thread_ns_snoc:
  "thread_ns fd cur (h @ [(NsSet n, None)]) = n"
  "quiet_call c \<Longrightarrow> thread_ns fd cur (h @ [(c, e)]) = thread_ns fd cur h"
  "thread_ns fd cur (h @ [(NsSet n, Some e')]) = thread_ns fd cur h"
  by (simp_all add: thread_ns_append ns_effect_quiet)

lemma configurePeer_thread:
  assumes "get_is_current E fd cur" and "configurePeer E ns h = (r, h')"
    and "h' = h @ t" and "\<not> failed_in (NsSet (thread_ns fd cur h)) t"
  shows "thread_ns fd cur h' = thread_ns fd cur h"
proof -
  let ?h1 = "issue E LockOSThread h" and ?o = "thread_ns fd cur h"
  have t1: "thread_ns fd cur ?h1 = ?o" by (simp add: thread_ns_issue)
  have origin: "os_fd E ?h1 NsGet = ?o"
    using assms(1) t1 by (simp add: get_is_current_def)
  show ?thesis
  proof (cases "os_err E ?h1 NsGet")
    case (Some e)
    with assms(2) have "h' = issue E UnlockOSThread (?h1 @ [(NsGet, Some e)])"
      by (auto simp: configurePeer_def Let_def sys_def)
    then show ?thesis using t1 by (simp add: thread_ns_issue thread_ns_snoc)
  next
    case None
    let ?h2 = "?h1 @ [(NsGet, None)]"
    show ?thesis
    proof (cases "os_err E ?h2 (NsSet (ns_Handle ns))")
      case (Some e)
      with None assms(2) have "h' = issue E UnlockOSThread (issue E (NsClose ?o) (?h2 @ [(NsSet (ns_Handle ns), Some e)]))"
        by (auto simp: configurePeer_def Let_def sys_def origin)
      then show ?thesis using t1 by (simp add: thread_ns_issue thread_ns_append ns_effect_quiet)
    next
      case (None)
      obtain r' h3 where inside: "configure_inside E ns (?h2 @ [(NsSet (ns_Handle ns), None)]) = (r', h3)"
        by (cases "configure_inside E ns (?h2 @ [(NsSet (ns_Handle ns), None)])")
      with None \<open>os_err E ?h1 NsGet = None\<close> assms(2) have
        h': "h' = issue E UnlockOSThread (issue E (NsClose ?o) (issue E (NsSet ?o) h3))"
        by (auto simp: configurePeer_def Let_def sys_def origin)
      have "prefix h h3" using prefix_configure_inside [OF inside] by (auto simp: issue_eq prefix_def)
      then have "(NsSet ?o, os_err E h3 (NsSet ?o)) \<in> set t" using h' assms(3) by (auto simp: issue_eq prefix_def)
      then have "issue E (NsSet ?o) h3 = h3 @ [(NsSet ?o, None)]"
        using assms(4) by (cases "os_err E h3 (NsSet ?o)") (auto simp: issue_eq failed_in_def)
      then show ?thesis by (simp add: h' thread_ns_issue thread_ns_snoc)
    qed
  qed
qed

lemma thread_ns_destroyed: "thread_ns fd cur (destroyed E ns h) = thread_ns fd cur h"
proof -
  obtain h1 e where "qext h h1" and "qext (h1 @ [(NsDeleteNamed (ns_Name ns), e)]) (destroyed E ns h)"
    by (rule destroyed_split)
  then show ?thesis by (simp add: qext_thread thread_ns_snoc)
qed

text \<open>The only ways to lose the thread: \<open>NewNamed\<close> fails, or switching back does.\<close>

lemma create_in_thread:
  assumes "get_is_current E fd cur" and "create_in E name index (thread_ns fd cur h) h = (r, h')"
    and "h' = h @ t" and "\<not> failed_in (NsNewNamed name) t" and "\<not> failed_in (NsSet (thread_ns fd cur h)) t"
  shows "thread_ns fd cur h' = thread_ns fd cur h"
proof -
  let ?o = "thread_ns fd cur h" and ?ns = "new_namespace name index (os_fd E h (NsNewNamed name))"
  let ?h0 = "h @ [(NsNewNamed name, None), (NsSet ?o, None)]"
  have new_ok: "os_err E h (NsNewNamed name) = None"
  proof (rule ccontr)
    assume "os_err E h (NsNewNamed name) \<noteq> None"
    then obtain e where "h' = cleanupStaleNamespace E name (h @ [(NsNewNamed name, Some e)])"
      using assms(2) by (auto simp: create_in_def sys_def Let_def)
    then show False using qext_cleanup [of "h @ [(NsNewNamed name, Some e)]" "h @ [(NsNewNamed name, Some e)]" E name] assms(3,4)
      by (auto simp: qext_def failed_in_def)
  qed
  have set_ok: "os_err E (h @ [(NsNewNamed name, None)]) (NsSet ?o) = None"
  proof (rule ccontr)
    assume "os_err E (h @ [(NsNewNamed name, None)]) (NsSet ?o) \<noteq> None"
    then obtain e where "h' = cleanupStaleNamespace E name (issue E (NsClose (os_fd E h (NsNewNamed name)))
        (issue E (NsDeleteNamed name) (h @ [(NsNewNamed name, None), (NsSet ?o, Some e)])))"
      using assms(2) new_ok by (auto simp: create_in_def sys_def Let_def)
    moreover have "qext (h @ [(NsNewNamed name, None), (NsSet ?o, Some e)]) \<dots>" by (auto intro!: qext_cleanup qext_issue)
    ultimately show False using assms(3,5) by (auto simp: qext_def failed_in_def)
  qed
  have t0: "thread_ns fd cur ?h0 = ?o" by (simp add: thread_ns_append)
  obtain r1 h1 where s1: "createVethPair E ?ns ?h0 = (r1, h1)" by (cases "createVethPair E ?ns ?h0")
  obtain r2 h2 where s2: "configurePeer E ?ns h1 = (r2, h2)" by (cases "configurePeer E ?ns h1")
  obtain r3 h3 where s3: "run_all E (nat_script ?ns) h2 = (r3, h3)" by (cases "run_all E (nat_script ?ns) h2")
  obtain r4 h4 where s4: "writeNsResolvConf E name h3 = (r4, h4)" by (cases "writeNsResolvConf E name h3")
  have q1: "qext ?h0 h1" using s1 qext_run_all [OF _ script_quiet(1)] unfolding createVethPair_def by blast
  have t1: "thread_ns fd cur h1 = ?o" using qext_thread [OF q1] t0 by simp
  obtain u where u: "h2 = h1 @ u" using prefix_configurePeer [OF s2] by (auto simp: prefix_def)
  have q3: "qext h2 h3" using s3 qext_run_all [OF _ script_quiet(4)] by blast
  have q4: "qext h3 h4" using s4 qext_run_all [OF _ script_quiet(5)] unfolding writeNsResolvConf_def by blast
  have t2: "thread_ns fd cur h2 = ?o" if "prefix h2 h'"
  proof (rule trans [OF configurePeer_thread [OF assms(1) s2 u] t1])
    have "set u \<subseteq> set t" using that q1 assms(3) by (auto simp: u qext_def prefix_def)
    then show "\<not> failed_in (NsSet (thread_ns fd cur h1)) u" using assms(5) by (auto simp: t1 failed_in_def)
  qed
  have "h' = destroyed E ?ns h1 \<or> h' \<in> {destroyed E ?ns h2, destroyed E ?ns h3, destroyed E ?ns h4, h4}"
    using assms(2) new_ok set_ok s1 s2 s3 s4
    by (cases r1; cases r2; cases r3; cases r4) (simp_all add: create_in_def sys_def Let_def)
  then show ?thesis
  proof
    assume "h' \<in> {destroyed E ?ns h2, destroyed E ?ns h3, destroyed E ?ns h4, h4}"
    then obtain g where g: "qext h2 g" "h' = destroyed E ?ns g \<or> h' = g" using q3 q4 qext_trans by auto
    then have "prefix h2 h'" using prefix_destroyed by (auto simp: qext_def prefix_def)
    then show ?thesis using g t2 qext_thread [OF g(1)] thread_ns_destroyed by auto
  qed (simp add: thread_ns_destroyed t1)
qed

section \<open>What a failed creation leaves\<close>






section \<open>Properties\<close>

text \<open>
  C7: a namespace is handed out only when it is complete. If \<open>Create\<close> succeeds, the calls that
  were carried out contain, in this order, the new namespace, the veth pair, the switch into the
  namespace, its addresses and default route, every rule of the kill switch, the NAT rule and the
  resolver file; none of them failed.
\<close>

theorem Create_complete:
  assumes "Create E name index h = (Inr ns, h')"
  shows "0 \<le> index \<and> index \<le> 254 \<and> ns = new_namespace name index (ns_Handle ns) \<and>
    (\<exists>t. h' = h @ t \<and>
       subseq ([NsNewNamed name] @ map fst (veth_script ns) @ [NsSet (ns_Handle ns)] @
           map fst (peer_script ns) @ map (Exec ''iptables'') (kill_rules (ns_VethPeer ns)) @
           map fst (nat_script ns) @ map fst (resolv_script name))
         (done_calls t))"
proof -
  let ?h1 = "issue E LockOSThread (cleanupStaleNamespace E name h)"
  let ?h2 = "?h1 @ [(NsGet, None)]" and ?o = "os_fd E ?h1 NsGet"
  have range: "0 \<le> index" "index \<le> 254" and got: "os_err E ?h1 NsGet = None"
    and "\<exists>h3. create_in E name index ?o ?h2 = (Inr ns, h3) \<and> h' = issue E UnlockOSThread (issue E (NsClose ?o) h3)"
    using assms by (auto simp: Create_def sys_def Let_def split: if_splits option.splits prod.splits)
  then obtain h3 where c: "create_in E name index ?o ?h2 = (Inr ns, h3)"
    and h': "h' = issue E UnlockOSThread (issue E (NsClose ?o) h3)" by blast
  from c obtain g1 g2 g3 where ns: "ns = new_namespace name index (os_fd E ?h2 (NsNewNamed name))"
    and veth: "createVethPair E ns (?h2 @ [(NsNewNamed name, None), (NsSet ?o, None)]) = (None, g1)"
    and peer: "configurePeer E ns g1 = (None, g2)" and nat: "run_all E (nat_script ns) g2 = (None, g3)"
    and resolv: "writeNsResolvConf E name g3 = (None, h3)"
    by (rule create_in_Inr)
  have g1: "g1 = ?h2 @ [(NsNewNamed name, None), (NsSet ?o, None)] @ map (\<lambda>p. (fst p, None)) (veth_script ns)"
    using veth run_all_None unfolding createVethPair_def by force
  obtain t where g2: "g2 = g1 @ t" and t: "subseq ([NsSet (ns_Handle ns)] @ map fst (peer_script ns) @
      map (Exec ''iptables'') (kill_rules (ns_VethPeer ns))) (done_calls t)"
    using configurePeer_done [OF peer] by blast
  have g3: "g3 = g2 @ map (\<lambda>p. (fst p, None)) (nat_script ns)" using nat by (rule run_all_None)
  have h3: "h3 = g3 @ map (\<lambda>p. (fst p, None)) (resolv_script name)"
    using resolv unfolding writeNsResolvConf_def by (rule run_all_None)
  obtain q where q: "cleanupStaleNamespace E name h = h @ q" using qext_cleanup [of h h E name] by (auto simp: qext_def)
  define u where "u = (NsClose ?o, os_err E h3 (NsClose ?o)) #
    [(UnlockOSThread, os_err E (issue E (NsClose ?o) h3) UnlockOSThread)]"
  define pre where "pre = q @ [(LockOSThread, os_err E (cleanupStaleNamespace E name h) LockOSThread), (NsGet, None)]"
  let ?t = "pre @ [(NsNewNamed name, None), (NsSet ?o, None)] @ map (\<lambda>p. (fst p, None)) (veth_script ns) @
      t @ map (\<lambda>p. (fst p, None)) (nat_script ns) @ map (\<lambda>p. (fst p, None)) (resolv_script name) @ u"
  have "h' = h @ ?t"
    unfolding h' h3 g3 g2 g1 by (simp add: issue_eq q u_def pre_def g1 g2 g3 h3)
  moreover have "subseq ([NsNewNamed name] @ map fst (veth_script ns) @ ([NsSet (ns_Handle ns)] @
      map fst (peer_script ns) @ map (Exec ''iptables'') (kill_rules (ns_VethPeer ns))) @
      map fst (nat_script ns) @ map fst (resolv_script name)) (done_calls ?t)"
    unfolding done_calls_append done_calls_ok
    by (rule list_emb_append2, intro list_emb_append_mono list_emb_prefix t subseq_order.order_refl) simp
  moreover have "ns = new_namespace name index (ns_Handle ns)" by (simp add: ns new_namespace_def)
  ultimately show ?thesis using range by auto
qed

lemma subseq_set: "subseq xs ys \<Longrightarrow> x \<in> set xs \<Longrightarrow> x \<in> set ys"
  by (erule list_emb_set) auto

lemma sample_os_ok: "c \<noteq> OsStat ''/run/netns/worker-3'' \<Longrightarrow> os_err sample_os h c = None"
  by (simp add: sample_os_def)

lemma sample_os_scripts:
  "run_all sample_os (veth_script ns) h = (None, h @ map (\<lambda>p. (fst p, None)) (veth_script ns))"
  "run_all sample_os (peer_script ns) h = (None, h @ map (\<lambda>p. (fst p, None)) (peer_script ns))"
  "run_all sample_os (kill_script p) h = (None, h @ map (\<lambda>p. (fst p, None)) (kill_script p))"
  "run_all sample_os (nat_script ns) h = (None, h @ map (\<lambda>p. (fst p, None)) (nat_script ns))"
  "run_all sample_os (resolv_script n) h = (None, h @ map (\<lambda>p. (fst p, None)) (resolv_script n))"
  by (rule run_all_ok, simp add: sample_os_ok veth_script_def peer_script_def kill_script_def
      nat_script_def resolv_script_def runCommand_def Let_def kill_rules_def)+

lemma sample_Create: "\<exists>ns. fst (Create sample_os ''worker-3'' 3 []) = Inr ns"
  by (simp add: Create_def create_in_def createVethPair_def configurePeer_def configure_inside_def
      applyKillSwitch_def writeNsResolvConf_def sys_def sample_os_ok Let_def sample_os_scripts)

lemma sample_path: "filepath_Join ''/run/netns'' ''worker-3'' = ''/run/netns/worker-3''"
  by code_simp

lemma sample_Create_calls: "(c, Some e) \<in> set (snd (Create sample_os ''worker-3'' 3 [])) \<Longrightarrow> c = OsStat ''/run/netns/worker-3''"
  by (auto simp: Create_def create_in_def createVethPair_def configurePeer_def configure_inside_def cleanupStaleNamespace_def
      applyKillSwitch_def writeNsResolvConf_def sys_def issue_eq sample_os_ok Let_def sample_os_scripts sample_path split: option.splits)

theorem Create_complete_witness:
  "\<exists>ns h'. Create sample_os ''worker-3'' 3 [] = (Inr ns, h') \<and>
     ns = new_namespace ''worker-3'' 3 (ns_Handle ns) \<and>
     Exec ''iptables'' [''-P'', ''OUTPUT'', ''DROP''] \<in> set (done_calls h')"
proof -
  obtain ns h' where c: "Create sample_os ''worker-3'' 3 [] = (Inr ns, h')"
    using sample_Create by (metis prod.collapse)
  let ?last = "Exec ''iptables'' [''-P'', ''OUTPUT'', ''DROP'']"
  from Create_complete [OF c] obtain pre post where ns: "ns = new_namespace ''worker-3'' 3 (ns_Handle ns)"
    and "subseq (pre @ map (Exec ''iptables'') (kill_rules (ns_VethPeer ns)) @ post) (done_calls h')"
    by (metis append_Nil append_assoc)
  moreover have "?last \<in> set (map (Exec ''iptables'') (kill_rules (ns_VethPeer ns)))" by (simp add: kill_rules_def)
  ultimately have "?last \<in> set (done_calls h')" using subseq_set by fastforce
  with c ns show ?thesis by blast
qed




text \<open>
  C9: namespace operations do not lose the thread. When \<open>Get\<close> names the current namespace, the
  thread that ran \<open>Create\<close> is afterwards in the namespace it was in before, whether the creation
  succeeded or failed at any stage, unless \<open>NewNamed\<close> itself failed or the system refused a
  switch back to that namespace.
\<close>

theorem Create_restores_thread:
  assumes "get_is_current E fd cur" and "Create E name index h = (r, h')"
  shows "\<exists>t. h' = h @ t \<and>
    (thread_ns fd cur h' = thread_ns fd cur h \<or> failed_in (NsNewNamed name) t \<or> failed_in (NsSet (thread_ns fd cur h)) t)"
proof (cases "index < 0 \<or> index > 254")
  case True
  then show ?thesis using assms(2) by (auto simp: Create_def)
next
  case False
  let ?h1 = "issue E LockOSThread (cleanupStaleNamespace E name h)" and ?o = "thread_ns fd cur h"
  have q: "qext h ?h1" by (auto intro!: qext_issue qext_cleanup)
  then have t1: "thread_ns fd cur ?h1 = ?o" by (rule qext_thread)
  then have o: "os_fd E ?h1 NsGet = ?o" using assms(1) by (simp add: get_is_current_def)
  show ?thesis
  proof (cases "os_err E ?h1 NsGet")
    case (Some x)
    with False assms(2) have "h' = issue E UnlockOSThread (issue E NsGet ?h1)" by (auto simp: Create_def Let_def sys_def issue_eq)
    then have "qext h h'" using q by (auto intro!: qext_issue)
    then show ?thesis using qext_thread by (auto simp: qext_def)
  next
    case None
    let ?h2 = "?h1 @ [(NsGet, None)]"
    have t2: "thread_ns fd cur ?h2 = ?o" using t1 by (simp add: thread_ns_snoc)
    obtain r' h3 where c: "create_in E name index ?o ?h2 = (r', h3)" by (cases "create_in E name index ?o ?h2")
    then have h': "h' = issue E UnlockOSThread (issue E (NsClose ?o) h3)"
      using None False assms(2) by (auto simp: Create_def Let_def sys_def o)
    obtain u where u: "h3 = ?h2 @ u" using prefix_create_in [OF c] by (auto simp: prefix_def)
    obtain w where w: "?h1 = h @ w" using q by (auto simp: qext_def)
    have "thread_ns fd cur h' = ?o \<or> failed_in (NsNewNamed name) u \<or> failed_in (NsSet ?o) u"
      using create_in_thread [OF assms(1) c [folded t2] u] t2 by (auto simp: h' thread_ns_issue)
    moreover obtain v where "h' = h3 @ v" by (simp add: h' issue_eq)
    then have "h' = h @ w @ (NsGet, None) # u @ v" by (simp only: u w append_assoc append.simps)
    ultimately show ?thesis by (intro exI [of _ "w @ (NsGet, None) # u @ v"]) (auto simp: failed_in_def)
  qed
qed

theorem Create_restores_thread_witness:
  "thread_ns (\<lambda>_ _. Some 9) 7 (snd (Create sample_os ''worker-3'' 3 [])) = 7"
proof -
  obtain r h' where c: "Create sample_os ''worker-3'' 3 [] = (r, h')" by (metis surj_pair)
  have "get_is_current sample_os (\<lambda>_ _. Some 9) 7" by (simp add: get_is_current_def sample_os_def)
  from Create_restores_thread [OF this c] have
    "thread_ns (\<lambda>_ _. Some 9) 7 h' = 7 \<or> failed_in (NsNewNamed ''worker-3'') h' \<or> failed_in (NsSet 7) h'" by auto
  moreover have "\<not> failed_in (NsNewNamed ''worker-3'') h'" "\<not> failed_in (NsSet 7) h'"
    using sample_Create_calls c by (auto simp: failed_in_def)
  ultimately show ?thesis using c by auto
qed

text \<open>
  C37: namespaces of different workers share nothing. Two indices in the accepted range give
  different interface names, addresses and subnets; outside the range \<open>Create\<close> returns an error
  and touches nothing.
\<close>

theorem namespace_disjoint:
  assumes "0 \<le> i" and "i \<le> 254" and "0 \<le> j" and "j \<le> 254" and "i \<noteq> j"
  shows "ns_VethHost (new_namespace n i a) \<noteq> ns_VethHost (new_namespace m j b) \<and>
    ns_VethPeer (new_namespace n i a) \<noteq> ns_VethPeer (new_namespace m j b) \<and>
    ns_Subnet (new_namespace n i a) \<noteq> ns_Subnet (new_namespace m j b) \<and>
    ns_HostIP (new_namespace n i a) \<noteq> ns_HostIP (new_namespace m j b) \<and>
    ns_PeerIP (new_namespace n i a) \<noteq> ns_PeerIP (new_namespace m j b) \<and>
    (\<forall>k. k \<notin> {0..254} \<longrightarrow> (\<exists>e. Create E n k h = (Inl e, h)))"
proof -
  have "go_Itoa i \<noteq> go_Itoa j" using assms go_Itoa_inj by blast
  moreover have "(word_of_int i :: 8 word) \<noteq> word_of_int j"
  proof
    assume "(word_of_int i :: 8 word) = word_of_int j"
    then have "i mod 256 = j mod 256" by (simp add: word_of_int_eq_iff take_bit_eq_mod)
    with assms show False by simp
  qed
  ultimately show ?thesis by (auto simp: new_namespace_def Create_def)
qed


theorem namespace_disjoint_witness:
  "ns_Subnet (new_namespace ''worker-0'' 0 5) \<noteq> ns_Subnet (new_namespace ''worker-254'' 254 6) \<and>
   (\<exists>e. Create sample_os ''worker-255'' 255 [] = (Inl e, []))"
  using namespace_disjoint [of 0 254 "''worker-0''" 5 "''worker-254''" 6]
  namespace_disjoint [of 0 254 "''worker-255''" 5 "''worker-254''" 6 sample_os "[]"] by simp

lemma last_itoa_nat: "last (itoa_nat n) \<noteq> CHR ''+''"
  using itoa_nat_digits [of "last (itoa_nat n)" n] digit_char_not_sign by (metis itoa_nat_nonempty last_in_set)

lemma last_go_Itoa: "last (go_Itoa i) \<noteq> CHR ''+''" and go_Itoa_nonempty: "go_Itoa i \<noteq> []"
  using last_itoa_nat by (simp_all add: go_Itoa_def)

lemma kill_chain:
  "foldl chain_step c (kill_rules p) =
     ([[''-o'', ''lo'', ''-j'', ''ACCEPT''],
       [''-m'', ''conntrack'', ''--ctstate'', ''ESTABLISHED,RELATED'', ''-j'', ''ACCEPT''],
       [''-p'', ''udp'', ''-d'', ''1.1.1.1'', ''--dport'', ''53'', ''-j'', ''ACCEPT''],
       [''-p'', ''udp'', ''-d'', ''1.0.0.1'', ''--dport'', ''53'', ''-j'', ''ACCEPT''],
       [''-o'', ''tun+'', ''-j'', ''ACCEPT''], [''-o'', p, ''-j'', ''ACCEPT'']], ''DROP'')"
  by (cases c) (simp add: kill_rules_def)

text \<open>
  C36: what the kill switch lets out. Whatever the OUTPUT chain held before, after the rules a
  packet that is not on the loopback interface, not part of an established connection and not a
  DNS query to the two resolvers leaves exactly when its outgoing interface is a tunnel or the
  veth peer; everything else is dropped.
\<close>

theorem kill_switch_verdict:
  assumes "matches_out_iface matches oif"
    and "\<not> matches [''-m'', ''conntrack'', ''--ctstate'', ''ESTABLISHED,RELATED''] pkt"
    and "\<not> matches [''-p'', ''udp'', ''-d'', ''1.1.1.1'', ''--dport'', ''53''] pkt"
    and "\<not> matches [''-p'', ''udp'', ''-d'', ''1.0.0.1'', ''--dport'', ''53''] pkt"
    and "oif pkt \<noteq> ''lo''"
  shows "verdict matches (foldl chain_step chain (kill_rules (ns_VethPeer (new_namespace name i handle)))) pkt =
    (if prefix ''tun'' (oif pkt) \<or> oif pkt = ns_VethPeer (new_namespace name i handle)
     then ''ACCEPT'' else ''DROP'')"
proof -
  let ?p = "ns_VethPeer (new_namespace name i handle)"
  have "last ?p \<noteq> CHR ''+''" using last_go_Itoa go_Itoa_nonempty by (simp add: new_namespace_def)
  then have "matches [''-o'', ?p] pkt \<longleftrightarrow> oif pkt = ?p"
    using assms(1) by (simp add: matches_out_iface_def)
  moreover have "matches [''-o'', ''tun+''] pkt \<longleftrightarrow> prefix ''tun'' (oif pkt)" "\<not> matches [''-o'', ''lo''] pkt"
    using assms(1,5) by (simp_all add: matches_out_iface_def del: prefix_code)
  ultimately show ?thesis using assms(2-4) by (simp add: kill_chain del: prefix_code)
qed

theorem kill_switch_verdict_witness:
  "verdict iface_match (foldl chain_step ([], ''ACCEPT'') (kill_rules (ns_VethPeer (new_namespace ''worker-3'' 3 9)))) ''vpeer-3'' = ''ACCEPT'' \<and>
   verdict iface_match (foldl chain_step ([], ''ACCEPT'') (kill_rules (ns_VethPeer (new_namespace ''worker-3'' 3 9)))) ''eth0'' = ''DROP''"
proof -
  have m: "matches_out_iface iface_match (\<lambda>pkt. pkt)" by (simp add: matches_out_iface_def iface_match_def)
  have n: "ns_VethPeer (new_namespace ''worker-3'' 3 9) = ''vpeer-3''"
    by code_simp
  show ?thesis
    using kill_switch_verdict [OF m, of "''vpeer-3''" "([], ''ACCEPT'')" "''worker-3''" 3 9]
      kill_switch_verdict [OF m, of "''eth0''" "([], ''ACCEPT'')" "''worker-3''" 3 9]
    by (simp add: n iface_match_def)
qed

text \<open>
  \<open>Destroy\<close> always reports success, and whatever fails it attempts every step: the NAT rule,
  the named namespace and the resolver directory are deleted, in this order, and the handle is
  closed when it was open.
\<close>

theorem Destroy_attempts_all:
  assumes "ns_Subnet ns \<noteq> []"
  shows "\<exists>ns' h' t. Destroy E (Some ns) h = (None, Some ns', h') \<and> h' = h @ t \<and>
    subseq ([Exec ''iptables'' (nat_rule ''-D'' (ns_Subnet ns)), LinkByName (ns_VethHost ns),
             NsDeleteNamed (ns_Name ns)] @
            (if ns_Handle ns = -1 then [] else [NsClose (ns_Handle ns)]) @
            [OsRemoveAll (filepath_Join ''/etc/netns'' (ns_Name ns))]) (map fst t)"
proof -
  let ?h1 = "issue E (Exec ''iptables'' (nat_rule ''-D'' (ns_Subnet ns))) h"
  let ?h2 = "delete_host_link E ns ?h1"
  let ?h3 = "issue E (NsDeleteNamed (ns_Name ns)) ?h2"
  obtain ns' h4 where c: "close_handle E ns ?h3 = (ns', h4)" by (cases "close_handle E ns ?h3")
  let ?h5 = "cleanupStaleNamespace E (ns_Name ns) h4"
  let ?h6 = "issue E (OsRemoveAll (filepath_Join ''/etc/netns'' (ns_Name ns))) ?h5"
  obtain t2 where t2: "?h2 = ?h1 @ t2" "subseq [LinkByName (ns_VethHost ns)] (map fst t2)"
    by (rule delete_host_link_calls)
  obtain t4 where t4: "h4 = ?h3 @ t4"
      "subseq (if ns_Handle ns = -1 then [] else [NsClose (ns_Handle ns)]) (map fst t4)"
    using c by (rule close_handle_calls)
  obtain t5 where t5: "?h5 = h4 @ t5" using qext_cleanup [of h4 h4] by (auto simp: qext_def)
  have n: "ns_Name ns' = ns_Name ns" using close_handle_facts [OF c] by simp
  have "Destroy E (Some ns) h = (None, Some ns', ?h6)" using assms c n by (simp add: Destroy_def Let_def)
  moreover define t where "t = [(Exec ''iptables'' (nat_rule ''-D'' (ns_Subnet ns)), os_err E h (Exec ''iptables'' (nat_rule ''-D'' (ns_Subnet ns))))] @
     t2 @ [(NsDeleteNamed (ns_Name ns), os_err E ?h2 (NsDeleteNamed (ns_Name ns)))] @ t4 @ t5 @
     [(OsRemoveAll (filepath_Join ''/etc/netns'' (ns_Name ns)), os_err E ?h5 (OsRemoveAll (filepath_Join ''/etc/netns'' (ns_Name ns))))]"
  have "?h6 = h @ t" unfolding t_def using t2(1) t4(1) t5 by (simp add: issue_eq)
  moreover have "subseq ([Exec ''iptables'' (nat_rule ''-D'' (ns_Subnet ns))] @ [LinkByName (ns_VethHost ns)] @
      [NsDeleteNamed (ns_Name ns)] @ (if ns_Handle ns = -1 then [] else [NsClose (ns_Handle ns)]) @ [] @
            [OsRemoveAll (filepath_Join ''/etc/netns'' (ns_Name ns))]) (map fst t)"
    unfolding t_def map_append by (intro list_emb_append_mono t2(2) t4(2)) simp_all
  ultimately show ?thesis by auto
qed

theorem Destroy_attempts_all_witness:
  "\<exists>ns' h'. Destroy failing_os (Some (new_namespace ''worker-3'' 3 9)) [] = (None, Some ns', h') \<and>
     NsDeleteNamed ''worker-3'' \<in> fst ` set h'"
proof -
  let ?ns = "new_namespace ''worker-3'' 3 9"
  have "ns_Subnet ?ns \<noteq> []" by (simp add: new_namespace_def)
  from Destroy_attempts_all [OF this, of failing_os "[]"] obtain ns' h' where
    d: "Destroy failing_os (Some ?ns) [] = (None, Some ns', h')" and
    s: "subseq ([Exec ''iptables'' (nat_rule ''-D'' (ns_Subnet ?ns)), LinkByName (ns_VethHost ?ns),
             NsDeleteNamed (ns_Name ?ns)] @
            (if ns_Handle ?ns = -1 then [] else [NsClose (ns_Handle ?ns)]) @
            [OsRemoveAll (filepath_Join ''/etc/netns'' (ns_Name ?ns))]) (map fst h')" by auto
  have "NsDeleteNamed ''worker-3'' \<in> set (map fst h')"
    by (rule subseq_set [OF s]) (simp add: new_namespace_def)
  with d show ?thesis by auto
qed

end
