(* ===== verification/Worker.thy ===== *)
theory Worker
  imports Router Discovery Netns
begin

text \<open>
  \<open>internal/worker/worker_linux.go\<close>: one VPN connection, its lifecycle and its end. Every method
  runs under the worker's lock, so each is a function of the record; \<open>time.Now()\<close> is the argument
  \<open>now\<close>. The OpenVPN process is its process number, absent when there is none; \<open>sync.Once\<close> is the
  flag \<open>w_stopOnce\<close>. A namespace pointer that \<open>Stop\<close> destroys is written back with its handle closed.
  Counters of open connections are integers: 2 to the 63 connections cannot be open at once.

  The jittered lifetime is computed in \<open>float64\<close>: rounding to the nearest double is the parameter
  \<open>rnd\<close>, the value of \<open>rand.Float64()\<close> is the parameter \<open>r\<close>; \<open>float_ok\<close> and the interval of \<open>r\<close> are
  what the documentation of both promises.
\<close>

section \<open>Definitions\<close>

record worker =
  w_ID :: string
  w_Index :: int
  w_Server :: server
  w_State :: worker_state
  w_Namespace :: "namespace option"
  w_OvpnProcess :: "int option"
  w_ActiveConns :: int
  w_CreatedAt :: time
  w_LastUsed :: time
  w_effectiveMaxLifetime :: duration
  w_rotationScheduledAt :: time
  w_processExited :: bool
  w_stopOnce :: bool
  w_stopErr :: "err option"

definition NsHandle :: "worker \<Rightarrow> int" where
  "NsHandle w = (case w_Namespace w of None \<Rightarrow> -1 | Some ns \<Rightarrow> ns_Handle ns)"

definition Info :: "worker \<Rightarrow> worker_info" where
  "Info w = \<lparr>wi_ID = w_ID w, wi_Country = s_Country (w_Server w), wi_State = w_State w\<rparr>"

definition IncrConns :: "time \<Rightarrow> worker \<Rightarrow> worker" where
  "IncrConns now w =
     (let w = w\<lparr>w_ActiveConns := w_ActiveConns w + 1, w_LastUsed := now\<rparr> in
      if w_State w = WorkerIdle then w\<lparr>w_State := WorkerReady\<rparr> else w)"

definition DecrConns :: "time \<Rightarrow> worker \<Rightarrow> worker" where
  "DecrConns now w =
     (let w = w\<lparr>w_ActiveConns := w_ActiveConns w - 1\<rparr>;
          w = (if w_ActiveConns w < 0 then w\<lparr>w_ActiveConns := 0\<rparr> else w);
          w = w\<lparr>w_LastUsed := now\<rparr>
      in if w_ActiveConns w = 0 \<and> w_State w = WorkerReady then w\<lparr>w_State := WorkerIdle\<rparr> else w)"

definition IsIdle :: "worker \<Rightarrow> bool" where
  "IsIdle w \<longleftrightarrow> w_ActiveConns w = 0"

definition LastUsedAt :: "worker \<Rightarrow> time" where
  "LastUsedAt w = w_LastUsed w"

definition ProcessExited :: "worker \<Rightarrow> bool" where
  "ProcessExited w = w_processExited w"

definition markReady :: "time \<Rightarrow> worker \<Rightarrow> worker" where
  "markReady now w = w\<lparr>w_State := WorkerReady, w_LastUsed := now\<rparr>"

definition Age :: "time \<Rightarrow> worker \<Rightarrow> duration" where
  "Age now w = time_sub now (w_CreatedAt w)"

definition markClosing :: "worker \<Rightarrow> bool \<times> worker" where
  "markClosing w =
     (if w_State w = WorkerReady \<or> w_State w = WorkerIdle then (True, w\<lparr>w_State := WorkerClosing\<rparr>)
      else (False, w))"

definition isClosingDrained :: "worker \<Rightarrow> bool" where
  "isClosingDrained w \<longleftrightarrow> w_State w = WorkerClosing \<and> w_ActiveConns w = 0"

definition markAwaitingReplacement :: "time \<Rightarrow> worker \<Rightarrow> bool \<times> worker" where
  "markAwaitingReplacement now w =
     (if w_State w = WorkerReady \<or> w_State w = WorkerIdle
      then (True, w\<lparr>w_State := WorkerAwaitingReplacement, w_rotationScheduledAt := now\<rparr>)
      else (False, w))"

definition isAwaitingReplacement :: "worker \<Rightarrow> bool" where
  "isAwaitingReplacement w \<longleftrightarrow> w_State w = WorkerAwaitingReplacement"

definition rotationScheduledSince :: "worker \<Rightarrow> time" where
  "rotationScheduledSince w = w_rotationScheduledAt w"

definition markClosingFromAwaiting :: "worker \<Rightarrow> bool \<times> worker" where
  "markClosingFromAwaiting w =
     (if w_State w = WorkerAwaitingReplacement then (True, w\<lparr>w_State := WorkerClosing\<rparr>) else (False, w))"

definition effectiveLifetime :: "worker \<Rightarrow> duration" where
  "effectiveLifetime w = w_effectiveMaxLifetime w"

text \<open>Converting a float to an integer truncates towards zero.\<close>

definition go_trunc :: "real \<Rightarrow> int" where
  "go_trunc x = (if 0 \<le> x then \<lfloor>x\<rfloor> else \<lceil>x\<rceil>)"

definition computeEffectiveMaxLifetime :: "(real \<Rightarrow> real) \<Rightarrow> real \<Rightarrow> duration \<Rightarrow> int \<Rightarrow> duration" where
  "computeEffectiveMaxLifetime rnd r base jitterPct =
     (if base \<le> 0 \<or> jitterPct \<le> 0 then base
      else
        let jitterPct = (if jitterPct > 50 then 50 else jitterPct);
            cut = go_trunc (rnd (rnd (rnd (rnd (of_int base) * r) * rnd (of_int jitterPct)) / 100))
        in base - cut)"

text \<open>Rounding to a double is monotone and exact on the integers up to 2 to the 53.\<close>

definition float_ok :: "(real \<Rightarrow> real) \<Rightarrow> bool" where
  "float_ok rnd \<longleftrightarrow> mono rnd \<and> (\<forall>n :: int. \<bar>n\<bar> \<le> 2 ^ 53 \<longrightarrow> rnd (of_int n) = of_int n)"

text \<open>
  \<open>Stop\<close>: terminate, wait five seconds, kill, wait; then destroy the namespace. \<open>ProcWaitDone\<close> is the
  \<open>select\<close> between the process's end and the timer, and fails when the timer wins; \<open>ProcWait\<close> is the
  unconditional receive after a kill. The goroutine that waits for the process sets
  \<open>processExited\<close> before it closes the channel.
\<close>

definition stop_process :: "os \<Rightarrow> int \<Rightarrow> hist \<Rightarrow> err option \<times> hist" where
  "stop_process E pid h =
     (let h = issue E (ProcSignalTerm pid) h in
      case sys E (ProcWaitDone pid) h of
        (None, h) \<Rightarrow> (None, h)
      | (Some timer, h) \<Rightarrow>
          (case sys E (ProcKill pid) h of
             (Some e, h) \<Rightarrow> (Some (Wrapf ''kill openvpn process'' [] e), issue E (ProcWait pid) h)
           | (None, h) \<Rightarrow> (None, issue E (ProcWait pid) h)))"

definition Stop :: "os \<Rightarrow> worker \<Rightarrow> hist \<Rightarrow> err option \<times> worker \<times> hist" where
  "Stop E w h =
     (if w_stopOnce w then (w_stopErr w, w, h)
      else
        let w = w\<lparr>w_stopOnce := True, w_State := WorkerClosing\<rparr>;
            (w, h) =
              (case w_OvpnProcess w of
                 None \<Rightarrow> (w, h)
               | Some pid \<Rightarrow>
                   let (e, h) = stop_process E pid h in
                   (w\<lparr>w_processExited := True, w_stopErr := (if e \<noteq> None then e else w_stopErr w)\<rparr>, h));
            (w, h) =
              (case w_Namespace w of
                 None \<Rightarrow> (w, h)
               | Some ns \<Rightarrow>
                   (case Destroy E (Some ns) h of
                      (e, ns', h) \<Rightarrow>
                        (w\<lparr>w_Namespace := ns',
                           w_stopErr := (case e of
                              None \<Rightarrow> w_stopErr w
                            | Some x \<Rightarrow> if w_stopErr w = None then Some (Wrapf ''destroy namespace'' [] x)
                                        else w_stopErr w)\<rparr>, h)))
        in (w_stopErr w, w, h))"

subsection \<open>The lifecycle\<close>

text \<open>
  What can happen to a worker, as the manager's goroutines interleave: any method, at any time.
  \<open>markReady\<close> is called once, by the goroutine that is creating the worker.
\<close>

inductive worker_step :: "worker \<Rightarrow> worker \<Rightarrow> bool" where
  conn_opened: "worker_step w (IncrConns now w)"
| conn_closed: "worker_step w (DecrConns now w)"
| created: "w_State w = WorkerCreating \<Longrightarrow> worker_step w (markReady now w)"
| closing: "worker_step w (snd (markClosing w))"
| rotation: "worker_step w (snd (markAwaitingReplacement now w))"
| replaced: "worker_step w (snd (markClosingFromAwaiting w))"
| exited: "worker_step w (w\<lparr>w_processExited := True\<rparr>)"
| stop: "Stop E w h = (e, w', h') \<Longrightarrow> worker_step w w'"

inductive_cases worker_stepE: "worker_step w w'"

text \<open>The transitions of the lifecycle, staying included.\<close>

definition next_states :: "worker_state \<Rightarrow> worker_state set" where
  "next_states s =
     (case s of
        WorkerCreating \<Rightarrow> {WorkerCreating, WorkerReady, WorkerClosing}
      | WorkerReady \<Rightarrow> {WorkerReady, WorkerIdle, WorkerAwaitingReplacement, WorkerClosing}
      | WorkerIdle \<Rightarrow> {WorkerIdle, WorkerReady, WorkerAwaitingReplacement, WorkerClosing}
      | WorkerAwaitingReplacement \<Rightarrow> {WorkerAwaitingReplacement, WorkerClosing}
      | WorkerClosing \<Rightarrow> {WorkerClosing})"

definition worker_ok :: "worker \<Rightarrow> bool" where
  "worker_ok w \<longleftrightarrow> 0 \<le> w_ActiveConns w \<and> (w_State w = WorkerIdle \<longrightarrow> w_ActiveConns w = 0) \<and>
     (w_stopOnce w \<longrightarrow> w_State w = WorkerClosing)"

text \<open>A worker as the creation leaves it, for evaluation.\<close>

definition sample_worker :: worker where
  "sample_worker =
     \<lparr>w_ID = ''worker-3'', w_Index = 3,
      w_Server = \<lparr>s_Country = ''us'', s_Name = ''us-nyc'', s_OvpnPath = ''/ovpn/us-nyc.prod.ovpn''\<rparr>,
      w_State = WorkerCreating, w_Namespace = Some (new_namespace ''worker-3'' 3 9),
      w_OvpnProcess = Some 4242, w_ActiveConns = 0, w_CreatedAt = 1, w_LastUsed = 1,
      w_effectiveMaxLifetime = 60 * minute, w_rotationScheduledAt = 0, w_processExited = False,
      w_stopOnce = False, w_stopErr = None\<rparr>"

text \<open>How far along its life a worker is.\<close>

fun life_stage :: "worker_state \<Rightarrow> nat" where
  "life_stage WorkerCreating = 0"
| "life_stage WorkerReady = 1"
| "life_stage WorkerIdle = 1"
| "life_stage WorkerAwaitingReplacement = 2"
| "life_stage WorkerClosing = 3"

section \<open>Stopping\<close>

lemma stop_process_calls:
  assumes "stop_process E pid h = (e, h')"
  obtains t where "h' = h @ t" and "hd t = (ProcSignalTerm pid, os_err E h (ProcSignalTerm pid))" and "quiet t"
    and "(ProcWaitDone pid, None) \<in> set t \<or> ProcWait pid \<in> fst ` set t"
    and "e = None \<or> (\<exists>x. e = Some (Wrapf ''kill openvpn process'' [] x))"
    and "fst ` set t \<subseteq> {ProcSignalTerm pid, ProcWaitDone pid, ProcKill pid, ProcWait pid}"
  using assms by (auto simp: stop_process_def Let_def sys_def issue_eq split: option.splits)

lemma Stop_state: "Stop E w h = (e, w', h') \<Longrightarrow> \<not> w_stopOnce w \<Longrightarrow> w_State w' = WorkerClosing"
  by (auto simp: Stop_def Let_def split: option.splits prod.splits)

lemma Stop_keeps:
  "Stop E w h = (e, w', h') \<Longrightarrow>
     w_ID w' = w_ID w \<and> w_Index w' = w_Index w \<and> w_Server w' = w_Server w \<and> w_CreatedAt w' = w_CreatedAt w \<and>
     w_ActiveConns w' = w_ActiveConns w \<and> w_stopOnce w' \<and> w_stopErr w' = e"
  by (auto simp: Stop_def Let_def split: option.splits prod.splits if_splits)

lemma Destroy_None: "Destroy E (Some ns) h = (e, mns, h') \<Longrightarrow> e = None \<and> h' = destroyed E ns h"
  by (auto simp: destroyed_def Destroy_def Let_def split: prod.splits if_splits)

lemma Stop_running:
  assumes "\<not> w_stopOnce w" and "w_OvpnProcess w = Some pid" and "w_Namespace w = Some ns"
  obtains e ns' h1 where "stop_process E pid h = (e, h1)"
    and "Stop E w h = ((if e \<noteq> None then e else w_stopErr w),
      w\<lparr>w_stopOnce := True, w_State := WorkerClosing, w_processExited := True, w_Namespace := ns',
        w_stopErr := (if e \<noteq> None then e else w_stopErr w)\<rparr>, destroyed E ns h1)"
proof -
  obtain e h1 where p: "stop_process E pid h = (e, h1)" by (cases "stop_process E pid h")
  obtain x ns' h2 where d: "Destroy E (Some ns) h1 = (x, ns', h2)" by (cases "Destroy E (Some ns) h1")
  have "Stop E w h = ((if e \<noteq> None then e else w_stopErr w),
      w\<lparr>w_stopOnce := True, w_State := WorkerClosing, w_processExited := True, w_Namespace := ns',
        w_stopErr := (if e \<noteq> None then e else w_stopErr w)\<rparr>, destroyed E ns h1)"
    using Destroy_None [OF d] assms p d by (simp add: Stop_def Let_def)
  with p show thesis by (rule that)
qed

section \<open>Lifecycle\<close>

lemmas worker_ops = IncrConns_def DecrConns_def markReady_def markClosing_def
  markAwaitingReplacement_def markClosingFromAwaiting_def

lemma Stop_next: "Stop E w h = (e, w', h') \<Longrightarrow> worker_ok w \<Longrightarrow> w_State w' = WorkerClosing"
proof (cases "w_stopOnce w")
  case True
  then have "Stop E w h = (w_stopErr w, w, h)" by (simp add: Stop_def)
  with True show "Stop E w h = (e, w', h') \<Longrightarrow> worker_ok w \<Longrightarrow> ?thesis" by (simp add: worker_ok_def)
qed (simp add: Stop_state)

lemma worker_step_ok: "worker_step w w' \<Longrightarrow> worker_ok w \<Longrightarrow> worker_ok w'"
proof (induction rule: worker_step.induct)
  case (stop E w h e w' h')
  with Stop_next [OF stop(1)] Stop_keeps [OF stop(1)] show ?case by (auto simp: worker_ok_def)
qed (auto simp: worker_ok_def worker_ops Let_def)

lemma worker_step_states: "worker_step w w' \<Longrightarrow> worker_ok w \<Longrightarrow> w_State w' \<in> next_states (w_State w)"
proof (induction rule: worker_step.induct)
  case (stop E w h e w' h')
  with Stop_next [OF stop(1)] show ?case by (cases "w_State w") (auto simp: next_states_def)
qed (auto simp: next_states_def worker_ops Let_def split: worker_state.splits)

lemma worker_step_keeps:
  "worker_step w w' \<Longrightarrow> w_ID w' = w_ID w \<and> w_Index w' = w_Index w \<and> w_Server w' = w_Server w \<and> w_CreatedAt w' = w_CreatedAt w"
  by (induction rule: worker_step.induct) (auto simp: worker_ops Let_def dest: Stop_keeps)

lemma next_states_stage: "s' \<in> next_states s \<Longrightarrow> life_stage s \<le> life_stage s'"
  by (cases s) (auto simp: next_states_def)

section \<open>Properties\<close>

text \<open>
  C31: the lifecycle of a worker only moves forward. Through any interleaving of its methods, from
  creating over ready and idle to awaiting replacement and closing, no worker returns to an
  earlier stage; the connection count is never negative, an idle worker has no connection, a
  stopped worker is closing, and its identity, slot, server and creation time never change.
\<close>

theorem worker_lifecycle:
  assumes "worker_step\<^sup>*\<^sup>* w w'" and "worker_ok w"
  shows "worker_ok w' \<and> life_stage (w_State w) \<le> life_stage (w_State w') \<and>
    w_ID w' = w_ID w \<and> w_Index w' = w_Index w \<and> w_Server w' = w_Server w \<and> w_CreatedAt w' = w_CreatedAt w"
  using assms(1)
proof (induction rule: rtranclp_induct)
  case base
  show ?case using assms(2) by simp
next
  case (step v v')
  then have "life_stage (w_State v) \<le> life_stage (w_State v')"
    by (blast intro: next_states_stage worker_step_states)
  with step worker_step_ok worker_step_keeps show ?case by (metis order_trans)
qed

theorem worker_lifecycle_witness:
  "worker_ok (snd (markAwaitingReplacement 7 (IncrConns 6 (markReady 5 sample_worker)))) \<and>
   life_stage WorkerCreating \<le> life_stage (w_State (snd (markAwaitingReplacement 7 (IncrConns 6 (markReady 5 sample_worker)))))"
proof -
  let ?w1 = "markReady 5 sample_worker" and ?w2 = "IncrConns 6 (markReady 5 sample_worker)"
  have "worker_step\<^sup>*\<^sup>* sample_worker (snd (markAwaitingReplacement 7 ?w2))"
    by (rule rtranclp_trans [OF rtranclp_trans [OF r_into_rtranclp r_into_rtranclp] r_into_rtranclp])
      (rule worker_step.created [of sample_worker 5] worker_step.conn_opened worker_step.rotation |
        simp add: sample_worker_def)+
  moreover have "worker_ok sample_worker" "w_State sample_worker = WorkerCreating"
    by (simp_all add: worker_ok_def sample_worker_def)
  ultimately show ?thesis using worker_lifecycle by metis
qed

text \<open>
  C32: stopping a worker ends its process before it takes the namespace away, happens once and
  does not fail quietly. \<open>Stop\<close> signals the process first; the process's end is seen before the
  deletion of the namespace is issued; the error, if any, is that of the kill; and every later
  \<open>Stop\<close> returns the same error and does nothing.
\<close>

theorem Stop_once:
  assumes "\<not> w_stopOnce w" and "w_stopErr w = None" and "w_OvpnProcess w = Some pid" and "w_Namespace w = Some ns"
  shows "\<exists>e w' h1 h2 x. Stop E w h = (e, w', h2) \<and>
    w_State w' = WorkerClosing \<and> w_processExited w' \<and>
    (e = None \<or> (\<exists>x. e = Some (Wrapf ''kill openvpn process'' [] x))) \<and>
    prefix (h @ [(ProcSignalTerm pid, x)]) h1 \<and> prefix h1 h2 \<and>
    (\<exists>t. h1 = h @ t \<and> NsDeleteNamed (ns_Name ns) \<notin> fst ` set t \<and>
       ((ProcWaitDone pid, None) \<in> set t \<or> ProcWait pid \<in> fst ` set t)) \<and>
    (\<exists>u. h2 = h1 @ u \<and> NsDeleteNamed (ns_Name ns) \<in> fst ` set u) \<and>
    (\<forall>E' h3. Stop E' w' h3 = (e, w', h3))"
proof -
  obtain e ns' h1 where p: "stop_process E pid h = (e, h1)" and s: "Stop E w h = ((if e \<noteq> None then e else w_stopErr w),
      w\<lparr>w_stopOnce := True, w_State := WorkerClosing, w_processExited := True, w_Namespace := ns',
        w_stopErr := (if e \<noteq> None then e else w_stopErr w)\<rparr>, destroyed E ns h1)"
    using assms(1,3,4) by (rule Stop_running)
  have e: "(if e \<noteq> None then e else w_stopErr w) = e" using assms(2) by simp
  let ?w' = "w\<lparr>w_stopOnce := True, w_State := WorkerClosing, w_processExited := True, w_Namespace := ns', w_stopErr := e\<rparr>"
  obtain t where t: "h1 = h @ t" "hd t = (ProcSignalTerm pid, os_err E h (ProcSignalTerm pid))"
    "(ProcWaitDone pid, None) \<in> set t \<or> ProcWait pid \<in> fst ` set t"
    "e = None \<or> (\<exists>x. e = Some (Wrapf ''kill openvpn process'' [] x))"
    "fst ` set t \<subseteq> {ProcSignalTerm pid, ProcWaitDone pid, ProcKill pid, ProcWait pid}"
    using p by (rule stop_process_calls)
  then obtain t' where "t = (ProcSignalTerm pid, os_err E h (ProcSignalTerm pid)) # t'" by (cases t) auto
  then have "prefix (h @ [(ProcSignalTerm pid, os_err E h (ProcSignalTerm pid))]) h1" using t(1) by simp
  moreover obtain h4 y where "qext h1 h4" "qext (h4 @ [(NsDeleteNamed (ns_Name ns), y)]) (destroyed E ns h1)"
    by (rule destroyed_split)
  then obtain u where "destroyed E ns h1 = h1 @ u" "NsDeleteNamed (ns_Name ns) \<in> fst ` set u"
    by (force simp: qext_def)
  moreover have "\<forall>E' h3. Stop E' ?w' h3 = (e, ?w', h3)" by (simp add: Stop_def)
  moreover have "Stop E w h = (e, ?w', destroyed E ns h1)" using s e by simp
  moreover have "NsDeleteNamed (ns_Name ns) \<notin> fst ` set t" using t(5) by blast
  ultimately show ?thesis using t
    by (intro exI [of _ e] exI [of _ ?w'] exI [of _ h1] exI [of _ "destroyed E ns h1"]
        exI [of _ "os_err E h (ProcSignalTerm pid)"]) auto
qed

theorem Stop_once_witness:
  "\<exists>e w' h'. Stop failing_os sample_worker [] = (e, w', h') \<and> w_processExited w' \<and> Stop failing_os w' [] = (e, w', [])"
  using Stop_once [of sample_worker 4242 "new_namespace ''worker-3'' 3 9" failing_os "[]"]
  by (auto simp: sample_worker_def)

text \<open>
  The jittered lifetime stays within the promised cut. For a lifetime that is a multiple of 100
  nanoseconds and at most 2 to the 53 over 50 (fifty hours), whatever the random number, the
  effective lifetime is at most the configured one and at least what the percentage (capped at 50)
  leaves of it, in spite of the rounding of floating-point arithmetic.
\<close>

theorem effective_lifetime_bounds:
  assumes "float_ok rnd" and "0 \<le> r" and "r < 1" and "100 dvd base" and "0 \<le> base" and "base * 50 \<le> 2 ^ 53"
  shows "computeEffectiveMaxLifetime rnd r base j \<le> base \<and>
    base - base * max 0 (min 50 j) div 100 \<le> computeEffectiveMaxLifetime rnd r base j"
proof (cases "base \<le> 0 \<or> j \<le> 0")
  case True
  with assms(5) show ?thesis by (auto simp: computeEffectiveMaxLifetime_def max_def min_def)
next
  case False
  let ?j = "min 50 j"
  have cap: "(if j > 50 then 50 else j) = ?j" by simp
  have mono: "x \<le> y \<Longrightarrow> rnd x \<le> rnd y" for x y using assms(1) by (auto simp: float_ok_def mono_def)
  have exact: "\<bar>n\<bar> \<le> 2 ^ 53 \<Longrightarrow> rnd (of_int n) = of_int n" for n :: int
    using assms(1) by (auto simp: float_ok_def)
  have z: "rnd 0 = 0" using exact [of 0] by simp
  have b: "rnd (of_int base) = of_int base" using exact [of base] assms(5,6) by simp
  have jj: "rnd (of_int ?j) = of_int ?j" "0 \<le> ?j" using exact [of ?j] False by (auto simp: min_def)
  define x where "x = rnd (of_int base * r)"
  have x: "0 \<le> x" "x \<le> of_int base"
    unfolding x_def using mono [of 0 "of_int base * r"] mono [of "of_int base * r" "of_int base"] assms(2,3,5) z b
    by (simp_all add: mult_left_le)
  define y where "y = rnd (x * of_int ?j)"
  have le: "base * ?j \<le> base * 50" using assms(5) by (intro mult_left_mono) auto
  have "rnd (of_int (base * ?j)) = of_int (base * ?j)" using exact [of "base * ?j"] le assms(5,6) jj(2) by simp
  moreover have "x * of_int ?j \<le> of_int base * of_int ?j" using x jj(2) by (intro mult_right_mono) simp_all
  ultimately have y: "0 \<le> y" "y \<le> of_int (base * ?j)"
    unfolding y_def using mono [of 0 "x * of_int ?j"] mono [of "x * of_int ?j" "of_int (base * ?j)"] x jj(2) z
    by simp_all
  obtain k where k: "base = 100 * k" using assms(4) by blast
  have "rnd (y / 100) \<le> rnd (of_int (k * ?j))" using y(2) k by (intro mono) simp
  moreover have "rnd (of_int (k * ?j)) = of_int (k * ?j)" using le assms(5,6) k jj(2) by (intro exact) simp
  moreover have "0 \<le> rnd (y / 100)" using mono [of 0 "y / 100"] y(1) z by simp
  ultimately have "0 \<le> go_trunc (rnd (y / 100))" "go_trunc (rnd (y / 100)) \<le> k * ?j"
    by (auto simp: go_trunc_def floor_le_iff)
  moreover have "computeEffectiveMaxLifetime rnd r base j = base - go_trunc (rnd (y / 100))"
    using False b jj(1) unfolding computeEffectiveMaxLifetime_def Let_def x_def y_def cap by simp
  moreover have "base * max 0 ?j div 100 = k * ?j" using k jj(2) by (simp add: max_def)
  ultimately show ?thesis by simp
qed

theorem effective_lifetime_bounds_witness:
  "computeEffectiveMaxLifetime (\<lambda>x. x) (1 / 2) (60 * minute) 20 \<le> 60 * minute \<and>
   48 * minute \<le> computeEffectiveMaxLifetime (\<lambda>x. x) (1 / 2) (60 * minute) 20"
  using effective_lifetime_bounds [of "\<lambda>x. x" "1 / 2" "60 * minute" 20]
  by (simp add: float_ok_def mono_def minute_def second_def)

end
