(* ===== verification/Manager.thy ===== *)
theory Manager
  imports Worker
begin

text \<open>
  \<open>internal/worker/manager_linux.go\<close>: the pool of workers. Workers are shared objects: the pool,
  the preconnect coordinator and the loops that stop workers hold pointers to them, and identifiers
  are reused, so the model keeps a store (\<open>m_store\<close>, a list of worker objects) and pointers are
  positions in it (\<open>wref\<close>). A channel of capacity one is a flag, the wait group and the semaphore
  are their counts, \<open>rootCtx\<close> is whether it is cancelled, and the set of used indexes is the set
  of keys of the map (its values are always true).

  An operation that holds the manager's lock throughout is one function on the record. Operations
  that create or stop workers also extend the history of system calls. The environment \<open>env\<close> holds
  what is not in this repository: the operating system, floating-point rounding, the random number
  generator and \<open>singleflight.Group.Do\<close>. \<open>checkWorkers\<close> takes the clock reading used while
  each worker is examined, and the session manager, absent when the pointer is nil.

  \<open>waitForTun\<close> polls every 500 ms under a timeout of 30 s, so at most 60 ticks arrive before the
  deadline; after the last one the context's own timer ends the wait.

  The interpretation of \<open>worker_pool_contract\<close> at the end discharges for this manager what the
  router relies on.
\<close>

section \<open>Definitions\<close>

type_synonym wref = nat

record manager =
  m_store :: "worker list"
  m_workers :: "(string, wref) gomap"
  m_usedIndexes :: "int set"
  m_servers :: server_map
  m_authFile :: string
  m_idleTimeout :: duration
  m_maxLifetime :: duration
  m_minPoolSize :: int
  m_verbose :: bool
  m_wakeup :: bool
  m_grow :: bool
  m_rootDone :: bool
  m_createWg :: int
  m_preconnectSignal :: bool
  m_preconnectSem :: int
  m_preconnectInflight :: "wref set"
  m_preconnectConcurrency :: int
  m_rotationGrace :: duration
  m_lifetimeJitterPct :: int

record env =
  e_os :: os
  e_round :: "real \<Rightarrow> real"
  e_rand :: "hist \<Rightarrow> real"
  e_do :: "string \<Rightarrow> (manager \<times> hist \<Rightarrow> worker_info result \<times> manager \<times> hist) \<Rightarrow>
           manager \<times> hist \<Rightarrow> worker_info result \<times> manager \<times> hist"

text \<open>\<open>Do\<close> runs the function when no call with the same key is in flight.\<close>

definition singleflight_runs :: "env \<Rightarrow> bool" where
  "singleflight_runs E \<longleftrightarrow> (\<forall>key fn s. e_do E key fn s = fn s)"

definition createMaxAttempts :: int where "createMaxAttempts = 3"
definition maxNamespaceIndex :: int where "maxNamespaceIndex = 254"
definition maxWorkerSlots :: int where "maxWorkerSlots = maxNamespaceIndex + 1"
definition reservedForOnDemand :: int where "reservedForOnDemand = 5"

definition cloneServers :: "server_map \<Rightarrow> server_map" where
  "cloneServers srvs = map (\<lambda>(country, group). (country, sort_slice s_Name group)) srvs"

text \<open>\<open>New\<close>: \<open>Inl\<close> is the panic.\<close>

definition New ::
  "server_map \<Rightarrow> string \<Rightarrow> duration \<Rightarrow> duration \<Rightarrow> int \<Rightarrow> bool \<Rightarrow> int \<Rightarrow> int \<Rightarrow> duration \<Rightarrow> manager result" where
  "New srvs authFile idleTimeout maxLifetime minPoolSize verbose preconnectConcurrency jitterPct rotationGrace =
     (let minPoolSize = (if minPoolSize < 0 then 0 else minPoolSize) in
      if minPoolSize \<ge> maxWorkerSlots then Inl (Errorf ''MIN_POOL_SIZE too large'' [go_Itoa minPoolSize])
      else if minPoolSize * 2 + reservedForOnDemand > maxWorkerSlots then
        Inl (Errorf ''rotation footprint too large'' [go_Itoa minPoolSize])
      else
        let preconnectConcurrency = (if preconnectConcurrency \<le> 0 then 1 else preconnectConcurrency);
            jitterPct = (if jitterPct < 0 then 0 else if jitterPct > 50 then 50 else jitterPct)
        in Inr \<lparr>m_store = [], m_workers = [], m_usedIndexes = {}, m_servers = cloneServers srvs,
             m_authFile = authFile, m_idleTimeout = idleTimeout, m_maxLifetime = maxLifetime,
             m_minPoolSize = minPoolSize, m_verbose = verbose, m_wakeup = False, m_grow = False,
             m_rootDone = False, m_createWg = 0, m_preconnectSignal = False, m_preconnectSem = 0,
             m_preconnectInflight = {}, m_preconnectConcurrency = preconnectConcurrency,
             m_rotationGrace = rotationGrace, m_lifetimeJitterPct = jitterPct\<rparr>)"

subsection \<open>Signals, the store, indexes\<close>

definition signalWakeup :: "manager \<Rightarrow> manager" where
  "signalWakeup m = m\<lparr>m_wakeup := signal (m_wakeup m)\<rparr>"

definition signalGrow :: "manager \<Rightarrow> manager" where
  "signalGrow m = m\<lparr>m_grow := signal (m_grow m)\<rparr>"

definition signalPreconnect :: "manager \<Rightarrow> manager" where
  "signalPreconnect m = m\<lparr>m_preconnectSignal := signal (m_preconnectSignal m)\<rparr>"

definition worker_at :: "manager \<Rightarrow> wref \<Rightarrow> worker" where
  "worker_at m r = m_store m ! r"

definition set_worker :: "manager \<Rightarrow> wref \<Rightarrow> worker \<Rightarrow> manager" where
  "set_worker m r w = m\<lparr>m_store := (m_store m)[r := w]\<rparr>"

definition alloc_worker :: "manager \<Rightarrow> worker \<Rightarrow> wref \<times> manager" where
  "alloc_worker m w = (length (m_store m), m\<lparr>m_store := m_store m @ [w]\<rparr>)"

definition pool_infos :: "manager \<Rightarrow> worker_info list" where
  "pool_infos m = map (\<lambda>(i, r). Info (worker_at m r)) (m_workers m)"

definition countReady :: "manager \<Rightarrow> int" where
  "countReady m =
     foldl (\<lambda>count info.
         if wi_State info \<in> {WorkerReady, WorkerIdle, WorkerAwaitingReplacement} then count + 1 else count)
       0 (pool_infos m)"

definition acquireIndex :: "manager \<Rightarrow> int \<times> manager" where
  "acquireIndex m =
     (case find (\<lambda>candidate. candidate \<notin> m_usedIndexes m) [0..maxNamespaceIndex] of
        Some candidate \<Rightarrow> (candidate, m\<lparr>m_usedIndexes := insert candidate (m_usedIndexes m)\<rparr>)
      | None \<Rightarrow> (-1, m))"

definition releaseIndex :: "manager \<Rightarrow> int \<Rightarrow> manager" where
  "releaseIndex m index = m\<lparr>m_usedIndexes := m_usedIndexes m - {index}\<rparr>"

subsection \<open>Queries\<close>

definition GetReadyWorkers :: "manager \<Rightarrow> string \<Rightarrow> worker_info list" where
  "GetReadyWorkers m country =
     sort_slice wi_ID
       (filter (\<lambda>info. wi_State info \<in> {WorkerReady, WorkerIdle, WorkerAwaitingReplacement} \<and>
                      (country = [] \<or> wi_Country info = country)) (pool_infos m))"

definition GetRoutableWorkers :: "manager \<Rightarrow> string \<Rightarrow> worker_info list" where
  "GetRoutableWorkers m country =
     (let (active, awaiting) =
        foldl (\<lambda>(active, awaiting) info.
            if country \<noteq> [] \<and> wi_Country info \<noteq> country then (active, awaiting)
            else case wi_State info of
                WorkerReady \<Rightarrow> (active @ [info], awaiting)
              | WorkerIdle \<Rightarrow> (active @ [info], awaiting)
              | WorkerAwaitingReplacement \<Rightarrow> (active, awaiting @ [info])
              | _ \<Rightarrow> (active, awaiting))
          ([], []) (pool_infos m);
          result = (if length active = 0 then awaiting else active)
      in sort_slice wi_ID result)"

definition pickReady :: "manager \<Rightarrow> string \<Rightarrow> worker_info option" where
  "pickReady m country =
     (let routable = GetRoutableWorkers m country in
      if length routable = 0 then None else Some (routable ! 0))"

definition serverCandidates :: "manager \<Rightarrow> string \<Rightarrow> server list result" where
  "serverCandidates m country =
     (if country \<noteq> [] then
        let srvs = country_group (m_servers m) country in
        if length srvs = 0 then Inl (Errorf ''no surfshark servers available for country'' [country]) else Inr srvs
      else
        let srvs = concat (map snd (m_servers m)) in
        if length srvs = 0 then Inl (Errorf ''no surfshark servers discovered'' [])
        else Inr (sort_slice (\<lambda>s. (s_Country s, s_Name s)) srvs))"

definition GetWorkerNsHandle :: "manager \<Rightarrow> string \<Rightarrow> int result" where
  "GetWorkerNsHandle m workerID =
     (case mget (m_workers m) workerID of
        None \<Rightarrow> Inl (Errorf ''worker not found'' [workerID])
      | Some r \<Rightarrow> Inr (NsHandle (worker_at m r)))"

definition TrackConn :: "time \<Rightarrow> manager \<Rightarrow> string \<Rightarrow> manager" where
  "TrackConn now m workerID =
     (case mget (m_workers m) workerID of
        None \<Rightarrow> m
      | Some r \<Rightarrow> set_worker m r (IncrConns now (worker_at m r)))"

definition UntrackConn :: "time \<Rightarrow> manager \<Rightarrow> string \<Rightarrow> manager" where
  "UntrackConn now m workerID =
     (case mget (m_workers m) workerID of
        None \<Rightarrow> m
      | Some r \<Rightarrow> set_worker m r (DecrConns now (worker_at m r)))"

subsection \<open>Creating workers\<close>

fun waitForTun :: "os \<Rightarrow> string \<Rightarrow> nat \<Rightarrow> hist \<Rightarrow> err option \<times> hist" where
  "waitForTun E name 0 h = (Some (Wrapf ''namespace wait cancelled'' [name] DeadlineExceeded), h)"
| "waitForTun E name (Suc ticks) h =
     (case sys E WaitTick h of
        (Some e, h) \<Rightarrow> (Some (Wrapf ''namespace wait cancelled'' [name] e), h)
      | (None, h) \<Rightarrow>
          let show_tun = Exec ''ip'' [''netns'', ''exec'', name, ''ip'', ''link'', ''show'', ''type'', ''tun''];
              output = os_fd E h show_tun
          in case sys E show_tun h of
               (None, h) \<Rightarrow> if output > 0 then (None, h) else waitForTun E name ticks h
             | (Some e, h) \<Rightarrow> waitForTun E name ticks h)"

definition tun_ticks :: nat where
  "tun_ticks = nat (30 * second div (second div 2))"

definition openvpn_args :: "manager \<Rightarrow> string \<Rightarrow> server \<Rightarrow> string list" where
  "openvpn_args m name srv =
     [''ip'', ''netns'', ''exec'', name, ''openvpn'', ''--config'', s_OvpnPath srv,
      ''--auth-user-pass'', m_authFile m, ''--auth-nocache'',
      ''--verb'', if m_verbose m then ''3'' else ''1'',
      ''--connect-retry'', ''3'', ''--connect-timeout'', ''30'']"

definition diagnoseNetns :: "os \<Rightarrow> string \<Rightarrow> hist \<Rightarrow> hist" where
  "diagnoseNetns E name h =
     foldl (\<lambda>h args. issue E (Exec ''ip'' ([''netns'', ''exec'', name] @ args)) h) h
       [[''cat'', ''/etc/resolv.conf''], [''ip'', ''addr''], [''ip'', ''route''],
        [''ping'', ''-c'', ''1'', ''-W'', ''3'', ''1.1.1.1'']]"

definition start_openvpn :: "os \<Rightarrow> manager \<Rightarrow> string \<Rightarrow> server \<Rightarrow> hist \<Rightarrow> int result \<times> hist" where
  "start_openvpn E m name srv h =
     (let start = ProcStart (openvpn_args m name srv);
          script = (if m_verbose m
                    then [(StdoutPipe, Wrapf ''pipe openvpn stdout'' []), (StderrPipe, Wrapf ''pipe openvpn stderr'' [])]
                    else []) @ [(start, Wrapf ''start openvpn'' [])]
      in case run_all E script h of
           (Some e, h) \<Rightarrow> (Inl e, h)
         | (None, h) \<Rightarrow> (Inr (os_fd E h start), if m_verbose m then diagnoseNetns E name h else h))"

definition await_tun :: "os \<Rightarrow> string \<Rightarrow> hist \<Rightarrow> err option \<times> hist" where
  "await_tun E name h =
     (case sys E CtxErr h of
        (Some e, h) \<Rightarrow> (Some (Wrapf ''create cancelled after start'' [] e), h)
      | (None, h) \<Rightarrow>
     (case waitForTun E name tun_ticks h of
        (Some e, h) \<Rightarrow> (Some (Wrapf ''wait for tun device'' [] e), h)
      | (None, h) \<Rightarrow>
     (case sys E CtxErr h of
        (Some e, h) \<Rightarrow> (Some (Wrapf ''create cancelled after tun ready'' [] e), h)
      | (None, h) \<Rightarrow> (None, h))))"

definition worker_name :: "int \<Rightarrow> string" where
  "worker_name index = ''worker-'' @ go_Itoa index"

definition new_worker :: "env \<Rightarrow> manager \<Rightarrow> server \<Rightarrow> int \<Rightarrow> namespace \<Rightarrow> int \<Rightarrow> hist \<Rightarrow> worker" where
  "new_worker E m srv index ns pid h =
     \<lparr>w_ID = worker_name index, w_Index = index, w_Server = srv, w_State = WorkerCreating,
      w_Namespace = Some ns, w_OvpnProcess = Some pid, w_ActiveConns = 0,
      w_CreatedAt = os_fd (e_os E) h TimeNow, w_LastUsed = os_fd (e_os E) h TimeNow,
      w_effectiveMaxLifetime =
        computeEffectiveMaxLifetime (e_round E) (e_rand E h) (m_maxLifetime m) (m_lifetimeJitterPct m),
      w_rotationScheduledAt = 0, w_processExited = False, w_stopOnce = False, w_stopErr = None\<rparr>"

definition build_worker :: "env \<Rightarrow> manager \<Rightarrow> server \<Rightarrow> int \<Rightarrow> hist \<Rightarrow> worker result \<times> hist" where
  "build_worker E m srv index h =
     (let os = e_os E; name = worker_name index in
      case Create os name index h of
        (Inl e, h) \<Rightarrow> (Inl (Wrapf ''create namespace'' [name] e), h)
      | (Inr ns, h) \<Rightarrow>
     (case sys os CtxErr h of
        (Some e, h) \<Rightarrow> (Inl (Wrapf ''create cancelled before start'' [] e), destroyed os ns h)
      | (None, h) \<Rightarrow>
     (case start_openvpn os m name srv h of
        (Inl e, h) \<Rightarrow> (Inl e, destroyed os ns h)
      | (Inr pid, h) \<Rightarrow>
          let w = new_worker E m srv index ns pid h in
     (case await_tun os name h of
        (Some e, h) \<Rightarrow> (Inl e, snd (snd (Stop os w h)))
      | (None, h) \<Rightarrow> (Inr (markReady (os_fd os h TimeNow) w), h)))))"

definition createWorker :: "env \<Rightarrow> manager \<Rightarrow> server \<Rightarrow> int \<Rightarrow> hist \<Rightarrow> wref result \<times> manager \<times> hist" where
  "createWorker E m srv index h =
     (let m = m\<lparr>m_createWg := m_createWg m + 1\<rparr>;
          (r, h) = build_worker E m srv index h;
          (x, m) = (case r of Inl e \<Rightarrow> (Inl e, m) | Inr w \<Rightarrow> map_prod Inr id (alloc_worker m w))
      in (x, m\<lparr>m_createWg := m_createWg m - 1\<rparr>, h))"

text \<open>The goroutine that waits for the process of a worker, when it ends.\<close>

definition process_ended :: "manager \<Rightarrow> wref \<Rightarrow> manager" where
  "process_ended m r = signalWakeup (set_worker m r ((worker_at m r)\<lparr>w_processExited := True\<rparr>))"

fun try_loop ::
  "env \<Rightarrow> server list \<Rightarrow> string \<Rightarrow> nat \<Rightarrow> int \<Rightarrow> err \<Rightarrow> manager \<Rightarrow> hist \<Rightarrow> wref result \<times> manager \<times> hist" where
  "try_loop E candidates country 0 attempt lastErr m h =
     (Inl (Wrapf ''unable to create worker for country'' [country] lastErr), m, h)"
| "try_loop E candidates country (Suc n) attempt lastErr m h =
     (case sys (e_os E) CtxErr h of
        (Some e, h) \<Rightarrow> (Inl e, m, h)
      | (None, h) \<Rightarrow>
          let (index, m) = acquireIndex m in
          if index < 0 then (Inl (Errorf ''namespace index pool exhausted'' [go_Itoa (maxNamespaceIndex + 1)]), m, h)
          else
            let srv = candidates ! nat ((index + attempt) mod int (length candidates)) in
            (case createWorker E m srv index h of
               (Inr r, m, h) \<Rightarrow> (Inr r, m, h)
             | (Inl e, m, h) \<Rightarrow> try_loop E candidates country n (attempt + 1) e (releaseIndex m index) h))"

definition tryCreate :: "env \<Rightarrow> manager \<Rightarrow> string \<Rightarrow> hist \<Rightarrow> wref result \<times> manager \<times> hist" where
  "tryCreate E m country h =
     (case serverCandidates m country of
        Inl e \<Rightarrow> (Inl e, m, h)
      | Inr candidates \<Rightarrow>
          let attempts = (if int (length candidates) < createMaxAttempts then int (length candidates)
                          else createMaxAttempts)
          in try_loop E candidates country (nat attempts) 0 (Errorf ''nil'' []) m h)"

definition insert_worker :: "manager \<Rightarrow> wref \<Rightarrow> manager" where
  "insert_worker m r = m\<lparr>m_workers := mput (m_workers m) (w_ID (worker_at m r)) r\<rparr>"

definition publishWorker :: "env \<Rightarrow> manager \<Rightarrow> wref \<Rightarrow> hist \<Rightarrow> bool \<times> manager \<times> hist" where
  "publishWorker E m r h =
     (if m_rootDone m then
        let m = releaseIndex m (w_Index (worker_at m r));
            (e, w, h) = Stop (e_os E) (worker_at m r) h
        in (False, set_worker m r w, h)
      else (True, insert_worker m r, h))"

definition createForCountry :: "env \<Rightarrow> manager \<Rightarrow> string \<Rightarrow> hist \<Rightarrow> worker_info result \<times> manager \<times> hist" where
  "createForCountry E m country h =
     (case tryCreate E m country h of
        (Inl e, m, h) \<Rightarrow> (Inl e, m, h)
      | (Inr r, m, h) \<Rightarrow>
          (case publishWorker E m r h of
             (False, m, h) \<Rightarrow> (Inl ContextCanceled, m, h)
           | (True, m, h) \<Rightarrow> (Inr (Info (worker_at m r)), m, h)))"

definition createForCountryStaged :: "env \<Rightarrow> manager \<Rightarrow> string \<Rightarrow> hist \<Rightarrow> wref result \<times> manager \<times> hist" where
  "createForCountryStaged E m country h = tryCreate E m country h"

definition RequestWorker :: "env \<Rightarrow> manager \<Rightarrow> string \<Rightarrow> hist \<Rightarrow> worker_info result \<times> manager \<times> hist" where
  "RequestWorker E m country h =
     e_do E (if country = [] then ''__any__'' else country)
       (\<lambda>(m, h). case pickReady m country of
          Some ready \<Rightarrow> (Inr ready, m, h)
        | None \<Rightarrow> createForCountry E m country h) (m, h)"

definition manager_pool :: "env \<Rightarrow> (manager \<times> hist) worker_pool" where
  "manager_pool E =
     \<lparr>pool_GetReadyWorkers = (\<lambda>(m, h). GetReadyWorkers m),
      pool_GetRoutableWorkers = (\<lambda>(m, h). GetRoutableWorkers m),
      pool_RequestWorker = (\<lambda>(m, h) country. RequestWorker E m country h)\<rparr>"

subsection \<open>Health check, warm-up, shutdown\<close>

type_synonym victim = "string \<times> wref \<times> string"

definition evict :: "manager \<Rightarrow> string \<Rightarrow> wref \<Rightarrow> manager" where
  "evict m wid r = releaseIndex (m\<lparr>m_workers := mdel (m_workers m) wid\<rparr>) (w_Index (worker_at m r))"

definition check_lifetime :: "time \<Rightarrow> manager \<Rightarrow> wref \<Rightarrow> bool \<times> manager" where
  "check_lifetime now m r =
     (if m_maxLifetime m > 0 then
        let lifetime = effectiveLifetime (worker_at m r);
            lifetime = (if lifetime = 0 then m_maxLifetime m else lifetime)
        in if lifetime > 0 \<and> Age now (worker_at m r) > lifetime then
             map_prod id (set_worker m r) (markAwaitingReplacement now (worker_at m r))
           else (False, m)
      else (False, m))"

definition idle_timed_out :: "time \<Rightarrow> sessionManager option \<Rightarrow> manager \<Rightarrow> string \<Rightarrow> worker \<Rightarrow> bool" where
  "idle_timed_out now msm m wid w \<longleftrightarrow>
     \<not> isAwaitingReplacement w \<and> IsIdle w \<and>
     (case msm of None \<Rightarrow> False | Some sm \<Rightarrow> ActiveSessionsForWorker now sm wid = 0) \<and>
     time_sub now (LastUsedAt w) > m_idleTimeout m"

fun check_one ::
  "(string \<Rightarrow> time) \<Rightarrow> sessionManager option \<Rightarrow> manager \<times> victim list \<times> int \<Rightarrow> string \<times> wref \<Rightarrow>
   manager \<times> victim list \<times> int" where
  "check_one clock msm (m, victims, awaitingScheduled) (wid, r) =
     (if ProcessExited (worker_at m r) then (evict m wid r, victims @ [(wid, r, ''exited'')], awaitingScheduled)
      else
        let (marked, m) = check_lifetime (clock wid) m r;
            awaitingScheduled = (if marked then awaitingScheduled + 1 else awaitingScheduled)
        in if isClosingDrained (worker_at m r) then
             (evict m wid r, victims @ [(wid, r, ''drained'')], awaitingScheduled)
           else if idle_timed_out (clock wid) msm m wid (worker_at m r) then
             (evict m wid r, victims @ [(wid, r, ''idle'')], awaitingScheduled)
           else (m, victims, awaitingScheduled))"

definition scan_workers :: "(string \<Rightarrow> time) \<Rightarrow> sessionManager option \<Rightarrow> manager \<Rightarrow> manager \<times> victim list \<times> int" where
  "scan_workers clock msm m = foldl (check_one clock msm) (m, [], 0) (m_workers m)"

fun stop_worker :: "env \<Rightarrow> wref \<Rightarrow> manager \<times> hist \<Rightarrow> manager \<times> hist" where
  "stop_worker E r (m, h) = (case Stop (e_os E) (worker_at m r) h of (e, w, h) \<Rightarrow> (set_worker m r w, h))"

fun stop_victims ::
  "env \<Rightarrow> victim list \<Rightarrow> manager \<times> hist \<Rightarrow> sessionManager option \<Rightarrow> (manager \<times> hist) \<times> sessionManager option" where
  "stop_victims E [] s msm = (s, msm)"
| "stop_victims E ((wid, r, reason) # vs) s msm =
     stop_victims E vs (stop_worker E r s) (map_option (\<lambda>sm. RemoveByWorker sm wid) msm)"

definition checkWorkers ::
  "env \<Rightarrow> (string \<Rightarrow> time) \<Rightarrow> manager \<Rightarrow> sessionManager option \<Rightarrow> hist \<Rightarrow> manager \<times> sessionManager option \<times> hist" where
  "checkWorkers E clock m msm h =
     (let (m, victims, awaitingScheduled) = scan_workers clock msm m;
          ((m, h), msm) = stop_victims E victims (m, h) msm;
          m = (if length victims > 0 then signalPreconnect (signalGrow m) else m);
          m = (if awaitingScheduled > 0 then signalPreconnect m else m)
      in (m, msm, h))"

text \<open>The inner loop of the pool warmer; not returning would be \<open>None\<close>.\<close>

partial_function (option) warm_pool :: "env \<Rightarrow> manager \<Rightarrow> hist \<Rightarrow> (manager \<times> hist) option" where
  "warm_pool E m h =
     (case sys (e_os E) CtxErr h of
        (Some e, h) \<Rightarrow> Some (m, h)
      | (None, h) \<Rightarrow>
          if countReady m \<ge> m_minPoolSize m then Some (m, h)
          else
            (case createForCountry E m [] h of
               (Inl e, m, h) \<Rightarrow> Some (m, h)
             | (Inr info, m, h) \<Rightarrow> warm_pool E m h))"

text \<open>\<open>Shutdown\<close>: the part under the lock, once \<open>createWg.Wait()\<close> has returned, and the whole.\<close>

definition shutdown_section :: "manager \<Rightarrow> wref list \<times> manager" where
  "shutdown_section m =
     (let workers = map snd (m_workers m);
          m = foldl (\<lambda>m r. releaseIndex m (w_Index (worker_at m r))) m workers
      in (workers, m\<lparr>m_workers := []\<rparr>))"

definition Shutdown :: "env \<Rightarrow> manager \<Rightarrow> hist \<Rightarrow> manager \<times> hist" where
  "Shutdown E m h =
     (let m = m\<lparr>m_rootDone := True\<rparr>; (workers, m) = shutdown_section m
      in foldl (\<lambda>s r. stop_worker E r s) (m, h) workers)"

subsection \<open>The invariant\<close>

definition published_ok :: "manager \<Rightarrow> string \<times> wref \<Rightarrow> bool" where
  "published_ok m p \<longleftrightarrow>
     (let w = worker_at m (snd p) in
      snd p < length (m_store m) \<and> w_ID w = fst p \<and> fst p = worker_name (w_Index w) \<and>
      0 \<le> w_Index w \<and> w_Index w \<le> maxNamespaceIndex \<and> w_Index w \<in> m_usedIndexes m)"

definition pool_ok :: "manager \<Rightarrow> bool" where
  "pool_ok m \<longleftrightarrow> gomap_ok (m_workers m) \<and> (\<forall>p \<in> set (m_workers m). published_ok m p) \<and>
     m_usedIndexes m \<subseteq> {0..maxNamespaceIndex} \<and> groups_ok (m_servers m)"

text \<open>The connections counted for a published worker, and the invariant with the workers' own.\<close>

definition active_conns :: "manager \<Rightarrow> string \<Rightarrow> int option" where
  "active_conns m i = map_option (\<lambda>r. w_ActiveConns (worker_at m r)) (mget (m_workers m) i)"

definition pool_live :: "manager \<Rightarrow> bool" where
  "pool_live m \<longleftrightarrow> pool_ok m \<and> (\<forall>p \<in> set (m_workers m). worker_ok (worker_at m (snd p)))"

text \<open>The servers the attempts of one creation use, and trying them in order in one slot.\<close>

definition attempt_servers :: "server list \<Rightarrow> int \<Rightarrow> int \<Rightarrow> nat \<Rightarrow> server list" where
  "attempt_servers candidates index first n =
     map (\<lambda>k. candidates ! nat ((index + first + int k) mod int (length candidates))) [0..<n]"

fun try_servers ::
  "env \<Rightarrow> server list \<Rightarrow> string \<Rightarrow> int \<Rightarrow> err \<Rightarrow> manager \<Rightarrow> hist \<Rightarrow> wref result \<times> manager \<times> hist" where
  "try_servers E [] country index lastErr m h =
     (Inl (Wrapf ''unable to create worker for country'' [country] lastErr), m, h)"
| "try_servers E (srv # srvs) country index lastErr m h =
     (case sys (e_os E) CtxErr h of
        (Some e, h) \<Rightarrow> (Inl e, m, h)
      | (None, h) \<Rightarrow>
          (case build_worker E m srv index h of
             (Inl e, h) \<Rightarrow> try_servers E srvs country index e m h
           | (Inr w, h) \<Rightarrow>
               (Inr (length (m_store m)),
                m\<lparr>m_store := m_store m @ [w], m_usedIndexes := insert index (m_usedIndexes m)\<rparr>, h)))"

definition free_index :: "manager \<Rightarrow> int \<Rightarrow> bool" where
  "free_index m i \<longleftrightarrow> 0 \<le> i \<and> i \<le> maxNamespaceIndex \<and> i \<notin> m_usedIndexes m \<and>
     (\<forall>j. 0 \<le> j \<and> j < i \<longrightarrow> j \<in> m_usedIndexes m)"

text \<open>The pool with a new worker in a free slot.\<close>

definition with_worker :: "manager \<Rightarrow> worker \<Rightarrow> manager" where
  "with_worker m w =
     m\<lparr>m_store := m_store m @ [w], m_usedIndexes := insert (w_Index w) (m_usedIndexes m),
       m_workers := m_workers m @ [(w_ID w, length (m_store m))]\<rparr>"

text \<open>The environment's \<open>Do\<close> replaced by running the function: what a lone caller sees.\<close>

definition lone_caller :: "env \<Rightarrow> env" where
  "lone_caller E = E\<lparr>e_do := (\<lambda>key fn s. fn s)\<rparr>"

text \<open>
  For evaluation: an environment in which nothing fails and the tunnel device shows at the first
  poll, and a manager with two servers.
\<close>

definition sample_env :: env where
  "sample_env = \<lparr>e_os = calm_os 1, e_round = (\<lambda>x. x), e_rand = (\<lambda>h. 0), e_do = (\<lambda>key fn s. fn s)\<rparr>"

definition sample_servers :: server_map where
  "sample_servers =
     [(''us'', [\<lparr>s_Country = ''us'', s_Name = ''us-nyc'', s_OvpnPath = ''/ovpn/us-nyc.ovpn''\<rparr>,
               \<lparr>s_Country = ''us'', s_Name = ''us-dal'', s_OvpnPath = ''/ovpn/us-dal.ovpn''\<rparr>])]"

definition sample_manager :: manager where
  "sample_manager =
     (case New sample_servers ''/auth.txt'' (10 * minute) (60 * minute) 2 False 3 10 0 of
        Inr m \<Rightarrow> m | Inl e \<Rightarrow> undefined)"

definition ready_sample :: worker where
  "ready_sample = sample_worker\<lparr>w_State := WorkerReady\<rparr>"

definition sample_pool :: manager where
  "sample_pool = with_worker sample_manager ready_sample"

text \<open>What a creation returns: a ready, unused worker in the slot, on a server of the country.\<close>

definition fresh_worker :: "manager \<Rightarrow> string \<Rightarrow> worker \<Rightarrow> bool" where
  "fresh_worker m country w \<longleftrightarrow>
     free_index m (w_Index w) \<and> w_ID w = worker_name (w_Index w) \<and> w_State w = WorkerReady \<and>
     w_ActiveConns w = 0 \<and> worker_ok w \<and> \<not> w_processExited w \<and>
     w_Server w \<in> set (all_servers (m_servers m)) \<and> (country = [] \<or> s_Country (w_Server w) = country) \<and>
     (\<exists>ns. w_Namespace w = Some ns \<and> ns = new_namespace (w_ID w) (w_Index w) (ns_Handle ns))"

section \<open>Indexes\<close>

lemma find_upto:
  "find P [a..b] = Some i \<longleftrightarrow> a \<le> i \<and> i \<le> b \<and> P i \<and> (\<forall>j. a \<le> j \<and> j < i \<longrightarrow> \<not> P j)"
proof (induction "nat (b - a + 1)" arbitrary: a)
  case 0
  then show ?case by (auto simp: upto.simps)
next
  case (Suc n)
  then have "a \<le> b" and ih: "find P [a + 1..b] = Some i \<longleftrightarrow> a + 1 \<le> i \<and> i \<le> b \<and> P i \<and> (\<forall>j. a + 1 \<le> j \<and> j < i \<longrightarrow> \<not> P j)"
    by auto
  have split: "(\<forall>j. a \<le> j \<and> j < i \<longrightarrow> \<not> P j) \<longleftrightarrow> (a < i \<longrightarrow> \<not> P a) \<and> (\<forall>j. a + 1 \<le> j \<and> j < i \<longrightarrow> \<not> P j)"
    by (metis add1_zle_eq order_le_less)
  show ?case
    using \<open>a \<le> b\<close> ih unfolding split by (subst upto.simps) (auto simp: order_le_less)
qed

lemma acquireIndex_free: "free_index m i \<Longrightarrow> acquireIndex m = (i, m\<lparr>m_usedIndexes := insert i (m_usedIndexes m)\<rparr>)"
  using find_upto [of "\<lambda>c. c \<notin> m_usedIndexes m" 0 maxNamespaceIndex i]
  by (auto simp: acquireIndex_def free_index_def)

lemma acquireIndex_cases:
  obtains (full) "{0..maxNamespaceIndex} \<subseteq> m_usedIndexes m" and "acquireIndex m = (-1, m)"
  | (free) i where "free_index m i" and "acquireIndex m = (i, m\<lparr>m_usedIndexes := insert i (m_usedIndexes m)\<rparr>)"
proof (cases "find (\<lambda>c. c \<notin> m_usedIndexes m) [0..maxNamespaceIndex]")
  case None
  then have "{0..maxNamespaceIndex} \<subseteq> m_usedIndexes m" by (auto simp: find_None_iff)
  moreover have "acquireIndex m = (-1, m)" using None by (simp add: acquireIndex_def)
  ultimately show thesis by (rule full)
next
  case (Some i)
  then have "free_index m i" unfolding find_upto free_index_def by blast
  from this acquireIndex_free [OF this] show thesis by (rule free)
qed

lemma release_acquired: "i \<notin> m_usedIndexes m \<Longrightarrow> releaseIndex (m\<lparr>m_usedIndexes := insert i (m_usedIndexes m)\<rparr>) i = m"
  by (simp add: releaseIndex_def)

lemma free_index_unique: "free_index m i \<Longrightarrow> free_index m j \<Longrightarrow> i = j"
  unfolding free_index_def by (metis linorder_neqE)

section \<open>Creating a worker\<close>

lemma build_worker_Inr:
  assumes "build_worker E m srv index h = (Inr w, h')"
  shows "w_ID w = worker_name index" and "w_Index w = index" and "w_Server w = srv"
    and "w_State w = WorkerReady" and "w_ActiveConns w = 0" and "worker_ok w" and "\<not> w_processExited w"
    and "\<exists>ns. w_Namespace w = Some ns \<and> ns = new_namespace (worker_name index) index (ns_Handle ns)"
    and "0 \<le> index" and "index \<le> maxNamespaceIndex"
proof -
  obtain ns h1 pid h2 where c: "Create (e_os E) (worker_name index) index h = (Inr ns, h1)"
    and w: "w = markReady (os_fd (e_os E) h' TimeNow) (new_worker E m srv index ns pid h2)"
    using assms by (auto simp: build_worker_def Let_def split: prod.splits sum.splits option.splits)
  show "w_ID w = worker_name index" and "w_Index w = index" and "w_Server w = srv"
    and "w_State w = WorkerReady" and "w_ActiveConns w = 0" and "worker_ok w" and "\<not> w_processExited w"
    by (simp_all add: w markReady_def new_worker_def worker_ok_def)
  have "0 \<le> index \<and> index \<le> 254 \<and> ns = new_namespace (worker_name index) index (ns_Handle ns)"
    using c by (rule Create_Inr)
  then show "\<exists>ns. w_Namespace w = Some ns \<and> ns = new_namespace (worker_name index) index (ns_Handle ns)"
    and "0 \<le> index" and "index \<le> maxNamespaceIndex"
    by (simp_all add: w markReady_def new_worker_def maxNamespaceIndex_def)
qed

lemma build_worker_cong:
  assumes "m_verbose m = m_verbose m'" and "m_authFile m = m_authFile m'"
    and "m_maxLifetime m = m_maxLifetime m'" and "m_lifetimeJitterPct m = m_lifetimeJitterPct m'"
  shows "build_worker E m srv index h = build_worker E m' srv index h"
proof -
  have start: "start_openvpn os m = start_openvpn os m'" for os
    by (intro ext) (simp only: start_openvpn_def openvpn_args_def assms)
  have new: "new_worker E m = new_worker E m'" using assms by (intro ext) (simp add: new_worker_def)
  show ?thesis unfolding build_worker_def start new ..
qed

lemma createWorker_eq:
  "createWorker E (m\<lparr>m_usedIndexes := insert i (m_usedIndexes m)\<rparr>) srv index h =
     (case build_worker E m srv index h of
        (Inl e, h) \<Rightarrow> (Inl e, m\<lparr>m_usedIndexes := insert i (m_usedIndexes m)\<rparr>, h)
      | (Inr w, h) \<Rightarrow> (Inr (length (m_store m)),
          m\<lparr>m_store := m_store m @ [w], m_usedIndexes := insert i (m_usedIndexes m)\<rparr>, h))"
  using build_worker_cong [of "m\<lparr>m_usedIndexes := insert i (m_usedIndexes m), m_createWg := m_createWg m + 1\<rparr>" m E srv index h]
  by (simp add: createWorker_def Let_def alloc_worker_def split: prod.split sum.split)

text \<open>Each attempt finds the same slot free, so the loop tries a list of servers in that slot.\<close>

lemma try_loop_servers:
  assumes "free_index m i"
  shows "try_loop E candidates country n attempt lastErr m h =
    try_servers E (attempt_servers candidates i attempt n) country i lastErr m h"
proof (induction n arbitrary: attempt lastErr h)
  case 0
  then show ?case by (simp add: attempt_servers_def)
next
  case (Suc n)
  have list: "attempt_servers candidates i attempt (Suc n) =
      candidates ! nat ((i + attempt) mod int (length candidates)) # attempt_servers candidates i (attempt + 1) n"
    by (simp add: attempt_servers_def upt_conv_Cons map_Suc_upt [symmetric] algebra_simps o_def del: upt_Suc)
  have i: "\<not> i < 0" "i \<notin> m_usedIndexes m" using assms by (simp_all add: free_index_def)
  show ?case
    unfolding list using i
    by (simp add: acquireIndex_free [OF assms] createWorker_eq release_acquired Suc.IH Let_def
        split: prod.split option.split sum.split)
qed

lemma try_servers_Inl: "try_servers E srvs country i lastErr m h = (Inl e, m', h') \<Longrightarrow> m' = m"
  by (induction srvs arbitrary: lastErr h) (auto split: prod.splits option.splits sum.splits)

lemma try_servers_Inr:
  assumes "try_servers E srvs country i lastErr m h = (Inr r, m', h')"
  obtains w srv h0 h1 where "srv \<in> set srvs" and "build_worker E m srv i h0 = (Inr w, h1)"
    and "r = length (m_store m)"
    and "m' = m\<lparr>m_store := m_store m @ [w], m_usedIndexes := insert i (m_usedIndexes m)\<rparr>"
  using assms
proof (induction srvs arbitrary: lastErr h thesis)
  case (Cons srv srvs)
  then have ctx: "os_err (e_os E) h CtxErr = None" by (auto simp: sys_def split: option.splits)
  let ?h = "h @ [(CtxErr, None)]"
  show ?case
  proof (cases "build_worker E m srv i ?h")
    case (Pair x h1)
    show ?thesis
    proof (cases x)
      case (Inl e)
      with Pair ctx Cons.prems(2) have "try_servers E srvs country i e m h1 = (Inr r, m', h')" by (simp add: sys_def)
      with Cons.IH show ?thesis by (metis Cons.prems(1) list.set_intros(2))
    next
      case (Inr w)
      with Pair ctx Cons.prems show ?thesis by (auto simp: sys_def)
    qed
  qed
qed simp

section \<open>Queries\<close>

lemma pool_infos_in:
  "w \<in> set (pool_infos m) \<longleftrightarrow> (\<exists>i r. (i, r) \<in> set (m_workers m) \<and> w = Info (worker_at m r))"
  by (auto simp: pool_infos_def)

lemma serving_iff: "s \<in> {WorkerReady, WorkerIdle, WorkerAwaitingReplacement} \<longleftrightarrow> serving s"
  by (simp add: serving_def)

lemma set_GetReadyWorkers:
  "set (GetReadyWorkers m c) = {w \<in> set (pool_infos m). serving (wi_State w) \<and> country_ok c w}"
  by (auto simp: GetReadyWorkers_def serving_def country_ok_def)

lemma routable_fold:
  "foldl (\<lambda>(active, awaiting) info.
            if c \<noteq> [] \<and> wi_Country info \<noteq> c then (active, awaiting)
            else case wi_State info of
                WorkerReady \<Rightarrow> (active @ [info], awaiting)
              | WorkerIdle \<Rightarrow> (active @ [info], awaiting)
              | WorkerAwaitingReplacement \<Rightarrow> (active, awaiting @ [info])
              | _ \<Rightarrow> (active, awaiting)) (xs, ys) infos =
   (xs @ filter (\<lambda>w. country_ok c w \<and> (wi_State w = WorkerReady \<or> wi_State w = WorkerIdle)) infos,
    ys @ filter (\<lambda>w. country_ok c w \<and> wi_State w = WorkerAwaitingReplacement) infos)"
  by (induction infos arbitrary: xs ys) (auto simp: country_ok_def split: worker_state.splits)

lemma GetRoutableWorkers_eq:
  "GetRoutableWorkers m c =
     (let active = filter (\<lambda>w. country_ok c w \<and> (wi_State w = WorkerReady \<or> wi_State w = WorkerIdle)) (pool_infos m);
          awaiting = filter (\<lambda>w. country_ok c w \<and> wi_State w = WorkerAwaitingReplacement) (pool_infos m)
      in sort_slice wi_ID (if active = [] then awaiting else active))"
  unfolding GetRoutableWorkers_def routable_fold by (simp add: Let_def)

lemma GetRoutable_subset: "set (GetRoutableWorkers m c) \<subseteq> set (GetReadyWorkers m c)"
  by (auto simp: GetRoutableWorkers_eq set_GetReadyWorkers Let_def serving_def split: if_splits)

lemma GetRoutable_nonempty: "GetReadyWorkers m c \<noteq> [] \<Longrightarrow> GetRoutableWorkers m c \<noteq> []"
proof -
  assume "GetReadyWorkers m c \<noteq> []"
  then obtain w where "w \<in> set (pool_infos m)" "serving (wi_State w)" "country_ok c w"
    using set_GetReadyWorkers [of m c] by (metis (no_types, lifting) list.set_intros(1) mem_Collect_eq neq_Nil_conv)
  then show ?thesis by (auto simp: GetRoutableWorkers_eq Let_def serving_def filter_empty_conv)
qed

lemma published:
  assumes "pool_ok m" and "(i, r) \<in> set (m_workers m)"
  shows "r < length (m_store m)" and "w_ID (worker_at m r) = i" and "i = worker_name (w_Index (worker_at m r))"
    and "0 \<le> w_Index (worker_at m r)" and "w_Index (worker_at m r) \<le> maxNamespaceIndex"
    and "w_Index (worker_at m r) \<in> m_usedIndexes m"
  using assms by (auto simp: pool_ok_def published_ok_def Let_def)

lemma worker_name_inj: "0 \<le> i \<Longrightarrow> 0 \<le> j \<Longrightarrow> worker_name i = worker_name j \<Longrightarrow> i = j"
  by (auto simp: worker_name_def dest: go_Itoa_inj)

lemma pool_infos_ids: "pool_ok m \<Longrightarrow> map wi_ID (pool_infos m) = map fst (m_workers m)"
  by (auto simp: pool_infos_def Info_def published)

lemma pool_infos_distinct: "pool_ok m \<Longrightarrow> distinct (map wi_ID (pool_infos m))"
  by (simp add: pool_infos_ids) (simp add: pool_ok_def gomap_ok_def)

lemma pool_infos_inj: "pool_ok m \<Longrightarrow> inj_on wi_ID (set (pool_infos m))"
  using pool_infos_distinct by (simp add: distinct_map)

lemma pool_size: "pool_ok m \<Longrightarrow> length (m_workers m) \<le> 255"
proof -
  assume ok: "pool_ok m"
  let ?ix = "\<lambda>p. w_Index (worker_at m (snd p))"
  have d: "distinct (m_workers m)" using ok by (auto simp: pool_ok_def gomap_ok_def distinct_map)
  have "inj_on ?ix (set (m_workers m))"
  proof (rule inj_onI)
    fix p q assume pq: "p \<in> set (m_workers m)" "q \<in> set (m_workers m)" "?ix p = ?ix q"
    then have "fst p = fst q" using published(3) [OF ok, of "fst p" "snd p"] published(3) [OF ok, of "fst q" "snd q"] by simp
    with pq(1,2) ok show "p = q" unfolding pool_ok_def gomap_ok_def by (metis eq_key_imp_eq_value prod.collapse)
  qed
  moreover have "?ix ` set (m_workers m) \<subseteq> {0..254}"
    using published(4,5) [OF ok] by (force simp: maxNamespaceIndex_def)
  ultimately have "card (set (m_workers m)) \<le> card {0..254::int}" by (metis card_image card_mono finite_atLeastAtMost_int)
  then show ?thesis using d by (simp add: distinct_card)
qed

lemma GetRoutable_length: "pool_ok m \<Longrightarrow> length (GetRoutableWorkers m c) < 2 ^ 64"
proof -
  assume "pool_ok m"
  then have "length (pool_infos m) \<le> 255" by (simp add: pool_infos_def pool_size)
  moreover have "length (GetRoutableWorkers m c) \<le> length (pool_infos m)"
    by (simp add: GetRoutableWorkers_eq Let_def)
  ultimately show ?thesis by simp
qed

section \<open>Publishing\<close>

lemma worker_at_append: "r < length (m_store m) \<Longrightarrow> worker_at (m\<lparr>m_store := m_store m @ ws\<rparr>) r = worker_at m r"
  by (simp add: worker_at_def nth_append)

lemma fresh_name:
  assumes "pool_ok m" and "0 \<le> i" and "i \<notin> m_usedIndexes m"
  shows "mget (m_workers m) (worker_name i) = None"
proof (rule ccontr)
  assume "mget (m_workers m) (worker_name i) \<noteq> None"
  then obtain r where "(worker_name i, r) \<in> set (m_workers m)" by (auto dest: mget_in_set)
  from published [OF assms(1) this] assms worker_name_inj show False by metis
qed

lemma with_worker_ok:
  assumes "pool_ok m" and "w_Index w \<notin> m_usedIndexes m" and "w_ID w = worker_name (w_Index w)"
    and "0 \<le> w_Index w" and "w_Index w \<le> maxNamespaceIndex"
  shows "pool_ok (with_worker m w)"
proof -
  have "mget (m_workers m) (w_ID w) = None" using fresh_name [OF assms(1,4,2)] assms(3) by simp
  then have "w_ID w \<notin> fst ` set (m_workers m)" by (simp add: mget_None_iff)
  then have "gomap_ok (m_workers (with_worker m w))"
    using assms(1) by (simp add: with_worker_def pool_ok_def gomap_ok_def)
  moreover have "published_ok (with_worker m w) p" if "p \<in> set (m_workers m)" for p
    using that assms(1) by (auto simp: pool_ok_def published_ok_def with_worker_def worker_at_def nth_append Let_def)
  moreover have "published_ok (with_worker m w) (w_ID w, length (m_store m))"
    using assms by (simp add: published_ok_def with_worker_def worker_at_def)
  ultimately show ?thesis using assms by (auto simp: pool_ok_def with_worker_def)
qed

lemma pool_infos_with_worker:
  assumes "pool_ok m"
  shows "pool_infos (with_worker m w) = pool_infos m @ [Info w]"
  using published(1) [OF assms]
  by (auto simp: pool_infos_def with_worker_def worker_at_def nth_append)

section \<open>Creation for a country\<close>

lemma serverCandidates_sound:
  assumes "groups_ok (m_servers m)" and "serverCandidates m c = Inr candidates"
  shows "candidates \<noteq> []" and "set candidates \<subseteq> set (all_servers (m_servers m))"
    and "s \<in> set candidates \<Longrightarrow> c = [] \<or> s_Country s = c"
proof -
  show "candidates \<noteq> []" using assms(2) by (force simp: serverCandidates_def Let_def split: if_splits)
  have "set candidates \<subseteq> set (all_servers (m_servers m)) \<and> (s \<in> set candidates \<longrightarrow> c = [] \<or> s_Country s = c)"
  proof (cases "c = []")
    case True
    with assms(2) show ?thesis by (auto simp: serverCandidates_def all_servers_def Let_def split: if_splits)
  next
    case False
    with assms(2) have "candidates = country_group (m_servers m) c" "candidates \<noteq> []"
      by (auto simp: serverCandidates_def Let_def split: if_splits)
    then have "(c, candidates) \<in> set (m_servers m)"
      by (auto simp: country_group_def dest: mget_in_set split: option.splits)
    with assms(1) show ?thesis by (force simp: groups_ok_def group_ok_def all_servers_def)
  qed
  then show "set candidates \<subseteq> set (all_servers (m_servers m))"
    and "s \<in> set candidates \<Longrightarrow> c = [] \<or> s_Country s = c" by blast+
qed

lemma set_attempt_servers: "candidates \<noteq> [] \<Longrightarrow> set (attempt_servers candidates i first n) \<subseteq> set candidates"
  by (auto simp: attempt_servers_def intro!: nth_mem simp: nat_less_iff)

lemma tryCreate_servers:
  assumes "free_index m i" and "serverCandidates m c = Inr candidates"
  shows "tryCreate E m c h =
    try_servers E (attempt_servers candidates i 0 (min (length candidates) 3)) c i (Errorf ''nil'' []) m h"
proof -
  have "nat (if int (length candidates) < createMaxAttempts then int (length candidates) else createMaxAttempts) =
      min (length candidates) 3" by (auto simp: createMaxAttempts_def)
  then show ?thesis using assms(2) by (simp add: tryCreate_def Let_def try_loop_servers [OF assms(1)])
qed

lemma try_loop_full:
  assumes "acquireIndex m = (-1, m)"
  shows "\<exists>e h'. try_loop E candidates c n a lastErr m h = (Inl e, m, h')"
  using assms by (cases n) (auto split: prod.splits option.splits)

lemma tryCreate_full:
  assumes "acquireIndex m = (-1, m)" and "serverCandidates m c = Inr candidates"
  shows "\<exists>e h'. tryCreate E m c h = (Inl e, m, h')"
  using try_loop_full [OF assms(1)] assms(2) by (simp add: tryCreate_def Let_def)

lemma tryCreate_Inl: "tryCreate E m c h = (Inl e, m', h') \<Longrightarrow> m' = m"
proof (cases "serverCandidates m c")
  case (Inr candidates)
  assume t: "tryCreate E m c h = (Inl e, m', h')"
  show ?thesis
  proof (cases rule: acquireIndex_cases [of m])
    case full
    with t Inr tryCreate_full [OF full(2) Inr, of E h] show ?thesis by auto
  next
    case (free i)
    with t Inr show ?thesis by (auto simp: tryCreate_servers dest: try_servers_Inl)
  qed
qed (auto simp: tryCreate_def)

lemma tryCreate_Inr:
  assumes "groups_ok (m_servers m)" and "tryCreate E m c h = (Inr r, m', h')"
  obtains w where "fresh_worker m c w" and "r = length (m_store m)"
    and "m' = m\<lparr>m_store := m_store m @ [w], m_usedIndexes := insert (w_Index w) (m_usedIndexes m)\<rparr>"
proof -
  from assms(2) obtain candidates where cand: "serverCandidates m c = Inr candidates"
    by (auto simp: tryCreate_def split: sum.splits)
  note sound = serverCandidates_sound [OF assms(1) cand]
  show thesis
  proof (cases rule: acquireIndex_cases [of m])
    case full
    with assms(2) tryCreate_full [OF full(2) cand, of E h] show ?thesis by auto
  next
    case (free i)
    obtain w srv h0 h1 where w: "srv \<in> set (attempt_servers candidates i 0 (min (length candidates) 3))"
      "build_worker E m srv i h0 = (Inr w, h1)" "r = length (m_store m)"
      "m' = m\<lparr>m_store := m_store m @ [w], m_usedIndexes := insert i (m_usedIndexes m)\<rparr>"
      using assms(2) unfolding tryCreate_servers [OF free(1) cand] by (rule try_servers_Inr)
    note b = build_worker_Inr [OF w(2)]
    have "srv \<in> set candidates" using w(1) set_attempt_servers sound(1) by blast
    then have "fresh_worker m c w" using b free(1) sound by (auto simp: fresh_worker_def)
    then show ?thesis using that w(3,4) b(2) by auto
  qed
qed

lemma publish_new:
  assumes "pool_ok m" and "fresh_worker m c w" and "\<not> m_rootDone m"
    and "m1 = m\<lparr>m_store := m_store m @ [w], m_usedIndexes := insert (w_Index w) (m_usedIndexes m)\<rparr>"
  shows "publishWorker E m1 (length (m_store m)) h = (True, with_worker m w, h)"
proof -
  have "mget (m_workers m) (w_ID w) = None"
    using fresh_name [OF assms(1)] assms(2) by (simp add: fresh_worker_def free_index_def)
  then have "mput (m_workers m) (w_ID w) (length (m_store m)) = m_workers m @ [(w_ID w, length (m_store m))]"
    by (rule mset_mput_fresh)
  then show ?thesis using assms(3) by (simp add: publishWorker_def insert_worker_def assms(4) worker_at_def with_worker_def)
qed

lemma createForCountry_Inr:
  assumes "pool_ok m" and "createForCountry E m c h = (Inr info, m', h')"
  obtains w where "fresh_worker m c w" and "info = Info w" and "m' = with_worker m w"
proof -
  obtain r m1 h1 where t: "tryCreate E m c h = (Inr r, m1, h1)"
    and p: "\<exists>h2. publishWorker E m1 r h1 = (True, m', h2)" and i: "info = Info (worker_at m' r)"
    using assms(2) by (auto simp: createForCountry_def split: prod.splits sum.splits bool.splits)
  have "groups_ok (m_servers m)" using assms(1) by (simp add: pool_ok_def)
  then obtain w where w: "fresh_worker m c w" "r = length (m_store m)"
    "m1 = m\<lparr>m_store := m_store m @ [w], m_usedIndexes := insert (w_Index w) (m_usedIndexes m)\<rparr>"
    using t by (rule tryCreate_Inr)
  have "\<not> m_rootDone m" using p w(3) by (auto simp: publishWorker_def Let_def split: if_splits prod.splits)
  then have "m' = with_worker m w" using publish_new [OF assms(1) w(1) _ w(3)] p w(2) by auto
  moreover have "info = Info w" using i w(2) calculation by (simp add: worker_at_def with_worker_def)
  ultimately show thesis using that w(1) by blast
qed

lemma createForCountry_Inl:
  assumes "pool_ok m" and "createForCountry E m c h = (Inl e, m', h')"
  shows "m_workers m' = m_workers m" and "m_usedIndexes m' = m_usedIndexes m" and "pool_ok m'"
    and "pool_infos m' = pool_infos m" and "\<And>i r. (i, r) \<in> set (m_workers m) \<Longrightarrow> worker_at m' r = worker_at m r"
proof -
  have "m_workers m' = m_workers m \<and> m_usedIndexes m' = m_usedIndexes m \<and> m_servers m' = m_servers m \<and>
    (\<exists>ws. m_store m' = m_store m @ ws)"
  proof (cases "tryCreate E m c h")
    case (fields x m1 h1)
    show ?thesis
    proof (cases x)
      case (Inl e')
      with fields assms(2) have "m' = m" by (auto simp: createForCountry_def dest: tryCreate_Inl)
      then show ?thesis by simp
    next
      case (Inr r)
      with fields have t: "tryCreate E m c h = (Inr r, m1, h1)" by simp
      have "groups_ok (m_servers m)" using assms(1) by (simp add: pool_ok_def)
      then obtain w where w: "fresh_worker m c w" "r = length (m_store m)"
        "m1 = m\<lparr>m_store := m_store m @ [w], m_usedIndexes := insert (w_Index w) (m_usedIndexes m)\<rparr>"
        using t by (rule tryCreate_Inr)
      obtain e2 w2 h2 where s: "Stop (e_os E) w h1 = (e2, w2, h2)" by (cases "Stop (e_os E) w h1")
      have "m_rootDone m1" using assms(2) t by (auto simp: createForCountry_def publishWorker_def split: if_splits)
      then have "m' = set_worker (releaseIndex m1 (w_Index w)) r w2"
        using assms(2) t s w by (auto simp: createForCountry_def publishWorker_def worker_at_def releaseIndex_def)
      then show ?thesis using w by (auto simp: set_worker_def releaseIndex_def fresh_worker_def free_index_def)
    qed
  qed
  then obtain ws where ws: "m_workers m' = m_workers m" "m_usedIndexes m' = m_usedIndexes m"
    "m_servers m' = m_servers m" "m_store m' = m_store m @ ws" by blast
  show same: "worker_at m' r = worker_at m r" if "(i, r) \<in> set (m_workers m)" for i r
    using published(1) [OF assms(1) that] ws(4) by (simp add: worker_at_def nth_append)
  then show "pool_infos m' = pool_infos m" and "pool_ok m'"
    using ws assms(1) by (auto simp: pool_infos_def pool_ok_def published_ok_def Let_def)
  show "m_workers m' = m_workers m" "m_usedIndexes m' = m_usedIndexes m" by (fact ws)+
qed

section \<open>The manager is a worker pool\<close>

lemma fresh_with_worker_ok: "pool_ok m \<Longrightarrow> fresh_worker m c w \<Longrightarrow> pool_ok (with_worker m w)"
  by (rule with_worker_ok) (auto simp: fresh_worker_def free_index_def)

lemma RequestWorker_eq:
  "singleflight_runs E \<Longrightarrow> RequestWorker E m c h =
     (case pickReady m c of Some ready \<Rightarrow> (Inr ready, m, h) | None \<Rightarrow> createForCountry E m c h)"
  by (simp add: RequestWorker_def singleflight_runs_def)

lemma pickReady_Some: "pickReady m c = Some w \<Longrightarrow> w \<in> set (GetRoutableWorkers m c)"
  by (auto simp: pickReady_def Let_def split: if_splits)

lemma pickReady_None: "pickReady m c = None \<longleftrightarrow> GetReadyWorkers m c = []"
  using GetRoutable_subset [of m c] GetRoutable_nonempty [of m c] by (auto simp: pickReady_def Let_def)

lemma RequestWorker_Inr:
  assumes "singleflight_runs E" and "pool_ok m" and "RequestWorker E m c h = (Inr w, m', h')"
  shows "w \<in> set (GetReadyWorkers m' c)" and "pool_ok m'" and "set (GetReadyWorkers m []) \<subseteq> set (GetReadyWorkers m' [])"
proof -
  have "w \<in> set (GetReadyWorkers m' c) \<and> pool_ok m' \<and> set (GetReadyWorkers m []) \<subseteq> set (GetReadyWorkers m' [])"
  proof (cases "pickReady m c")
    case (Some ready)
    with assms pickReady_Some [OF Some] GetRoutable_subset show ?thesis by (auto simp: RequestWorker_eq)
  next
    case None
    with assms have "createForCountry E m c h = (Inr w, m', h')" by (simp add: RequestWorker_eq)
    with assms(2) obtain v where "fresh_worker m c v" "w = Info v" "m' = with_worker m v"
      by (rule createForCountry_Inr)
    with assms(2) show ?thesis
      by (auto simp: set_GetReadyWorkers pool_infos_with_worker fresh_with_worker_ok)
        (auto simp: fresh_worker_def serving_def country_ok_def Info_def)
  qed
  then show "w \<in> set (GetReadyWorkers m' c)" and "pool_ok m'"
    and "set (GetReadyWorkers m []) \<subseteq> set (GetReadyWorkers m' [])" by simp_all
qed

lemma RequestWorker_Inl:
  assumes "singleflight_runs E" and "pool_ok m" and "RequestWorker E m c h = (Inl e, m', h')"
  shows "pool_ok m'" and "GetReadyWorkers m' c' = GetReadyWorkers m c'" and "m_usedIndexes m' = m_usedIndexes m"
    and "createForCountry E m c h = (Inl e, m', h')"
proof -
  have c: "createForCountry E m c h = (Inl e, m', h')"
    using assms(1,3) by (auto simp: RequestWorker_eq split: option.splits)
  from createForCountry_Inl [OF assms(2) c] c
  show "pool_ok m'" and "GetReadyWorkers m' c' = GetReadyWorkers m c'" and "m_usedIndexes m' = m_usedIndexes m"
    and "createForCountry E m c h = (Inl e, m', h')"
    by (simp_all add: GetReadyWorkers_def)
qed

text \<open>A request for a worker leaves the workers there are alone; a new one is well formed and unused.\<close>

lemma mget_append_fresh: "mget (xs @ [(k, v)]) i = (case mget xs i of Some y \<Rightarrow> Some y | None \<Rightarrow> if i = k then Some v else None)"
  by (auto simp: mget_def map_add_def split: option.split)

lemma active_conns_with_worker:
  assumes "pool_ok m"
  shows "active_conns (with_worker m w) i =
    (case active_conns m i of Some n \<Rightarrow> Some n | None \<Rightarrow> if i = w_ID w then Some (w_ActiveConns w) else None)"
proof (cases "mget (m_workers m) i")
  case None
  then show ?thesis by (simp add: active_conns_def with_worker_def mget_append_fresh worker_at_def)
next
  case (Some r)
  then have "r < length (m_store m)" using published(1) [OF assms] by (blast dest: mget_in_set)
  then show ?thesis using Some by (simp add: active_conns_def with_worker_def mget_append_fresh worker_at_def nth_append)
qed

lemma pool_live_with_worker:
  assumes "pool_live m" and "fresh_worker m c w"
  shows "pool_live (with_worker m w)"
proof -
  have "worker_at (with_worker m w) r = worker_at m r" if "(i, r) \<in> set (m_workers m)" for i r
    using published(1) that assms(1) by (simp add: pool_live_def with_worker_def worker_at_def nth_append)
  moreover have "worker_at (with_worker m w) (length (m_store m)) = w" "worker_ok w"
    using assms(2) by (simp_all add: with_worker_def worker_at_def fresh_worker_def)
  moreover have "m_workers (with_worker m w) = m_workers m @ [(w_ID w, length (m_store m))]" by (simp add: with_worker_def)
  ultimately show ?thesis
    using assms unfolding pool_live_def by (auto intro: fresh_with_worker_ok)
qed

lemma RequestWorker_conns:
  assumes "singleflight_runs E" and "pool_live m" and "RequestWorker E m c h = (x, m', h')"
  shows "pool_live m'" and "active_conns m' i = active_conns m i \<or> active_conns m i = None \<and> active_conns m' i = Some 0"
proof -
  have ok: "pool_ok m" using assms(2) by (simp add: pool_live_def)
  have "pool_live m' \<and> (active_conns m' i = active_conns m i \<or> active_conns m i = None \<and> active_conns m' i = Some 0)"
  proof (cases "pickReady m c")
    case (Some ready)
    with assms show ?thesis by (simp add: RequestWorker_eq)
  next
    case None
    with assms have c: "createForCountry E m c h = (x, m', h')" by (simp add: RequestWorker_eq)
    show ?thesis
    proof (cases x)
      case (Inl e)
      note f = createForCountry_Inl [OF ok c [unfolded Inl]]
      then have "active_conns m' i = active_conns m i"
        by (cases "mget (m_workers m) i") (auto simp: active_conns_def dest: mget_in_set)
      moreover have "pool_live m'" using f assms(2) by (auto simp: pool_live_def)
      ultimately show ?thesis by simp
    next
      case (Inr info)
      with ok c obtain w where w: "fresh_worker m c w" "m' = with_worker m w" by (auto elim: createForCountry_Inr)
      then show ?thesis using pool_live_with_worker [OF assms(2) w(1)] active_conns_with_worker [OF ok]
        by (auto simp: fresh_worker_def split: option.split)
    qed
  qed
  then show "pool_live m'" and "active_conns m' i = active_conns m i \<or> active_conns m i = None \<and> active_conns m' i = Some 0"
    by simp_all
qed

lemma lone_caller_runs [simp]: "singleflight_runs (lone_caller E)"
  by (simp add: singleflight_runs_def lone_caller_def)

lemma lone_caller_id: "singleflight_runs E \<Longrightarrow> lone_caller E = E"
  unfolding lone_caller_def singleflight_runs_def by (cases E) (auto intro!: ext)

lemma ready_pool [simp]:
  "pool_GetReadyWorkers (manager_pool E) p c = GetReadyWorkers (fst p) c"
  "pool_GetRoutableWorkers (manager_pool E) p c = GetRoutableWorkers (fst p) c"
  "pool_RequestWorker (manager_pool E) p c = RequestWorker E (fst p) c (snd p)"
  by (simp_all add: manager_pool_def split: prod.split)

interpretation mgr: worker_pool_contract "manager_pool (lone_caller E)" "\<lambda>p. pool_ok (fst p)" for E
proof (unfold_locales, goal_cases)
  case (1 p c) then show ?case by (auto simp: set_GetReadyWorkers country_ok_def)
next
  case (2 p w) then show ?case by (simp add: set_GetReadyWorkers)
next
  case (3 p) then show ?case using pool_infos_inj by (auto simp: set_GetReadyWorkers inj_on_def)
next
  case (4 p c) then show ?case using GetRoutable_subset by simp
next
  case (5 p c) then show ?case using GetRoutable_nonempty by simp
next
  case (6 p c) then show ?case using GetRoutable_length by simp
next
  case (7 p c w p')
  then have "RequestWorker (lone_caller E) (fst p) c (snd p) = (Inr w, fst p', snd p')" by simp
  from RequestWorker_Inr(1) [OF lone_caller_runs 7(1) this] show ?case by simp
next
  case (8 p c x p')
  then have r: "RequestWorker (lone_caller E) (fst p) c (snd p) = (x, fst p', snd p')" by simp
  show ?case
  proof (cases x)
    case (Inl e)
    from RequestWorker_Inl(2) [OF lone_caller_runs 8(1) r [unfolded Inl]] show ?thesis by simp
  next
    case (Inr w)
    from RequestWorker_Inr(3) [OF lone_caller_runs 8(1) r [unfolded Inr]] show ?thesis by simp
  qed
next
  case (9 p c x p')
  then have r: "RequestWorker (lone_caller E) (fst p) c (snd p) = (x, fst p', snd p')" by simp
  show ?case
  proof (cases x)
    case (Inl e)
    from RequestWorker_Inl(1) [OF lone_caller_runs 9(1) r [unfolded Inl]] show ?thesis .
  next
    case (Inr w)
    from RequestWorker_Inr(2) [OF lone_caller_runs 9(1) r [unfolded Inr]] show ?thesis .
  qed
qed

section \<open>Properties\<close>

lemma calm_run_all: "run_all (calm_os fd) cs h = (None, h @ map (\<lambda>p. (fst p, None)) cs)"
  by (rule run_all_ok) (simp add: calm_os_def)

lemma calm_sys: "sys (calm_os fd) c h = (None, h @ [(c, None)])"
  by (simp add: sys_def calm_os_def)

lemma calm_Create:
  assumes "0 \<le> i" and "i \<le> 254"
  shows "\<exists>ns h'. Create (calm_os fd) name i h = (Inr ns, h')"
  using assms by (simp add: Create_def create_in_def createVethPair_def configurePeer_def configure_inside_def
      applyKillSwitch_def writeNsResolvConf_def calm_sys calm_run_all Let_def)

lemma calm_build:
  assumes "0 \<le> i" and "i \<le> 254"
  shows "\<exists>w h'. build_worker sample_env m srv i h = (Inr w, h')"
proof -
  obtain ns h1 where c: "Create (calm_os 1) (worker_name i) i h = (Inr ns, h1)" using calm_Create [OF assms] by blast
  have ticks: "tun_ticks = Suc 59" by (simp add: tun_ticks_def second_def)
  have wait: "\<exists>h2. waitForTun (calm_os 1) (worker_name i) tun_ticks h = (None, h2)" for h
    unfolding ticks by (simp only: waitForTun.simps calm_sys Let_def) (simp add: calm_os_def)
  have tun: "\<exists>h2. await_tun (calm_os 1) (worker_name i) h = (None, h2)" for h
    using wait [of "h @ [(CtxErr, None)]"] by (auto simp: await_tun_def calm_sys)
  have "\<exists>pid h2. start_openvpn (calm_os 1) m (worker_name i) srv (h1 @ [(CtxErr, None)]) = (Inr pid, h2)"
    by (simp add: start_openvpn_def calm_run_all Let_def)
  then obtain pid h2 where "start_openvpn (calm_os 1) m (worker_name i) srv (h1 @ [(CtxErr, None)]) = (Inr pid, h2)" by blast
  moreover obtain h3 where "await_tun (calm_os 1) (worker_name i) h2 = (None, h3)" using tun by blast
  ultimately show ?thesis using c by (simp add: build_worker_def sample_env_def calm_sys Let_def)
qed

lemma sample_manager_eq:
  "m_store sample_manager = []" "m_workers sample_manager = []" "m_usedIndexes sample_manager = {}"
  "m_servers sample_manager = cloneServers sample_servers" "m_minPoolSize sample_manager = 2"
  "m_rootDone sample_manager = False"
  by (simp_all add: sample_manager_def New_def Let_def maxWorkerSlots_def maxNamespaceIndex_def reservedForOnDemand_def)

lemma cloneServers_groups:
  assumes "groups_ok srvs"
  shows "groups_ok (cloneServers srvs)"
proof -
  have "map fst (cloneServers srvs) = map fst srvs" by (simp add: cloneServers_def case_prod_beta)
  then have "gomap_ok (cloneServers srvs)" using assms by (simp add: groups_ok_def gomap_ok_def)
  then show ?thesis using assms by (auto simp: groups_ok_def cloneServers_def group_ok_def)
qed

lemma sample_manager_ok: "pool_ok sample_manager"
proof -
  have "groups_ok sample_servers" by (simp add: sample_servers_def groups_ok_def gomap_ok_def group_ok_def)
  then show ?thesis using cloneServers_groups by (simp add: pool_ok_def sample_manager_eq)
qed

lemma sample_pool_ok: "pool_ok sample_pool"
proof -
  have "''worker-3'' = worker_name 3" by code_simp
  then show ?thesis unfolding sample_pool_def
    by (intro with_worker_ok sample_manager_ok)
      (simp_all add: sample_manager_eq ready_sample_def sample_worker_def maxNamespaceIndex_def)
qed

lemma sample_candidates: "\<exists>candidates. serverCandidates sample_manager ''us'' = Inr candidates \<and> length candidates = 2"
  by (simp add: serverCandidates_def sample_manager_eq cloneServers_def sample_servers_def country_group_def mget_def)

lemma sample_free: "free_index sample_manager 0"
  by (simp add: free_index_def sample_manager_eq maxNamespaceIndex_def)

lemma sample_tryCreate: "\<exists>r m' h'. tryCreate sample_env sample_manager ''us'' [] = (Inr r, m', h')"
proof -
  obtain cand where c: "serverCandidates sample_manager ''us'' = Inr cand" "length cand = 2"
    using sample_candidates by blast
  obtain w h' where "build_worker sample_env sample_manager (cand ! 0) 0 ([] @ [(CtxErr, None)]) = (Inr w, h')"
    using calm_build [of 0 sample_manager "cand ! 0"] by fastforce
  moreover have "attempt_servers cand 0 0 (min (length cand) 3) = [cand ! 0, cand ! 1]"
    using c(2) by (simp add: attempt_servers_def numeral_2_eq_2)
  moreover have "sys (e_os sample_env) CtxErr [] = (None, [] @ [(CtxErr, None)])"
    by (simp add: sample_env_def calm_sys)
  ultimately show ?thesis by (simp add: tryCreate_servers [OF sample_free c(1)])
qed

text \<open>
  C10: no slot is lost or shared by a creation. If \<open>tryCreate\<close> fails, on whatever attempt and for
  whatever reason, the manager is exactly as before; if it succeeds, there is one new worker, ready
  and without connections, in the smallest slot that was free, with the namespace of that slot, on
  a known server of the requested country.
\<close>

theorem tryCreate_slots:
  assumes "groups_ok (m_servers m)" and "tryCreate E m c h = (x, m', h')"
  shows "case x of
      Inl e \<Rightarrow> m' = m
    | Inr r \<Rightarrow> \<exists>w. fresh_worker m c w \<and> r = length (m_store m) \<and>
        m' = m\<lparr>m_store := m_store m @ [w], m_usedIndexes := insert (w_Index w) (m_usedIndexes m)\<rparr>"
proof (cases x)
  case (Inl e)
  then show ?thesis using assms(2) tryCreate_Inl by auto
next
  case (Inr r)
  with assms(2) have "tryCreate E m c h = (Inr r, m', h')" by simp
  with assms(1) obtain w where "fresh_worker m c w" "r = length (m_store m)"
    "m' = m\<lparr>m_store := m_store m @ [w], m_usedIndexes := insert (w_Index w) (m_usedIndexes m)\<rparr>"
    by (rule tryCreate_Inr)
  then show ?thesis using Inr by auto
qed

theorem tryCreate_slots_witness:
  "\<exists>m' h' w. tryCreate sample_env sample_manager ''us'' [] = (Inr 0, m', h') \<and>
     fresh_worker sample_manager ''us'' w \<and> m_store m' = [w]"
proof -
  obtain r m' h' where t: "tryCreate sample_env sample_manager ''us'' [] = (Inr r, m', h')" using sample_tryCreate by blast
  have "groups_ok (m_servers sample_manager)" using sample_manager_ok by (simp add: pool_ok_def)
  from tryCreate_slots [OF this t] t show ?thesis by (auto simp: sample_manager_eq)
qed

text \<open>
  C11: retries go to different servers. A creation behaves as trying, in the first free slot, up to
  three servers taken at pairwise different positions of the candidate list, one after the other
  until one works.
\<close>

theorem tryCreate_distinct_servers:
  assumes "free_index m i" and "serverCandidates m c = Inr candidates"
  shows "\<exists>ps. distinct ps \<and> set ps \<subseteq> {..<length candidates} \<and> length ps = min (length candidates) 3 \<and>
    tryCreate E m c h = try_servers E (map ((!) candidates) ps) c i (Errorf ''nil'' []) m h"
proof -
  let ?n = "length candidates"
  define ps where "ps = map (\<lambda>k. (nat i + k) mod ?n) [0..<min ?n 3]"
  have i: "0 \<le> i" using assms(1) by (simp add: free_index_def)
  have pos: "0 < ?n" using assms(2) by (force simp: serverCandidates_def Let_def split: if_splits)
  have "inj_on (\<lambda>k. (nat i + k) mod ?n) {0..<?n}" using rotation_covers [OF pos, of "nat i"] by (simp add: bij_betw_def)
  then have "distinct ps" unfolding ps_def by (auto simp: distinct_map intro: inj_on_subset)
  moreover have "set ps \<subseteq> {..<?n}" using pos by (auto simp: ps_def)
  moreover have "attempt_servers candidates i 0 (min ?n 3) = map ((!) candidates) ps"
    using i by (auto simp: attempt_servers_def ps_def nat_mod_distrib nat_add_distrib)
  ultimately show ?thesis using tryCreate_servers [OF assms] by (intro exI [of _ ps]) (simp add: ps_def)
qed

theorem tryCreate_distinct_servers_witness:
  "\<exists>candidates ps. serverCandidates sample_manager ''us'' = Inr candidates \<and> distinct ps \<and> length ps = 2 \<and>
     tryCreate sample_env sample_manager ''us'' [] =
       try_servers sample_env (map ((!) candidates) ps) ''us'' 0 (Errorf ''nil'' []) sample_manager []"
proof -
  obtain cand where c: "serverCandidates sample_manager ''us'' = Inr cand" "length cand = 2"
    using sample_candidates by blast
  from tryCreate_distinct_servers [OF sample_free c(1), of sample_env "[]"] c show ?thesis by auto
qed

text \<open>
  C35: which workers new traffic goes to. The routable set of a country is the ready and idle
  workers of that country if there are any, else those that await replacement; it is listed by
  identifier, each once, and does not depend on the order in which the map of workers is visited.
\<close>

theorem routable_prefers_active:
  assumes "pool_ok m" and "mset (m_workers m') = mset (m_workers m)" and "m_store m' = m_store m"
    and "active = {w \<in> set (pool_infos m). country_ok c w \<and> wi_State w \<in> {WorkerReady, WorkerIdle}}"
    and "awaiting = {w \<in> set (pool_infos m). country_ok c w \<and> wi_State w = WorkerAwaitingReplacement}"
  shows "set (GetRoutableWorkers m c) = (if active \<noteq> {} then active else awaiting) \<and>
    sorted (map wi_ID (GetRoutableWorkers m c)) \<and> distinct (map wi_ID (GetRoutableWorkers m c)) \<and>
    GetRoutableWorkers m' c = GetRoutableWorkers m c \<and> GetReadyWorkers m' c = GetReadyWorkers m c"
proof -
  let ?P = "\<lambda>w. country_ok c w \<and> (wi_State w = WorkerReady \<or> wi_State w = WorkerIdle)"
  let ?Q = "\<lambda>w. country_ok c w \<and> wi_State w = WorkerAwaitingReplacement"
  have d: "distinct (map wi_ID (filter R (pool_infos m)))" for R
    using pool_infos_distinct [OF assms(1)] by (rule distinct_map_filter)
  have same: "mset (pool_infos m') = mset (pool_infos m)"
    using assms(2,3) by (simp add: pool_infos_def worker_at_def flip: mset_map) (metis mset_map)
  have inj: "inj_on wi_ID (set (filter R (pool_infos m)))" for R using d by (simp add: distinct_map)
  have eq: "sort_slice wi_ID (filter R (pool_infos m')) = sort_slice wi_ID (filter R (pool_infos m))" for R
    using same inj [of R] by (intro sort_slice_perm [symmetric]) (simp_all add: mset_filter)
  have nil: "filter R (pool_infos m') = [] \<longleftrightarrow> filter R (pool_infos m) = []" for R
    using same by (metis mset_filter mset_zero_iff)
  have sorted_ids: "distinct (map wi_ID (sort_slice wi_ID xs))" if "distinct (map wi_ID xs)" for xs
    using that by (simp add: distinct_map distinct_sort sort_slice_def)
  have "distinct (map wi_ID (GetRoutableWorkers m c))"
    unfolding GetRoutableWorkers_eq Let_def by (rule sorted_ids) (use d [of ?P] d [of ?Q] in \<open>simp split: if_split\<close>)
  moreover have "set (GetRoutableWorkers m c) = (if active \<noteq> {} then active else awaiting)"
    unfolding assms(4,5) by (auto simp: GetRoutableWorkers_eq Let_def filter_empty_conv)
  moreover have "GetReadyWorkers m' c = GetReadyWorkers m c" unfolding GetReadyWorkers_def by (rule eq)
  moreover have "GetRoutableWorkers m' c = GetRoutableWorkers m c"
    unfolding GetRoutableWorkers_eq Let_def using eq nil by simp
  moreover have "sorted (map wi_ID (GetRoutableWorkers m c))" by (simp add: GetRoutableWorkers_eq Let_def)
  ultimately show ?thesis by blast
qed

theorem routable_prefers_active_witness:
  "wi_ID ` set (GetRoutableWorkers sample_pool ''us'') = {''worker-3''}"
proof -
  let ?active = "{w \<in> set (pool_infos sample_pool). country_ok ''us'' w \<and> wi_State w \<in> {WorkerReady, WorkerIdle}}"
  have "set (GetRoutableWorkers sample_pool ''us'') =
      (if ?active \<noteq> {} then ?active
       else {w \<in> set (pool_infos sample_pool). country_ok ''us'' w \<and> wi_State w = WorkerAwaitingReplacement})"
    using routable_prefers_active [OF sample_pool_ok refl refl refl refl] by blast
  moreover have "pool_infos sample_pool = [Info ready_sample]"
    unfolding sample_pool_def pool_infos_with_worker [OF sample_manager_ok]
    by (simp add: pool_infos_def sample_manager_eq)
  moreover have "?active = {Info ready_sample}"
    unfolding calculation(2) by (auto simp: country_ok_def Info_def ready_sample_def sample_worker_def)
  ultimately have "set (GetRoutableWorkers sample_pool ''us'') = {Info ready_sample}"
    by (metis (no_types, lifting) insert_not_empty)
  then show ?thesis by (simp add: Info_def ready_sample_def sample_worker_def)
qed

text \<open>
  The pool size is checked against the slots once, at the start. \<open>New\<close> refuses exactly the
  minimum pool sizes above 125, for which a full rotation and the five slots reserved for requests
  would not fit into the 255 namespaces; otherwise the manager starts empty, well formed, and with
  its settings in range.
\<close>

theorem New_budget:
  assumes "groups_ok srvs"
  shows "case New srvs auth idle life minPool verbose conc jitter grace of
      Inl e \<Rightarrow> 125 < minPool
    | Inr m \<Rightarrow> minPool \<le> 125 \<and> pool_ok m \<and> m_workers m = [] \<and> m_usedIndexes m = {} \<and> \<not> m_rootDone m \<and>
        m_minPoolSize m = max 0 minPool \<and> 2 * m_minPoolSize m + reservedForOnDemand \<le> maxWorkerSlots \<and>
        1 \<le> m_preconnectConcurrency m \<and> 0 \<le> m_lifetimeJitterPct m \<and> m_lifetimeJitterPct m \<le> 50 \<and>
        all_servers (m_servers m) \<noteq> [] = (all_servers srvs \<noteq> [])"
proof -
  have "all_servers (cloneServers srvs) \<noteq> [] \<longleftrightarrow> all_servers srvs \<noteq> []"
    by (force simp: all_servers_def cloneServers_def)
  then show ?thesis
    using cloneServers_groups [OF assms]
    by (auto simp: New_def Let_def maxWorkerSlots_def maxNamespaceIndex_def reservedForOnDemand_def pool_ok_def)
qed

theorem New_budget_witness:
  "\<exists>e. New sample_servers ''/auth.txt'' 0 0 126 False 3 10 0 = Inl e"
proof -
  have "groups_ok sample_servers" by (simp add: sample_servers_def groups_ok_def gomap_ok_def group_ok_def)
  from New_budget [OF this, where minPool = 126 and auth = "''/auth.txt''" and idle = 0 and life = 0
      and verbose = False and conc = 3 and jitter = 10 and grace = 0] show ?thesis by (simp split: sum.splits)
qed

end
