(* ===== verification/Health.thy ===== *)
theory Health
  imports Manager
begin

text \<open>
  The background work of the manager (\<open>checkWorkers\<close>, the pool warmer's loop and \<open>Shutdown\<close> of
  \<open>internal/worker/manager_linux.go\<close>): what it keeps, what it evicts, that it ends. The health
  check reads and changes each worker only through its own pointer, so its loop is described by
  the fate of each worker alone: \<open>aged\<close> is the worker after the check of its lifetime, \<open>doomed\<close>
  tells whether it is evicted.
\<close>

section \<open>Definitions\<close>

definition aged :: "time \<Rightarrow> manager \<Rightarrow> worker \<Rightarrow> worker" where
  "aged now m w =
     (let lifetime = (if effectiveLifetime w = 0 then m_maxLifetime m else effectiveLifetime w) in
      if m_maxLifetime m > 0 \<and> lifetime > 0 \<and> Age now w > lifetime then snd (markAwaitingReplacement now w) else w)"

definition doomed :: "time \<Rightarrow> sessionManager option \<Rightarrow> manager \<Rightarrow> string \<Rightarrow> worker \<Rightarrow> bool" where
  "doomed now msm m wid w \<longleftrightarrow>
     ProcessExited w \<or> isClosingDrained (aged now m w) \<or> idle_timed_out now msm m wid (aged now m w)"

text \<open>The worker after the check.\<close>

definition checked :: "time \<Rightarrow> manager \<Rightarrow> worker \<Rightarrow> worker" where
  "checked now m w = (if ProcessExited w then w else aged now m w)"

text \<open>The settings of the manager, which no operation changes.\<close>

definition same_settings :: "manager \<Rightarrow> manager \<Rightarrow> bool" where
  "same_settings m m' \<longleftrightarrow> m_servers m' = m_servers m \<and> m_idleTimeout m' = m_idleTimeout m \<and>
     m_maxLifetime m' = m_maxLifetime m \<and> m_rotationGrace m' = m_rotationGrace m \<and>
     m_minPoolSize m' = m_minPoolSize m \<and> m_rootDone m' = m_rootDone m"

text \<open>
  What the loop of the pool warmer goes through: as long as the context lives and the pool is below
  its minimum, one creation after the other succeeds.
\<close>

inductive warming :: "env \<Rightarrow> manager \<times> hist \<Rightarrow> manager \<times> hist \<Rightarrow> bool" for E where
  so_far: "warming E s s"
| one_more: "os_err (e_os E) h CtxErr = None \<Longrightarrow> countReady m < m_minPoolSize m \<Longrightarrow>
    createForCountry E m [] (h @ [(CtxErr, None)]) = (Inr info, m1, h1) \<Longrightarrow> warming E (m1, h1) s \<Longrightarrow> warming E (m, h) s"

text \<open>Pools with one worker that has a connection, and one whose process has ended.\<close>

definition busy_sample :: worker where
  "busy_sample = sample_worker\<lparr>w_State := WorkerReady, w_ActiveConns := 1\<rparr>"

definition exited_sample :: worker where
  "exited_sample = sample_worker\<lparr>w_State := WorkerIdle, w_processExited := True\<rparr>"

definition sample_busy :: manager where
  "sample_busy = with_worker sample_manager busy_sample"

definition sample_exited :: manager where
  "sample_exited = with_worker sample_manager exited_sample"

section \<open>One worker\<close>

lemma worker_at_set [simp]:
  "r < length (m_store m) \<Longrightarrow> worker_at (set_worker m r w) r = w"
  "r' \<noteq> r \<Longrightarrow> worker_at (set_worker m r w) r' = worker_at m r'"
  by (simp_all add: worker_at_def set_worker_def)

lemma set_worker_same [simp]: "set_worker m r (worker_at m r) = m"
  by (simp add: set_worker_def worker_at_def)

lemma set_worker_fields [simp]:
  "m_workers (set_worker m r w) = m_workers m" "m_usedIndexes (set_worker m r w) = m_usedIndexes m"
  "length (m_store (set_worker m r w)) = length (m_store m)" "same_settings (set_worker m r w) m'' = same_settings m m''"
  "m_idleTimeout (set_worker m r w) = m_idleTimeout m" "m_servers (set_worker m r w) = m_servers m"
  by (simp_all add: set_worker_def same_settings_def)

lemma evict_fields [simp]:
  "m_workers (evict m wid r) = mdel (m_workers m) wid" "m_store (evict m wid r) = m_store m"
  "m_usedIndexes (evict m wid r) = m_usedIndexes m - {w_Index (worker_at m r)}"
  "worker_at (evict m wid r) r' = worker_at m r'" "m_servers (evict m wid r) = m_servers m"
  by (simp_all add: evict_def releaseIndex_def worker_at_def)

lemma check_lifetime_aged:
  "check_lifetime now m r =
     (w_State (aged now m (worker_at m r)) \<noteq> w_State (worker_at m r), set_worker m r (aged now m (worker_at m r)))"
  by (auto simp: check_lifetime_def aged_def Let_def markAwaitingReplacement_def)

lemma aged_keeps:
  "w_ID (aged now m w) = w_ID w" "w_Index (aged now m w) = w_Index w" "w_Server (aged now m w) = w_Server w"
  "w_ActiveConns (aged now m w) = w_ActiveConns w" "w_LastUsed (aged now m w) = w_LastUsed w"
  "w_State (aged now m w) = WorkerClosing \<longleftrightarrow> w_State w = WorkerClosing"
  "w_State w = WorkerAwaitingReplacement \<Longrightarrow> w_State (aged now m w) = WorkerAwaitingReplacement"
  "w_processExited (aged now m w) = w_processExited w"
  by (auto simp: aged_def Let_def markAwaitingReplacement_def)

lemma checked_keeps [simp]:
  "w_ID (checked now m w) = w_ID w" "w_Index (checked now m w) = w_Index w" "w_Server (checked now m w) = w_Server w"
  "w_ActiveConns (checked now m w) = w_ActiveConns w"
  by (simp_all add: checked_def aged_keeps)

lemma marked_not_doomed:
  "\<not> ProcessExited w \<Longrightarrow> w_State (aged now m w) \<noteq> w_State w \<Longrightarrow>
   w_State (aged now m w) = WorkerAwaitingReplacement \<and> \<not> doomed now msm m wid w"
  by (auto simp: doomed_def aged_def Let_def markAwaitingReplacement_def isClosingDrained_def idle_timed_out_def
      isAwaitingReplacement_def split: if_splits)

text \<open>The body of the loop in terms of the fate of the worker.\<close>

lemma check_one_eq:
  assumes "r < length (m_store m)"
  shows "\<exists>reason. check_one clock msm (m, vs, k) (wid, r) =
    (let m' = set_worker m r (checked (clock wid) m (worker_at m r));
         k' = (if w_State (checked (clock wid) m (worker_at m r)) \<noteq> w_State (worker_at m r) then k + 1 else k)
     in if doomed (clock wid) msm m wid (worker_at m r) then (evict m' wid r, vs @ [(wid, r, reason)], k')
        else (m', vs, k'))"
proof -
  have idle: "idle_timed_out now msm (set_worker m r w) i v = idle_timed_out now msm m i v" for now w i v
    by (simp add: idle_timed_out_def)
  show ?thesis using assms by (auto simp: doomed_def checked_def Let_def idle check_lifetime_aged)
qed

lemma settings_cong:
  assumes "same_settings m m'"
  shows "doomed now msm m' wid w = doomed now msm m wid w" and "checked now m' w = checked now m w"
  using assms by (simp_all add: same_settings_def doomed_def checked_def aged_def idle_timed_out_def)

section \<open>The loop\<close>

lemma check_one_step:
  assumes "r < length (m_store m)" and "check_one clock msm (m, vs, k) (wid, r) = (m1, vs1, k1)"
    and "d = doomed (clock wid) msm m wid (worker_at m r)" and "c = checked (clock wid) m (worker_at m r)"
  shows "m_workers m1 = (if d then mdel (m_workers m) wid else m_workers m)"
    and "m_usedIndexes m1 = (if d then m_usedIndexes m - {w_Index (worker_at m r)} else m_usedIndexes m)"
    and "map (\<lambda>(i, r, _). (i, r)) vs1 = map (\<lambda>(i, r, _). (i, r)) vs @ (if d then [(wid, r)] else [])"
    and "worker_at m1 r = c" and "r' \<noteq> r \<Longrightarrow> worker_at m1 r' = worker_at m r'"
    and "length (m_store m1) = length (m_store m)" and "same_settings m m1"
    and "k1 = (if w_State c \<noteq> w_State (worker_at m r) then k + 1 else k)"
proof -
  obtain reason where eq: "(m1, vs1, k1) = (let m' = set_worker m r c;
        k' = (if w_State c \<noteq> w_State (worker_at m r) then k + 1 else k)
      in if d then (evict m' wid r, vs @ [(wid, r, reason)], k') else (m', vs, k'))"
    using check_one_eq [OF assms(1), of clock msm vs k wid] unfolding assms(2) assms(3,4) [symmetric] by blast
  let ?m0 = "set_worker m r c"
  have m1: "m1 = (if d then evict ?m0 wid r else ?m0)" and vs1: "vs1 = (if d then vs @ [(wid, r, reason)] else vs)"
    and k1: "k1 = (if w_State c \<noteq> w_State (worker_at m r) then k + 1 else k)"
    using eq unfolding Let_def by (cases d; simp)+
  have ix: "w_Index (worker_at ?m0 r) = w_Index (worker_at m r)" using assms(1,4) by simp
  have at: "worker_at m1 x = worker_at ?m0 x" for x by (simp add: m1)
  show "m_workers m1 = (if d then mdel (m_workers m) wid else m_workers m)"
    and "m_usedIndexes m1 = (if d then m_usedIndexes m - {w_Index (worker_at m r)} else m_usedIndexes m)"
    using ix by (simp_all add: m1)
  show "map (\<lambda>(i, r, _). (i, r)) vs1 = map (\<lambda>(i, r, _). (i, r)) vs @ (if d then [(wid, r)] else [])"
    by (simp add: vs1)
  show "worker_at m1 r = c" and "r' \<noteq> r \<Longrightarrow> worker_at m1 r' = worker_at m r'" using assms(1) by (simp_all add: at)
  show "length (m_store m1) = length (m_store m)" by (simp add: m1)
  show "same_settings m m1" by (simp add: m1 same_settings_def evict_def releaseIndex_def set_worker_def)
  show "k1 = (if w_State c \<noteq> w_State (worker_at m r) then k + 1 else k)" by (fact k1)
qed

text \<open>What a run of the loop over \<open>xs\<close> has done.\<close>

lemma scan_loop:
  assumes "distinct (map snd xs)" and "\<forall>p \<in> set xs. snd p < length (m_store m)"
    and "foldl (check_one clock msm) (m, vs, k) xs = (m', vs', k')"
    and "D = (\<lambda>p. doomed (clock (fst p)) msm m (fst p) (worker_at m (snd p)))"
    and "C = (\<lambda>p. checked (clock (fst p)) m (worker_at m (snd p)))"
  shows "m_workers m' = filter (\<lambda>p. fst p \<notin> fst ` set (filter D xs)) (m_workers m) \<and>
    m_usedIndexes m' = m_usedIndexes m - (\<lambda>p. w_Index (worker_at m (snd p))) ` set (filter D xs) \<and>
    map (\<lambda>(i, r, _). (i, r)) vs' = map (\<lambda>(i, r, _). (i, r)) vs @ filter D xs \<and>
    (\<forall>p \<in> set xs. worker_at m' (snd p) = C p) \<and> (\<forall>r. r \<notin> snd ` set xs \<longrightarrow> worker_at m' r = worker_at m r) \<and>
    length (m_store m') = length (m_store m) \<and> same_settings m m' \<and> k \<le> k' \<and>
    (k < k' \<longleftrightarrow> (\<exists>p \<in> set xs. w_State (C p) \<noteq> w_State (worker_at m (snd p))))"
  using assms
proof (induction xs arbitrary: m vs k D C)
  case Nil
  then show ?case by (simp add: same_settings_def)
next
  case (Cons p xs)
  obtain m1 vs1 k1 where one: "check_one clock msm (m, vs, k) (fst p, snd p) = (m1, vs1, k1)"
    by (cases "check_one clock msm (m, vs, k) (fst p, snd p)")
  have r: "snd p < length (m_store m)" using Cons.prems(2) by simp
  have d: "D p = doomed (clock (fst p)) msm m (fst p) (worker_at m (snd p))"
    and c: "C p = checked (clock (fst p)) m (worker_at m (snd p))" by (simp_all add: Cons.prems(4,5))
  note st = check_one_step [OF r one d c]
  have notin: "snd p \<notin> snd ` set xs" using Cons.prems(1) by simp
  have same: "worker_at m1 (snd q) = worker_at m (snd q)" if "q \<in> set xs" for q
    using that notin st(5) by (metis image_eqI)
  let ?D1 = "\<lambda>q. doomed (clock (fst q)) msm m1 (fst q) (worker_at m1 (snd q))"
  let ?C1 = "\<lambda>q. checked (clock (fst q)) m1 (worker_at m1 (snd q))"
  have F: "filter ?D1 xs = filter D xs"
    by (rule filter_cong) (simp_all add: same settings_cong(1) [OF st(7)] Cons.prems(4))
  have C1: "?C1 q = C q" if "q \<in> set xs" for q
    by (simp add: same [OF that] settings_cong(2) [OF st(7)] Cons.prems(5))
  have ix: "(\<lambda>q. w_Index (worker_at m1 (snd q))) ` set (filter D xs) = (\<lambda>q. w_Index (worker_at m (snd q))) ` set (filter D xs)"
    by (rule image_cong) (simp_all add: same)
  have fold: "foldl (check_one clock msm) (m1, vs1, k1) xs = (m', vs', k')" using Cons.prems(3) one by simp
  have ds: "distinct (map snd xs)" and len: "\<forall>q \<in> set xs. snd q < length (m_store m1)"
    using Cons.prems(1,2) st(6) by simp_all
  note ih = Cons.IH [OF ds len fold refl refl, unfolded F ix]
  have "m_workers m' = filter (\<lambda>q. fst q \<notin> fst ` set (filter D (p # xs))) (m_workers m)"
    using ih st(1) by (cases "D p") (auto simp: mdel_filter intro!: filter_cong)
  moreover have "m_usedIndexes m' = m_usedIndexes m - (\<lambda>q. w_Index (worker_at m (snd q))) ` set (filter D (p # xs))"
    using ih st(2) by (cases "D p") auto
  moreover have "map (\<lambda>(i, r, _). (i, r)) vs' = map (\<lambda>(i, r, _). (i, r)) vs @ filter D (p # xs)"
    using ih st(3) by (cases "D p") simp_all
  moreover have "worker_at m' (snd q) = C q" if "q \<in> set (p # xs)" for q
    using that ih C1 st(4) notin by (metis set_ConsD)
  moreover have "worker_at m' r' = worker_at m r'" if "r' \<notin> snd ` set (p # xs)" for r'
    using that ih st(5) by simp
  moreover have "length (m_store m') = length (m_store m)" "same_settings m m'"
    using ih st(6,7) by (simp_all add: same_settings_def)
  moreover have "k \<le> k'" using ih st(8) by (simp split: if_splits)
  moreover have "(\<exists>q \<in> set xs. w_State (?C1 q) \<noteq> w_State (worker_at m1 (snd q))) \<longleftrightarrow>
      (\<exists>q \<in> set xs. w_State (C q) \<noteq> w_State (worker_at m (snd q)))" using C1 same by (metis (no_types, lifting))
  then have "k < k' \<longleftrightarrow> (\<exists>q \<in> set (p # xs). w_State (C q) \<noteq> w_State (worker_at m (snd q)))"
    using ih st(8) by (cases "w_State (C p) \<noteq> w_State (worker_at m (snd p))") auto
  ultimately show ?case by blast
qed

lemma published_refs:
  assumes "pool_ok m"
  shows "distinct (map snd (m_workers m))" and "\<forall>p \<in> set (m_workers m). snd p < length (m_store m)"
proof -
  have "inj_on snd (set (m_workers m))"
    by (rule inj_onI) (metis assms prod.collapse published(2))
  moreover have "distinct (m_workers m)" using assms by (auto simp: pool_ok_def gomap_ok_def distinct_map)
  ultimately show "distinct (map snd (m_workers m))" by (simp add: distinct_map)
  show "\<forall>p \<in> set (m_workers m). snd p < length (m_store m)" using published(1) [OF assms] by auto
qed

lemma index_inj:
  assumes "pool_ok m" and "p \<in> set (m_workers m)" and "q \<in> set (m_workers m)"
    and "w_Index (worker_at m (snd p)) = w_Index (worker_at m (snd q))"
  shows "p = q"
proof -
  have "fst p = fst q"
    using published(3) [OF assms(1), of "fst p" "snd p"] published(3) [OF assms(1), of "fst q" "snd q"] assms(2-4) by simp
  with assms(1-3) show ?thesis unfolding pool_ok_def gomap_ok_def by (metis eq_key_imp_eq_value prod.collapse)
qed

lemma scan_pool:
  assumes "pool_ok m" and "scan_workers clock msm m = (m', vs, k)"
    and "D = (\<lambda>p. doomed (clock (fst p)) msm m (fst p) (worker_at m (snd p)))"
  shows "m_workers m' = filter (\<lambda>p. \<not> D p) (m_workers m)"
    and "map (\<lambda>(i, r, _). (i, r)) vs = filter D (m_workers m)"
    and "p \<in> set (m_workers m) \<Longrightarrow> worker_at m' (snd p) = checked (clock (fst p)) m (worker_at m (snd p))"
    and "m_usedIndexes m' = m_usedIndexes m - (\<lambda>p. w_Index (worker_at m (snd p))) ` set (filter D (m_workers m))"
    and "0 < k \<longleftrightarrow> (\<exists>p \<in> set (m_workers m).
       w_State (checked (clock (fst p)) m (worker_at m (snd p))) \<noteq> w_State (worker_at m (snd p)))"
    and "pool_ok m'" and "same_settings m m'" and "length (m_store m') = length (m_store m)"
proof -
  note facts = scan_loop [OF published_refs [OF assms(1)] assms(2) [unfolded scan_workers_def] assms(3) refl]
  have uniq: "fst p = fst q \<Longrightarrow> p \<in> set (m_workers m) \<Longrightarrow> q \<in> set (m_workers m) \<Longrightarrow> p = q" for p q
    using assms(1) unfolding pool_ok_def gomap_ok_def by (metis eq_key_imp_eq_value prod.collapse)
  have keys: "fst p \<notin> fst ` set (filter D (m_workers m)) \<longleftrightarrow> \<not> D p" if "p \<in> set (m_workers m)" for p
    using that uniq by (auto, metis fst_conv image_eqI mem_Collect_eq)
  show w: "m_workers m' = filter (\<lambda>p. \<not> D p) (m_workers m)"
    using facts keys by (simp cong: filter_cong)
  show "map (\<lambda>(i, r, _). (i, r)) vs = filter D (m_workers m)" using facts by simp
  show at: "worker_at m' (snd p) = checked (clock (fst p)) m (worker_at m (snd p))" if "p \<in> set (m_workers m)" for p
    using facts that by blast
  show used: "m_usedIndexes m' = m_usedIndexes m - (\<lambda>p. w_Index (worker_at m (snd p))) ` set (filter D (m_workers m))"
    using facts by blast
  show "0 < k \<longleftrightarrow> (\<exists>p \<in> set (m_workers m).
       w_State (checked (clock (fst p)) m (worker_at m (snd p))) \<noteq> w_State (worker_at m (snd p)))"
    using facts by blast
  show settings: "same_settings m m'" and len: "length (m_store m') = length (m_store m)" using facts by blast+
  have "published_ok m' p" if "p \<in> set (m_workers m')" for p
  proof -
    have p: "p \<in> set (m_workers m)" "\<not> D p" using that w by auto
    then have pp: "(fst p, snd p) \<in> set (m_workers m)" by simp
    have "w_Index (worker_at m (snd p)) \<in> m_usedIndexes m'"
      using used published(6) [OF assms(1), of "fst p" "snd p"] p index_inj [OF assms(1) p(1)] by auto
    then show ?thesis
      using at [OF p(1)] len published [OF assms(1) pp] by (simp add: published_ok_def Let_def)
  qed
  moreover have "gomap_ok (m_workers m')" using assms(1) w by (simp add: pool_ok_def)
  moreover have "m_usedIndexes m' \<subseteq> {0..maxNamespaceIndex}" using used assms(1) by (auto simp: pool_ok_def)
  ultimately show "pool_ok m'" using settings assms(1) by (simp add: pool_ok_def same_settings_def)
qed

section \<open>Stopping the victims\<close>

lemma stop_worker_facts:
  assumes "stop_worker E r (m, h) = (m', h')"
  obtains e w' where "Stop (e_os E) (worker_at m r) h = (e, w', h')" and "m' = set_worker m r w'"
  using assms by (auto split: prod.splits)

lemma worker_at_set_id:
  "w_ID w' = w_ID (worker_at m r) \<Longrightarrow> w_Index w' = w_Index (worker_at m r) \<Longrightarrow>
   w_ID (worker_at (set_worker m r w') r') = w_ID (worker_at m r') \<and>
   w_Index (worker_at (set_worker m r w') r') = w_Index (worker_at m r')"
  by (cases "r' = r"; cases "r < length (m_store m)") (auto simp: worker_at_def set_worker_def list_update_beyond)

lemma stop_victims_facts:
  assumes "stop_victims E vs (m, h) msm = ((m', h'), msm')" and "\<forall>v \<in> set vs. fst (snd v) < length (m_store m)"
  shows "m_workers m' = m_workers m \<and> m_usedIndexes m' = m_usedIndexes m \<and> same_settings m m' \<and>
    length (m_store m') = length (m_store m) \<and>
    (\<forall>r. w_ID (worker_at m' r) = w_ID (worker_at m r) \<and> w_Index (worker_at m' r) = w_Index (worker_at m r)) \<and>
    (\<forall>r. r \<notin> (\<lambda>v. fst (snd v)) ` set vs \<longrightarrow> worker_at m' r = worker_at m r) \<and>
    (\<forall>r. w_stopOnce (worker_at m r) \<or> r \<in> (\<lambda>v. fst (snd v)) ` set vs \<longrightarrow> w_stopOnce (worker_at m' r)) \<and>
    msm' = map_option (\<lambda>sm. foldl RemoveByWorker sm (map fst vs)) msm"
  using assms
proof (induction vs arbitrary: m h msm)
  case Nil
  then show ?case by (auto simp: same_settings_def option.map_ident)
next
  case (Cons v vs)
  obtain wid r reason where v: "v = (wid, r, reason)" by (cases v)
  obtain m1 h1 where s: "stop_worker E r (m, h) = (m1, h1)" by (cases "stop_worker E r (m, h)")
  then obtain e w' where w': "Stop (e_os E) (worker_at m r) h = (e, w', h1)" "m1 = set_worker m r w'"
    by (rule stop_worker_facts)
  note keeps = Stop_keeps [OF w'(1)]
  have r: "r < length (m_store m)" using Cons.prems(2) v by simp
  have "m_workers m' = m_workers m1 \<and> m_usedIndexes m' = m_usedIndexes m1 \<and> same_settings m1 m' \<and>
    length (m_store m') = length (m_store m1) \<and>
    (\<forall>r. w_ID (worker_at m' r) = w_ID (worker_at m1 r) \<and> w_Index (worker_at m' r) = w_Index (worker_at m1 r)) \<and>
    (\<forall>r. r \<notin> (\<lambda>v. fst (snd v)) ` set vs \<longrightarrow> worker_at m' r = worker_at m1 r) \<and>
    (\<forall>r. w_stopOnce (worker_at m1 r) \<or> r \<in> (\<lambda>v. fst (snd v)) ` set vs \<longrightarrow> w_stopOnce (worker_at m' r)) \<and>
    msm' = map_option (\<lambda>sm. foldl RemoveByWorker sm (map fst vs)) (map_option (\<lambda>sm. RemoveByWorker sm wid) msm)"
    using Cons.prems s w'(2) by (intro Cons.IH) (auto simp: v)
  moreover have "w_ID (worker_at m1 r') = w_ID (worker_at m r') \<and> w_Index (worker_at m1 r') = w_Index (worker_at m r')" for r'
    unfolding w'(2) by (rule worker_at_set_id) (simp_all add: keeps)
  moreover have "w_stopOnce (worker_at m1 r') \<longleftrightarrow> r' = r \<or> w_stopOnce (worker_at m r')" for r'
    using r keeps w'(2) by (cases "r' = r") auto
  moreover have "worker_at m1 r' = worker_at m r'" if "r' \<noteq> r" for r' using that w'(2) by simp
  moreover have "same_settings m m1" by (simp add: w'(2) same_settings_def set_worker_def)
  ultimately show ?case
    using w'(2) by (auto simp: v option.map_comp o_def same_settings_def)
qed

lemma RemoveByWorker_all:
  assumes "session_ok sm"
  shows "session_ok (foldl RemoveByWorker sm ids)" and
    "mget (sessions (foldl RemoveByWorker sm ids)) sid = Some s \<longleftrightarrow> mget (sessions sm) sid = Some s \<and> ss_workerID s \<notin> set ids"
proof -
  have "session_ok (foldl RemoveByWorker sm ids) \<and>
    (mget (sessions (foldl RemoveByWorker sm ids)) sid = Some s \<longleftrightarrow> mget (sessions sm) sid = Some s \<and> ss_workerID s \<notin> set ids)"
    using assms
  proof (induction ids arbitrary: sm)
    case (Cons i ids)
    have "gomap_ok (sessions sm)" using Cons.prems by (simp add: session_ok_def)
    then have "mget (sessions (RemoveByWorker sm i)) sid = Some s \<longleftrightarrow> mget (sessions sm) sid = Some s \<and> ss_workerID s \<noteq> i"
      by (auto simp: sessions_RemoveByWorker mget_filter split: option.splits)
    moreover have "session_ok (RemoveByWorker sm i)"
      using Cons.prems sessions_RemoveByWorker [of sm i] session_ok_filter [of sm]
      by (simp add: session_ok_def RemoveByWorker_def)
    ultimately show ?case using Cons.IH by auto
  qed simp
  then show "session_ok (foldl RemoveByWorker sm ids)" and
    "mget (sessions (foldl RemoveByWorker sm ids)) sid = Some s \<longleftrightarrow> mget (sessions sm) sid = Some s \<and> ss_workerID s \<notin> set ids"
    by simp_all
qed

lemma release_all:
  "foldl (\<lambda>m r. releaseIndex m (w_Index (worker_at m r))) m rs =
     m\<lparr>m_usedIndexes := m_usedIndexes m - (\<lambda>r. w_Index (worker_at m r)) ` set rs\<rparr>"
proof (induction rs arbitrary: m)
  case (Cons r rs)
  show ?case unfolding foldl.simps Cons.IH by (simp add: releaseIndex_def worker_at_def flip: Diff_insert2)
qed simp

section \<open>The whole check\<close>

lemma signal_fields [simp]:
  "m_workers (signalGrow m) = m_workers m" "m_workers (signalPreconnect m) = m_workers m"
  "m_usedIndexes (signalGrow m) = m_usedIndexes m" "m_usedIndexes (signalPreconnect m) = m_usedIndexes m"
  "worker_at (signalGrow m) r = worker_at m r" "worker_at (signalPreconnect m) r = worker_at m r"
  "pool_ok (signalGrow m) = pool_ok m" "pool_ok (signalPreconnect m) = pool_ok m"
  "m_grow (signalGrow m)" "m_grow (signalPreconnect m) = m_grow m" "m_preconnectSignal (signalPreconnect m)"
  by (simp_all add: signalGrow_def signalPreconnect_def signal_def worker_at_def pool_ok_def published_ok_def)

lemma check_pool:
  assumes "pool_ok m" and "checkWorkers E clock m msm h = (m', msm', h')"
    and "D = (\<lambda>p. doomed (clock (fst p)) msm m (fst p) (worker_at m (snd p)))"
  shows "pool_ok m'" and "m_workers m' = filter (\<lambda>p. \<not> D p) (m_workers m)"
    and "m_usedIndexes m' = m_usedIndexes m - (\<lambda>p. w_Index (worker_at m (snd p))) ` set (filter D (m_workers m))"
    and "p \<in> set (m_workers m) \<Longrightarrow> \<not> D p \<Longrightarrow> worker_at m' (snd p) = checked (clock (fst p)) m (worker_at m (snd p))"
    and "p \<in> set (m_workers m) \<Longrightarrow> D p \<Longrightarrow> w_stopOnce (worker_at m' (snd p)) \<and> m_grow m' \<and> m_preconnectSignal m'"
    and "p \<in> set (m_workers m) \<Longrightarrow> w_State (checked (clock (fst p)) m (worker_at m (snd p))) \<noteq> w_State (worker_at m (snd p)) \<Longrightarrow>
      m_preconnectSignal m'"
    and "msm' = map_option (\<lambda>sm. foldl RemoveByWorker sm (map fst (filter D (m_workers m)))) msm"
proof -
  obtain m1 vs k where scan: "scan_workers clock msm m = (m1, vs, k)" by (cases "scan_workers clock msm m")
  obtain m2 h2 msm2 where stops: "stop_victims E vs (m1, h) msm = ((m2, h2), msm2)"
    by (cases "stop_victims E vs (m1, h) msm") auto
  let ?m3 = "if length vs > 0 then signalPreconnect (signalGrow m2) else m2"
  let ?m4 = "if k > 0 then signalPreconnect ?m3 else ?m3"
  have m': "m' = ?m4" and msm': "msm' = msm2" using assms(2) scan stops by (auto simp: checkWorkers_def Let_def)
  note sp = scan_pool [OF assms(1) scan assms(3)]
  have vs: "map (\<lambda>(i, r, _). (i, r)) vs = filter D (m_workers m)" by (fact sp(2))
  have ids: "map fst vs = map fst (filter D (m_workers m))"
    unfolding vs [symmetric] by (simp add: o_def case_prod_beta)
  have refs: "(\<lambda>v. fst (snd v)) ` set vs = snd ` set (filter D (m_workers m))"
    unfolding vs [symmetric] by (force simp: case_prod_beta)
  have "\<forall>x \<in> snd ` set (filter D (m_workers m)). x < length (m_store m1)"
    using published_refs(2) [OF assms(1)] sp(8) by auto
  then have "\<forall>v \<in> set vs. fst (snd v) < length (m_store m1)" unfolding refs [symmetric] by blast
  note sv = stop_victims_facts [OF stops this]
  have p2: "pool_ok m2" using sp(6) sv by (auto simp: pool_ok_def published_ok_def same_settings_def Let_def)
  show "pool_ok m'" and "m_workers m' = filter (\<lambda>p. \<not> D p) (m_workers m)"
    and "m_usedIndexes m' = m_usedIndexes m - (\<lambda>p. w_Index (worker_at m (snd p))) ` set (filter D (m_workers m))"
    using p2 sv sp(1,4) by (simp_all add: m')
  have at: "worker_at m' r = worker_at m2 r" for r by (simp add: m')
  show "worker_at m' (snd p) = checked (clock (fst p)) m (worker_at m (snd p))" if "p \<in> set (m_workers m)" "\<not> D p"
  proof -
    have "snd p \<notin> snd ` set (filter D (m_workers m))"
      using that published_refs(1) [OF assms(1)] by (auto simp: distinct_map inj_on_def)
    then show ?thesis using sv sp(3) [OF that(1)] refs at by simp
  qed
  show "w_stopOnce (worker_at m' (snd p)) \<and> m_grow m' \<and> m_preconnectSignal m'" if "p \<in> set (m_workers m)" "D p"
  proof -
    have "snd p \<in> (\<lambda>v. fst (snd v)) ` set vs" using that refs by auto
    then show ?thesis using sv at by (auto simp: m')
  qed
  show "m_preconnectSignal m'"
    if "p \<in> set (m_workers m)" "w_State (checked (clock (fst p)) m (worker_at m (snd p))) \<noteq> w_State (worker_at m (snd p))"
    using that sp(5) by (auto simp: m')
  show "msm' = map_option (\<lambda>sm. foldl RemoveByWorker sm (map fst (filter D (m_workers m)))) msm"
    using sv msm' ids by simp
qed

lemma sample_pools_ok:
  assumes "w_ID w = ''worker-3''" and "w_Index w = 3"
  shows "pool_ok (with_worker sample_manager w)"
proof -
  have "''worker-3'' = worker_name 3" by code_simp
  then show ?thesis using assms by (intro with_worker_ok sample_manager_ok) (simp_all add: sample_manager_eq maxNamespaceIndex_def)
qed

lemma sample_busy_ok: "pool_ok sample_busy" and sample_exited_ok: "pool_ok sample_exited"
  unfolding sample_busy_def sample_exited_def
  by (rule sample_pools_ok; simp add: busy_sample_def exited_sample_def sample_worker_def)+

section \<open>Warming the pool\<close>

lemma createForCountry_settings:
  assumes "pool_ok m" and "createForCountry E m c h = (Inl e, m', h')"
  shows "m_minPoolSize m' = m_minPoolSize m"
proof (cases "tryCreate E m c h")
  case (fields x m1 h1)
  have "groups_ok (m_servers m)" using assms(1) by (simp add: pool_ok_def)
  then have "m_minPoolSize m1 = m_minPoolSize m"
    using fields by (cases x) (auto dest: tryCreate_Inl elim: tryCreate_Inr)
  then show ?thesis
    using assms(2) fields by (auto simp: createForCountry_def publishWorker_def releaseIndex_def set_worker_def Let_def
        split: sum.splits prod.splits if_splits bool.splits)
qed

lemma countReady_eq: "countReady m = int (length (filter (\<lambda>w. serving (wi_State w)) (pool_infos m)))"
proof -
  have "foldl (\<lambda>count info. if serving (wi_State info) then count + 1 else count) n infos =
      n + int (length (filter (\<lambda>w. serving (wi_State w)) infos))" for n :: int and infos :: "worker_info list"
    by (induction infos arbitrary: n) auto
  then show ?thesis unfolding countReady_def serving_iff by simp
qed

lemma countReady_with_worker:
  assumes "pool_ok m" and "fresh_worker m c w"
  shows "countReady (with_worker m w) = countReady m + 1"
  using assms by (simp add: countReady_eq pool_infos_with_worker fresh_worker_def Info_def serving_def)

lemma warm_pool_total:
  assumes "pool_ok m"
  shows "\<exists>m' h'. warm_pool E m h = Some (m', h') \<and> pool_ok m' \<and> m_minPoolSize m' = m_minPoolSize m \<and>
    countReady m \<le> countReady m' \<and> countReady m' \<le> max (countReady m) (m_minPoolSize m) \<and>
    (\<exists>m1 h1. warming E (m, h) (m1, h1) \<and>
      (m' = m1 \<and> m_minPoolSize m \<le> countReady m' \<or>
       (\<exists>e. m' = m1 \<and> h' = h1 @ [(CtxErr, Some e)]) \<or>
       (\<exists>e. countReady m1 < m_minPoolSize m \<and> createForCountry E m1 [] (h1 @ [(CtxErr, None)]) = (Inl e, m', h'))))"
  using assms
proof (induction "nat (m_minPoolSize m - countReady m)" arbitrary: m h rule: less_induct)
  case less
  have bound: "countReady m \<le> max (countReady m) (m_minPoolSize m)" by simp
  show ?case
  proof (cases "os_err (e_os E) h CtxErr = None \<and> countReady m < m_minPoolSize m")
    case False
    then have "warm_pool E m h = Some (m, h @ [(CtxErr, os_err (e_os E) h CtxErr)])"
      by (subst warm_pool.simps) (auto simp: sys_def split: option.splits)
    moreover have "m_minPoolSize m \<le> countReady m \<or> (\<exists>e. os_err (e_os E) h CtxErr = Some e)" using False by auto
    ultimately show ?thesis using less.prems bound warming.so_far [of E "(m, h)"] by (intro exI [of _ m] exI) auto
  next
    case True
    obtain x m1 h1 where c: "createForCountry E m [] (h @ [(CtxErr, None)]) = (x, m1, h1)"
      by (cases "createForCountry E m [] (h @ [(CtxErr, None)])")
    have step: "warm_pool E m h = (case x of Inl e \<Rightarrow> Some (m1, h1) | Inr info \<Rightarrow> warm_pool E m1 h1)"
      using True c by (subst warm_pool.simps) (simp add: sys_def split: sum.split)
    show ?thesis
    proof (cases x)
      case (Inl e)
      with c have c': "createForCountry E m [] (h @ [(CtxErr, None)]) = (Inl e, m1, h1)" by simp
      have "m_minPoolSize m1 = m_minPoolSize m" using less.prems c' by (rule createForCountry_settings)
      moreover have "countReady m1 = countReady m" using createForCountry_Inl(4) [OF less.prems c'] by (simp add: countReady_eq)
      moreover have "warming E (m, h) (m, h)" by (rule warming.so_far)
      ultimately show ?thesis using createForCountry_Inl(3) [OF less.prems c'] step Inl less.prems c' True by auto
    next
      case (Inr info)
      with c obtain w where w: "fresh_worker m [] w" "m1 = with_worker m w"
        using createForCountry_Inr [OF less.prems, of E "[]"] by metis
      have n: "countReady m1 = countReady m + 1" and min: "m_minPoolSize m1 = m_minPoolSize m" and ok: "pool_ok m1"
        using w countReady_with_worker [OF less.prems w(1)] fresh_with_worker_ok [OF less.prems w(1)]
        by (simp_all add: with_worker_def)
      have "nat (m_minPoolSize m1 - countReady m1) < nat (m_minPoolSize m - countReady m)" using n min True by simp
      note ih = less.hyps [OF this ok, of h1]
      have "warming E (m, h) s" if "warming E (m1, h1) s" for s
        using warming.one_more [OF _ _ c [unfolded Inr] that] True by simp
      then show ?thesis using ih step Inr n min True by fastforce
    qed
  qed
qed

section \<open>Properties\<close>

text \<open>
  C12: the health check leaves working workers alone. A worker whose process runs is neither evicted
  nor stopped while it has an open connection, or awaits its replacement, or, unless it is closing,
  has a live sticky session or was used within the idle timeout; at most it is marked as due
  for replacement.
\<close>

theorem check_spares_busy:
  assumes "pool_ok m" and "checkWorkers E clock m msm h = (m', msm', h')"
    and "(wid, r) \<in> set (m_workers m)" and "w = worker_at m r" and "\<not> w_processExited w"
    and "w_ActiveConns w > 0 \<or> w_State w = WorkerAwaitingReplacement \<or>
      w_State w \<noteq> WorkerClosing \<and>
        ((\<exists>sm. msm = Some sm \<and> ActiveSessionsForWorker (clock wid) sm wid > 0) \<or>
         time_sub (clock wid) (w_LastUsed w) \<le> m_idleTimeout m)"
  shows "mget (m_workers m') wid = Some r \<and> w_stopOnce (worker_at m' r) = w_stopOnce w \<and>
    w_State (worker_at m' r) \<in> {w_State w, WorkerAwaitingReplacement} \<and> w_ActiveConns (worker_at m' r) = w_ActiveConns w"
proof -
  define D where "D = (\<lambda>p. doomed (clock (fst p)) msm m (fst p) (worker_at m (snd p)))"
  note cp = check_pool [OF assms(1,2) D_def]
  have "\<not> D (wid, r)"
    using assms(4-6) by (auto simp: D_def doomed_def ProcessExited_def isClosingDrained_def idle_timed_out_def aged_keeps
        isAwaitingReplacement_def IsIdle_def LastUsedAt_def split: option.splits)
  with cp(2) assms(3) have "(wid, r) \<in> set (m_workers m')" by auto
  then have "mget (m_workers m') wid = Some r" using cp(1) by (simp add: pool_ok_def mget_iff)
  moreover have "worker_at m' r = aged (clock wid) m w"
    using cp(4) [OF assms(3) \<open>\<not> D (wid, r)\<close>] assms(4,5) by (simp add: checked_def ProcessExited_def)
  ultimately show ?thesis by (auto simp: aged_def Let_def markAwaitingReplacement_def)
qed

theorem check_spares_busy_witness:
  "\<exists>m' msm' h'. checkWorkers sample_env (\<lambda>_. 600 * minute) sample_busy None [] = (m', msm', h') \<and>
     mget (m_workers m') ''worker-3'' = Some 0"
proof -
  obtain m' msm' h' where c: "checkWorkers sample_env (\<lambda>_. 600 * minute) sample_busy None [] = (m', msm', h')"
    by (cases "checkWorkers sample_env (\<lambda>_. 600 * minute) sample_busy None []")
  have "mget (m_workers m') ''worker-3'' = Some 0"
    using check_spares_busy [OF sample_busy_ok c, of "''worker-3''" 0 busy_sample]
    by (simp add: sample_busy_def with_worker_def sample_manager_eq worker_at_def busy_sample_def sample_worker_def)
  with c show ?thesis by blast
qed

text \<open>
  C13: what the health check evicts is cleaned up. A worker whose process has ended, or that is
  closing and drained, leaves the pool and is stopped, its slot is free again, no session leads to
  it any more, and the warmer and the preconnect coordinator are woken; the pool stays well formed.
\<close>

theorem check_evicts:
  assumes "pool_ok m" and "session_ok sm" and "checkWorkers E clock m (Some sm) h = (m', msm', h')"
    and "(wid, r) \<in> set (m_workers m)" and "w = worker_at m r"
    and "w_processExited w \<or> w_State w = WorkerClosing \<and> w_ActiveConns w = 0"
  shows "pool_ok m' \<and> mget (m_workers m') wid = None \<and> w_Index w \<notin> m_usedIndexes m' \<and>
    w_stopOnce (worker_at m' r) \<and> m_grow m' \<and> m_preconnectSignal m' \<and>
    (\<exists>sm'. msm' = Some sm' \<and> session_ok sm' \<and> (\<forall>now. ActiveSessionsForWorker now sm' wid = 0))"
proof -
  define D where "D = (\<lambda>p. doomed (clock (fst p)) (Some sm) m (fst p) (worker_at m (snd p)))"
  note cp = check_pool [OF assms(1,3) D_def]
  have D: "D (wid, r)"
    using assms(5,6) by (auto simp: D_def doomed_def ProcessExited_def isClosingDrained_def aged_keeps)
  let ?sm' = "foldl RemoveByWorker sm (map fst (filter D (m_workers m)))"
  have gone: "ss_workerID s \<noteq> wid" if "(sid, s) \<in> set (sessions ?sm')" for sid s
  proof -
    have "gomap_ok (sessions ?sm')" using RemoveByWorker_all(1) [OF assms(2)] by (auto simp: session_ok_def)
    then have "mget (sessions ?sm') sid = Some s" using that by (simp add: mget_iff)
    then have "ss_workerID s \<notin> fst ` set (filter D (m_workers m))" using RemoveByWorker_all(2) [OF assms(2)] by auto
    then show ?thesis using D assms(4) by force
  qed
  have "\<forall>now. ActiveSessionsForWorker now ?sm' wid = 0"
    by (force simp: ActiveSessions_eq filter_empty_conv dest: gone)
  moreover have "mget (m_workers m') wid = None"
  proof (rule ccontr)
    assume "mget (m_workers m') wid \<noteq> None"
    then obtain r' where "(wid, r') \<in> set (m_workers m')" by (auto dest: mget_in_set)
    then have "(wid, r') \<in> set (m_workers m)" "\<not> D (wid, r')" using cp(2) by auto
    with D assms(1,4) show False unfolding pool_ok_def gomap_ok_def by (metis eq_key_imp_eq_value)
  qed
  moreover have "w_Index w \<notin> m_usedIndexes m'" using cp(3) D assms(4,5) by force
  ultimately show ?thesis using cp(1) cp(5) [OF assms(4) D] cp(7) RemoveByWorker_all(1) [OF assms(2)] by auto
qed

theorem check_evicts_witness:
  "\<exists>m' msm' h'. checkWorkers sample_env (\<lambda>_. 0) sample_exited (Some sample_sessions) [] = (m', msm', h') \<and>
     mget (m_workers m') ''worker-3'' = None \<and> m_grow m' \<and> 3 \<notin> m_usedIndexes m'"
proof -
  obtain m' msm' h' where c: "checkWorkers sample_env (\<lambda>_. 0) sample_exited (Some sample_sessions) [] = (m', msm', h')"
    by (cases "checkWorkers sample_env (\<lambda>_. 0) sample_exited (Some sample_sessions) []")
  have "mget (m_workers m') ''worker-3'' = None \<and> m_grow m' \<and> 3 \<notin> m_usedIndexes m'"
    using check_evicts [OF sample_exited_ok sample_sessions_ok c, of "''worker-3''" 0 exited_sample]
    by (simp add: sample_exited_def with_worker_def sample_manager_eq worker_at_def exited_sample_def sample_worker_def)
  with c show ?thesis by blast
qed

text \<open>
  C14: a worker past its effective lifetime is rotated, not dropped. If it is ready or idle and its
  process runs, it stays in the pool and keeps its connections, its state becomes awaiting
  replacement with the time of the check, and the preconnect coordinator is woken.
\<close>

theorem check_rotates:
  assumes "pool_ok m" and "checkWorkers E clock m msm h = (m', msm', h')"
    and "(wid, r) \<in> set (m_workers m)" and "w = worker_at m r" and "\<not> w_processExited w"
    and "w_State w \<in> {WorkerReady, WorkerIdle}" and "0 < m_maxLifetime m"
    and "lifetime = (if w_effectiveMaxLifetime w = 0 then m_maxLifetime m else w_effectiveMaxLifetime w)"
    and "0 < lifetime" and "lifetime < time_sub (clock wid) (w_CreatedAt w)"
  shows "mget (m_workers m') wid = Some r \<and> m_preconnectSignal m' \<and>
    worker_at m' r = w\<lparr>w_State := WorkerAwaitingReplacement, w_rotationScheduledAt := clock wid\<rparr>"
proof -
  define D where "D = (\<lambda>p. doomed (clock (fst p)) msm m (fst p) (worker_at m (snd p)))"
  note cp = check_pool [OF assms(1,2) D_def]
  have a: "aged (clock wid) m w = w\<lparr>w_State := WorkerAwaitingReplacement, w_rotationScheduledAt := clock wid\<rparr>"
    using assms(6-10) by (auto simp: aged_def Let_def effectiveLifetime_def Age_def markAwaitingReplacement_def)
  have c: "checked (clock wid) m w = aged (clock wid) m w" using assms(5) by (simp add: checked_def ProcessExited_def)
  have "w_State (aged (clock wid) m w) \<noteq> w_State w" using a assms(6) by auto
  moreover from this have nD: "\<not> D (wid, r)"
    using marked_not_doomed assms(4,5) by (auto simp: D_def ProcessExited_def)
  moreover have "(wid, r) \<in> set (m_workers m')" using nD cp(2) assms(3) by auto
  then have "mget (m_workers m') wid = Some r" using cp(1) by (simp add: pool_ok_def mget_iff)
  ultimately show ?thesis using cp(4) [OF assms(3) nD] cp(6) [OF assms(3)] a c assms(4) by simp
qed

theorem check_rotates_witness:
  "\<exists>m' msm' h'. checkWorkers sample_env (\<lambda>_. 600 * minute) sample_busy None [] = (m', msm', h') \<and>
     w_State (worker_at m' 0) = WorkerAwaitingReplacement \<and> m_preconnectSignal m'"
proof -
  obtain m' msm' h' where c: "checkWorkers sample_env (\<lambda>_. 600 * minute) sample_busy None [] = (m', msm', h')"
    by (cases "checkWorkers sample_env (\<lambda>_. 600 * minute) sample_busy None []")
  have "m_maxLifetime sample_busy = 60 * minute"
    by (simp add: sample_busy_def with_worker_def sample_manager_def New_def Let_def maxWorkerSlots_def
        maxNamespaceIndex_def reservedForOnDemand_def)
  then have "w_State (worker_at m' 0) = WorkerAwaitingReplacement \<and> m_preconnectSignal m'"
    using check_rotates [OF sample_busy_ok c, of "''worker-3''" 0 busy_sample "60 * minute"]
    by (simp add: sample_busy_def with_worker_def sample_manager_eq worker_at_def busy_sample_def sample_worker_def
        time_sub_def sat64_def minute_def second_def)
  with c show ?thesis by blast
qed

text \<open>
  C25: the pool warmer's loop ends, and fills the pool. From every well-formed pool it returns; it
  never creates more workers than the minimum asks for; and it stops, after a number of successful
  creations, only when the minimum is reached, when it has just been told that its context is
  cancelled, or when the next creation fails, whose outcome is then the final state.
\<close>

theorem warm_pool_fills:
  assumes "pool_ok m"
  shows "\<exists>m' h'. warm_pool E m h = Some (m', h') \<and> pool_ok m' \<and>
    countReady m \<le> countReady m' \<and> countReady m' \<le> max (countReady m) (m_minPoolSize m) \<and>
    (\<exists>m1 h1. warming E (m, h) (m1, h1) \<and>
      (m' = m1 \<and> m_minPoolSize m \<le> countReady m' \<or>
       (\<exists>e. m' = m1 \<and> h' = h1 @ [(CtxErr, Some e)]) \<or>
       (\<exists>e. countReady m1 < m_minPoolSize m \<and> createForCountry E m1 [] (h1 @ [(CtxErr, None)]) = (Inl e, m', h'))))"
  using warm_pool_total [OF assms, of E h] by blast

theorem warm_pool_fills_witness:
  "\<exists>m' h'. warm_pool sample_env sample_manager [] = Some (m', h') \<and> pool_ok m' \<and> countReady m' \<le> 2"
  using warm_pool_fills [OF sample_manager_ok, of sample_env "[]"]
  by (auto simp: countReady_eq pool_infos_def sample_manager_eq)

text \<open>
  C26: after \<open>Shutdown\<close> nothing is left and nothing comes back. Every worker of the pool is stopped,
  the pool is empty, their slots are free, and publishing a worker that was still being created is
  refused: it is stopped and its slot is freed too.
\<close>

theorem Shutdown_final:
  assumes "pool_ok m" and "Shutdown E m h = (m', h')"
  shows "m_workers m' = [] \<and> pool_ok m' \<and> (\<forall>(wid, r) \<in> set (m_workers m). w_stopOnce (worker_at m' r)) \<and>
    m_usedIndexes m' = m_usedIndexes m - (\<lambda>p. w_Index (worker_at m (snd p))) ` set (m_workers m) \<and>
    (\<forall>m2 r h2. m_rootDone m2 = m_rootDone m' \<longrightarrow> r < length (m_store m2) \<longrightarrow>
       (\<exists>m3 h3. publishWorker E m2 r h2 = (False, m3, h3) \<and> m_workers m3 = m_workers m2 \<and>
          w_stopOnce (worker_at m3 r) \<and> m_usedIndexes m3 = m_usedIndexes m2 - {w_Index (worker_at m2 r)}))"
proof -
  define m0 where "m0 = foldl (\<lambda>m r. releaseIndex m (w_Index (worker_at m r))) (m\<lparr>m_rootDone := True\<rparr>) (map snd (m_workers m))"
  let ?m1 = "m0\<lparr>m_workers := []\<rparr>"
  have m1: "m_store ?m1 = m_store m" "m_workers ?m1 = []" "m_rootDone ?m1" "m_servers ?m1 = m_servers m"
    "m_usedIndexes ?m1 = m_usedIndexes m - (\<lambda>p. w_Index (worker_at m (snd p))) ` set (m_workers m)"
    unfolding m0_def release_all by (auto simp: worker_at_def)
  have fold: "foldl (\<lambda>s r. stop_worker E r s) (?m1, h) (map snd (m_workers m)) = (m', h')"
    using assms(2) by (simp add: Shutdown_def shutdown_section_def Let_def m0_def)
  have as_victims: "stop_victims E (map (\<lambda>r. ([], r, [])) rs) s None = (foldl (\<lambda>s r. stop_worker E r s) s rs, None)" for rs s
    by (induction rs arbitrary: s) auto
  have "\<forall>v \<in> set (map (\<lambda>r. ([], r, [])) (map snd (m_workers m))). fst (snd v) < length (m_store ?m1)"
    using published_refs(2) [OF assms(1)] m1(1) by auto
  note sv = stop_victims_facts [OF as_victims [of "map snd (m_workers m)" "(?m1, h)", unfolded fold] this]
  have "m_workers m' = []" "m_usedIndexes m' = m_usedIndexes ?m1" "m_servers m' = m_servers m" "m_rootDone m'"
    using sv m1 by (auto simp: same_settings_def)
  moreover have "\<forall>(wid, r) \<in> set (m_workers m). w_stopOnce (worker_at m' r)" using sv by force
  moreover have "\<exists>m3 h3. publishWorker E m2 r h2 = (False, m3, h3) \<and> m_workers m3 = m_workers m2 \<and>
          w_stopOnce (worker_at m3 r) \<and> m_usedIndexes m3 = m_usedIndexes m2 - {w_Index (worker_at m2 r)}"
    if "m_rootDone m2" "r < length (m_store m2)" for m2 r h2
  proof (cases "Stop (e_os E) (worker_at m2 r) h2")
    case (fields e w h3)
    with that Stop_keeps [OF fields] show ?thesis
      by (simp add: publishWorker_def releaseIndex_def Let_def worker_at_def set_worker_def)
  qed
  ultimately show ?thesis using m1(5) assms(1) by (auto simp: pool_ok_def)
qed

theorem Shutdown_final_witness:
  "\<exists>m' h'. Shutdown sample_env sample_busy [] = (m', h') \<and> m_workers m' = [] \<and> w_stopOnce (worker_at m' 0)"
proof -
  obtain m' h' where s: "Shutdown sample_env sample_busy [] = (m', h')" by (cases "Shutdown sample_env sample_busy []")
  have "(''worker-3'', 0) \<in> set (m_workers sample_busy)"
    by (simp add: sample_busy_def with_worker_def sample_manager_eq busy_sample_def sample_worker_def)
  with Shutdown_final [OF sample_busy_ok s] s show ?thesis by auto
qed

end
