(* ===== verification/Preconnect.thy ===== *)
theory Preconnect
  imports Health
begin

text \<open>
  \<open>internal/worker/preconnect_linux.go\<close>: replacing workers that are past their lifetime. The
  coordinator's \<open>dispatchPending\<close> runs under the manager's lock: a pass over the pool that counts
  the rotation's footprint, forces overdue workers to close and collects candidates, and a second
  loop that starts a goroutine for each candidate the footprint leaves room for. The result
  lists the workers for which \<open>preconnectWorker\<close> is started.

  \<open>preconnectWorker\<close> releases the lock while it waits, while it creates the new worker, between
  its check of the grace period and the forced close, and between publishing the new worker and
  letting the old one drain. What the other goroutines do to the manager at each of these points is
  the parameter \<open>others\<close> (what they may do is \<open>others_ok\<close>: the old worker only takes steps of its
  life); the loops may in principle run forever, so they are partial functions in the option type,
  and that they return is a theorem. The fields that tests replace (\<open>preconnectDispatch\<close>, \<open>preconnectCreate\<close>) have
  the values the program gives them.
\<close>

section \<open>Definitions\<close>

definition preconnectInitialBackoff :: duration where "preconnectInitialBackoff = 10 * second"
definition preconnectMaxBackoff :: duration where "preconnectMaxBackoff = 60 * second"
definition namespaceWaitBeforeRetry :: duration where "namespaceWaitBeforeRetry = 5 * second"

definition nextBackoff :: "duration \<Rightarrow> duration" where
  "nextBackoff current =
     (let next' = dur_mul current 2 in
      if next' > preconnectMaxBackoff then preconnectMaxBackoff else next')"

definition effectiveGrace :: "manager \<Rightarrow> duration" where
  "effectiveGrace m =
     (if m_rotationGrace m > 0 then m_rotationGrace m
      else if m_maxLifetime m \<le> 0 then 0
      else
        let auto' = go_div (m_maxLifetime m) 10; maxGrace = 15 * minute in
        if auto' > maxGrace then maxGrace else auto')"

type_synonym dispatch_state = "manager \<times> int \<times> wref list \<times> int"

fun dispatch_one :: "(string \<Rightarrow> time) \<Rightarrow> duration \<Rightarrow> dispatch_state \<Rightarrow> string \<times> wref \<Rightarrow> dispatch_state" where
  "dispatch_one clock grace (m, footprint, candidates, graceForced) (wid, r) =
     (let w = worker_at m r in
      case w_State w of
        WorkerAwaitingReplacement \<Rightarrow>
          if grace > 0 \<and> \<not> is_zero_time (rotationScheduledSince w) \<and>
             time_sub (clock wid) (rotationScheduledSince w) \<ge> grace
          then
            let (marked, w) = markClosingFromAwaiting w;
                m = set_worker m r w;
                graceForced = (if marked then graceForced + 1 else graceForced);
                footprint = (if \<not> isClosingDrained (worker_at m r) then footprint + 1 else footprint)
            in (m, footprint, candidates, graceForced)
          else if r \<in> m_preconnectInflight m then (m, footprint + 1, candidates, graceForced)
          else (m, footprint, candidates @ [r], graceForced)
      | WorkerClosing \<Rightarrow>
          (m, if \<not> isClosingDrained w then footprint + 1 else footprint, candidates, graceForced)
      | _ \<Rightarrow> (m, footprint, candidates, graceForced))"

fun admit :: "manager \<Rightarrow> int \<Rightarrow> wref list \<Rightarrow> wref list \<times> manager" where
  "admit m footprint [] = ([], m)"
| "admit m footprint (r # rs) =
     (if m_minPoolSize m > 0 \<and> footprint \<ge> m_minPoolSize m then ([], m)
      else
        let (ds, m) = admit (m\<lparr>m_preconnectInflight := insert r (m_preconnectInflight m)\<rparr>) (footprint + 1) rs
        in (r # ds, m))"

definition dispatchPending :: "(string \<Rightarrow> time) \<Rightarrow> manager \<Rightarrow> wref list \<times> manager" where
  "dispatchPending clock m =
     (let (m, footprint, candidates, graceForced) =
            foldl (dispatch_one clock (effectiveGrace m)) (m, 0, [], 0) (m_workers m);
          (dispatched, m) = admit m footprint candidates
      in (dispatched, if graceForced > 0 then signalGrow (signalWakeup m) else m))"

definition still_ours :: "manager \<Rightarrow> wref \<Rightarrow> bool" where
  "still_ours m r \<longleftrightarrow>
     mget (m_workers m) (w_ID (worker_at m r)) = Some r \<and> isAwaitingReplacement (worker_at m r)"

definition force_closing :: "manager \<Rightarrow> wref \<Rightarrow> bool \<times> manager" where
  "force_closing m r = map_prod id (set_worker m r) (markClosingFromAwaiting (worker_at m r))"

text \<open>
  The end of a replacement, in sections between which the other goroutines run: publish the new
  worker under the manager's lock, then let the old one drain; or stop a new worker that is no
  longer wanted, then release its index.
\<close>

definition publishable :: "manager \<Rightarrow> wref \<Rightarrow> bool" where
  "publishable m r \<longleftrightarrow> \<not> m_rootDone m \<and> still_ours m r"

definition let_drain :: "wref \<Rightarrow> manager \<Rightarrow> manager" where
  "let_drain r m = (case force_closing m r of (marked, m) \<Rightarrow> if marked then signalWakeup m else m)"

definition replace_worker ::
  "env \<Rightarrow> (hist \<Rightarrow> manager \<Rightarrow> manager) \<Rightarrow> wref \<Rightarrow> wref \<Rightarrow> manager \<Rightarrow> hist \<Rightarrow> manager \<times> hist" where
  "replace_worker E others r new' m h =
     (if publishable m r then (let_drain r (others h (insert_worker m new')), h)
      else
        let (m, h) = stop_worker E new' (others h m, h);
            m = others h m
        in (releaseIndex m (w_Index (worker_at m new')), h))"

partial_function (option) replace_loop ::
  "env \<Rightarrow> (hist \<Rightarrow> manager \<Rightarrow> manager) \<Rightarrow> wref \<Rightarrow> duration \<Rightarrow> manager \<Rightarrow> hist \<Rightarrow> (manager \<times> hist) option" where
  "replace_loop E others r backoff m h =
     (case sys (e_os E) CtxErr h of
        (Some e, h) \<Rightarrow> Some (m, h)
      | (None, h) \<Rightarrow>
          if \<not> still_ours m r then Some (m, h)
          else if \<not> is_zero_time (rotationScheduledSince (worker_at m r)) \<and>
                  time_sub (os_fd (e_os E) h TimeNow) (rotationScheduledSince (worker_at m r)) \<ge> effectiveGrace m
          then
            (case force_closing (others h m) r of
               (marked, m) \<Rightarrow> Some (if marked then signalGrow (signalWakeup m) else m, h))
          else
            (case createForCountryStaged E m [] h of
               (Inr new', m, h) \<Rightarrow> Some (replace_worker E others r new' (others h m) h)
             | (Inl e, m, h) \<Rightarrow>
                 (case sys (e_os E) CtxErr h of
                    (Some e, h) \<Rightarrow> Some (others h m, h)
                  | (None, h) \<Rightarrow>
                      (case sys (e_os E) (WaitFor backoff) h of
                         (Some e, h) \<Rightarrow> Some (others h m, h)
                       | (None, h) \<Rightarrow> replace_loop E others r (nextBackoff backoff) (others h m) h))))"

partial_function (option) slot_loop ::
  "env \<Rightarrow> (hist \<Rightarrow> manager \<Rightarrow> manager) \<Rightarrow> manager \<Rightarrow> hist \<Rightarrow> (bool \<times> manager \<times> hist) option" where
  "slot_loop E others m h =
     (case sys (e_os E) CtxErr h of
        (Some e, h) \<Rightarrow> Some (False, m, h)
      | (None, h) \<Rightarrow>
          if int (card (m_usedIndexes m)) < maxWorkerSlots - reservedForOnDemand then Some (True, m, h)
          else
            (case sys (e_os E) (WaitFor namespaceWaitBeforeRetry) h of
               (Some e, h) \<Rightarrow> Some (False, others h m, h)
             | (None, h) \<Rightarrow> slot_loop E others (others h m) h))"

text \<open>The goroutine: wait for slots, take the semaphore (\<open>WaitTick\<close> is its \<open>select\<close>), replace.\<close>

definition preconnectWorker ::
  "env \<Rightarrow> (hist \<Rightarrow> manager \<Rightarrow> manager) \<Rightarrow> wref \<Rightarrow> manager \<Rightarrow> hist \<Rightarrow> (manager \<times> hist) option" where
  "preconnectWorker E others r m h =
     (let leave = (\<lambda>m. m\<lparr>m_preconnectInflight := m_preconnectInflight m - {r}\<rparr>) in
      case slot_loop E others m h of
        None \<Rightarrow> None
      | Some (False, m, h) \<Rightarrow> Some (leave m, h)
      | Some (True, m, h) \<Rightarrow>
          (case sys (e_os E) WaitTick h of
             (Some e, h) \<Rightarrow> Some (leave (others h m), h)
           | (None, h) \<Rightarrow>
               (case replace_loop E others r preconnectInitialBackoff
                       ((others h m)\<lparr>m_preconnectSem := m_preconnectSem (others h m) + 1\<rparr>) h of
                  None \<Rightarrow> None
                | Some (m, h) \<Rightarrow> Some (leave (m\<lparr>m_preconnectSem := m_preconnectSem m - 1\<rparr>), h))))"

subsection \<open>The footprint of a rotation\<close>

text \<open>
  A worker is overdue when it has awaited its replacement for longer than the grace period. A
  worker occupies the footprint while a goroutine is replacing it or it is draining.
\<close>

definition overdue :: "(string \<Rightarrow> time) \<Rightarrow> duration \<Rightarrow> string \<Rightarrow> worker \<Rightarrow> bool" where
  "overdue clock grace wid w \<longleftrightarrow>
     w_State w = WorkerAwaitingReplacement \<and> grace > 0 \<and> \<not> is_zero_time (w_rotationScheduledAt w) \<and>
     time_sub (clock wid) (w_rotationScheduledAt w) \<ge> grace"

definition settled :: "(string \<Rightarrow> time) \<Rightarrow> duration \<Rightarrow> string \<Rightarrow> worker \<Rightarrow> worker" where
  "settled clock grace wid w = (if overdue clock grace wid w then w\<lparr>w_State := WorkerClosing\<rparr> else w)"

definition occupies :: "wref set \<Rightarrow> wref \<Rightarrow> worker \<Rightarrow> bool" where
  "occupies inflight r w \<longleftrightarrow>
     w_State w = WorkerAwaitingReplacement \<and> r \<in> inflight \<or> w_State w = WorkerClosing \<and> w_ActiveConns w \<noteq> 0"

definition footprint_of :: "manager \<Rightarrow> int" where
  "footprint_of m =
     int (length (filter (\<lambda>p. occupies (m_preconnectInflight m) (snd p) (worker_at m (snd p))) (m_workers m)))"

subsection \<open>What the replacement loop relies on\<close>

text \<open>
  The clock never goes back, and a timer that fires has let its time pass. What the other
  goroutines do to the worker that is being replaced are steps of its life, and they do not change
  the settings.
\<close>

definition clock_ok :: "os \<Rightarrow> bool" where
  "clock_ok E \<longleftrightarrow>
     (\<forall>h t. os_fd E h TimeNow \<le> os_fd E (h @ t) TimeNow) \<and>
     (\<forall>h d. os_fd E h TimeNow + d \<le> os_fd E (h @ [(WaitFor d, None)]) TimeNow)"

definition goes_on :: "wref \<Rightarrow> manager \<Rightarrow> manager \<Rightarrow> bool" where
  "goes_on r m m' \<longleftrightarrow> length (m_store m) \<le> length (m_store m') \<and> worker_step\<^sup>*\<^sup>* (worker_at m r) (worker_at m' r) \<and>
     m_rotationGrace m' = m_rotationGrace m \<and> m_maxLifetime m' = m_maxLifetime m"

definition others_ok :: "(hist \<Rightarrow> manager \<Rightarrow> manager) \<Rightarrow> wref \<Rightarrow> bool" where
  "others_ok others r \<longleftrightarrow> (\<forall>h m. r < length (m_store m) \<longrightarrow> goes_on r m (others h m))"

text \<open>
  The wait for slots: what one wait of five seconds makes of the state, and that after some number
  of waits there are enough free slots or the context is cancelled.
\<close>

definition slot_wait :: "(hist \<Rightarrow> manager \<Rightarrow> manager) \<Rightarrow> manager \<times> hist \<Rightarrow> manager \<times> hist" where
  "slot_wait others s =
     (let h = snd s @ [(CtxErr, None), (WaitFor namespaceWaitBeforeRetry, None)] in (others h (fst s), h))"

definition slots_come_free :: "os \<Rightarrow> (hist \<Rightarrow> manager \<Rightarrow> manager) \<Rightarrow> manager \<times> hist \<Rightarrow> bool" where
  "slots_come_free E others s \<longleftrightarrow>
     (\<exists>k. let (m, h) = (slot_wait others ^^ k) s in
        os_err E h CtxErr \<noteq> None \<or> int (card (m_usedIndexes m)) < maxWorkerSlots - reservedForOnDemand)"

text \<open>
  A clock that shows the time waited for so far, and an environment in which no worker can be created.
\<close>

fun waited :: "hist \<Rightarrow> int" where
  "waited [] = 1"
| "waited ((c, e) # h) = (case c of WaitFor d \<Rightarrow> max 0 d + waited h | _ \<Rightarrow> waited h)"

definition stuck_env :: env where
  "stuck_env =
     \<lparr>e_os = \<lparr>os_err = (\<lambda>h c. case c of NsGet \<Rightarrow> Some (SysErr ''EMFILE'') | _ \<Rightarrow> None), os_fd = (\<lambda>h c. waited h)\<rparr>,
      e_round = (\<lambda>x. x), e_rand = (\<lambda>h. 0), e_do = (\<lambda>key fn s. fn s)\<rparr>"

definition awaiting_sample :: worker where
  "awaiting_sample = sample_worker\<lparr>w_State := WorkerAwaitingReplacement, w_rotationScheduledAt := 1\<rparr>"

definition sample_awaiting :: manager where
  "sample_awaiting = with_worker sample_manager awaiting_sample"

text \<open>The same with a new worker that is ready but not yet in the pool.\<close>

definition staged_sample :: worker where
  "staged_sample = sample_worker\<lparr>w_ID := ''worker-0'', w_Index := 0, w_State := WorkerReady\<rparr>"

definition sample_staged :: manager where
  "sample_staged = sample_awaiting\<lparr>m_store := [awaiting_sample, staged_sample], m_usedIndexes := {0, 3}\<rparr>"

text \<open>
  The same with all slots taken that replacements may use, and goroutines that meanwhile schedule
  the rotation of the other worker and give a slot back.
\<close>

definition crowded_pool :: manager where
  "crowded_pool = sample_staged\<lparr>m_usedIndexes := {0..249}\<rparr>"

definition busy_others :: "hist \<Rightarrow> manager \<Rightarrow> manager" where
  "busy_others h m = releaseIndex (set_worker m 1 (snd (markAwaitingReplacement (waited h) (worker_at m 1)))) 249"

section \<open>Dispatching\<close>

lemma dispatch_one_eq:
  assumes "r < length (m_store m)" and "w' = settled clock grace wid (worker_at m r)"
  shows "dispatch_one clock grace (m, fp, cs, gf) (wid, r) =
    (set_worker m r w',
     if occupies (m_preconnectInflight m) r w' then fp + 1 else fp,
     if w_State w' = WorkerAwaitingReplacement \<and> r \<notin> m_preconnectInflight m then cs @ [r] else cs,
     if overdue clock grace wid (worker_at m r) then gf + 1 else gf)"
proof -
  define w where "w = worker_at m r"
  have same: "set_worker m r w = m" by (simp add: w_def)
  have at: "worker_at (set_worker m r x) r = x" for x using assms(1) by simp
  show ?thesis
    unfolding assms(2) w_def [symmetric]
    by (cases "w_State w")
      (auto simp: Let_def w_def [symmetric] same at settled_def overdue_def occupies_def rotationScheduledSince_def
        markClosingFromAwaiting_def isClosingDrained_def)
qed

lemma dispatch_loop:
  assumes "distinct (map snd xs)" and "\<forall>p \<in> set xs. snd p < length (m_store m)"
    and "foldl (dispatch_one clock grace) (m, fp, cs, gf) xs = (m', fp', cs', gf')"
    and "S = (\<lambda>p. settled clock grace (fst p) (worker_at m (snd p)))"
  shows "(\<forall>p \<in> set xs. worker_at m' (snd p) = S p) \<and> (\<forall>r. r \<notin> snd ` set xs \<longrightarrow> worker_at m' r = worker_at m r) \<and>
    m' = m\<lparr>m_store := m_store m'\<rparr> \<and> length (m_store m') = length (m_store m) \<and>
    fp' = fp + int (length (filter (\<lambda>p. occupies (m_preconnectInflight m) (snd p) (S p)) xs)) \<and>
    cs' = cs @ map snd (filter (\<lambda>p. w_State (S p) = WorkerAwaitingReplacement \<and> snd p \<notin> m_preconnectInflight m) xs) \<and>
    gf \<le> gf' \<and> (gf < gf' \<longleftrightarrow> (\<exists>p \<in> set xs. overdue clock grace (fst p) (worker_at m (snd p))))"
  using assms
proof (induction xs arbitrary: m fp cs gf S)
  case Nil
  then show ?case by simp
next
  case (Cons p xs)
  let ?w' = "settled clock grace (fst p) (worker_at m (snd p))" and ?od = "overdue clock grace (fst p) (worker_at m (snd p))"
  let ?m1 = "set_worker m (snd p) (settled clock grace (fst p) (worker_at m (snd p)))"
  let ?I = "m_preconnectInflight m"
  let ?fp1 = "if occupies ?I (snd p) ?w' then fp + 1 else fp" and ?gf1 = "if ?od then gf + 1 else gf"
  let ?cs1 = "if w_State ?w' = WorkerAwaitingReplacement \<and> snd p \<notin> ?I then cs @ [snd p] else cs"
  have r: "snd p < length (m_store m)" and notin: "snd p \<notin> snd ` set xs" using Cons.prems(1,2) by auto
  have fold: "foldl (dispatch_one clock grace) (?m1, ?fp1, ?cs1, ?gf1) xs = (m', fp', cs', gf')"
    using Cons.prems(3) dispatch_one_eq [OF r refl, of clock grace fp cs gf "fst p"] by simp
  have same: "worker_at ?m1 (snd q) = worker_at m (snd q)" if "q \<in> set xs" for q
    using that notin by (metis image_eqI worker_at_set(2))
  have S1: "settled clock grace (fst q) (worker_at ?m1 (snd q)) = S q" if "q \<in> set xs" for q
    by (simp add: same [OF that] Cons.prems(4))
  have ds: "distinct (map snd xs)" and len: "\<forall>q \<in> set xs. snd q < length (m_store ?m1)" using Cons.prems(1,2) by simp_all
  have I1: "m_preconnectInflight ?m1 = ?I" by (simp add: set_worker_def)
  have f1: "filter (\<lambda>q. occupies ?I (snd q) (settled clock grace (fst q) (worker_at ?m1 (snd q)))) xs =
      filter (\<lambda>q. occupies ?I (snd q) (S q)) xs" by (rule filter_cong) (simp_all add: S1)
  have f2: "filter (\<lambda>q. w_State (settled clock grace (fst q) (worker_at ?m1 (snd q))) = WorkerAwaitingReplacement \<and> snd q \<notin> ?I) xs =
      filter (\<lambda>q. w_State (S q) = WorkerAwaitingReplacement \<and> snd q \<notin> ?I) xs" by (rule filter_cong) (simp_all add: S1)
  note ih = Cons.IH [OF ds len fold refl, unfolded I1 f1 f2]
  have Sp: "S p = ?w'" by (simp add: Cons.prems(4))
  have "worker_at m' (snd q) = S q" if "q \<in> set (p # xs)" for q
    using that ih S1 notin r Sp by (metis set_ConsD worker_at_set(1))
  moreover have "worker_at m' r' = worker_at m r'" if "r' \<notin> snd ` set (p # xs)" for r' using that ih by simp
  moreover have "m' = m\<lparr>m_store := m_store m'\<rparr>" "length (m_store m') = length (m_store m)"
    using ih by (simp_all add: set_worker_def)
  moreover have "(\<exists>q \<in> set xs. overdue clock grace (fst q) (worker_at ?m1 (snd q))) \<longleftrightarrow>
      (\<exists>q \<in> set xs. overdue clock grace (fst q) (worker_at m (snd q)))" using same by auto
  then have "gf \<le> gf'" "gf < gf' \<longleftrightarrow> (\<exists>q \<in> set (p # xs). overdue clock grace (fst q) (worker_at m (snd q)))"
    using ih by (cases ?od; auto)+
  ultimately show ?case using ih Sp by simp
qed

lemma admit_eq:
  "admit m fp cs = (ds, m') \<Longrightarrow> m' = m\<lparr>m_preconnectInflight := m_preconnectInflight m \<union> set ds\<rparr> \<and>
     ds = (if m_minPoolSize m > 0 then take (nat (m_minPoolSize m - fp)) cs else cs)"
proof (induction cs arbitrary: m fp ds m')
  case (Cons r cs)
  let ?m1 = "m\<lparr>m_preconnectInflight := insert r (m_preconnectInflight m)\<rparr>"
  obtain ds1 m1 where a: "admit ?m1 (fp + 1) cs = (ds1, m1)" by (cases "admit ?m1 (fp + 1) cs")
  show ?case
  proof (cases "m_minPoolSize m > 0 \<and> fp \<ge> m_minPoolSize m")
    case True
    with Cons.prems show ?thesis by simp
  next
    case False
    with Cons.prems a have "ds = r # ds1" "m' = m1" by auto
    moreover have "m_minPoolSize m > 0 \<Longrightarrow> nat (m_minPoolSize m - fp) = Suc (nat (m_minPoolSize m - (fp + 1)))"
      using False by simp
    ultimately show ?thesis using Cons.IH [OF a] by auto
  qed
qed simp

lemma filter_or_length:
  assumes "\<forall>x \<in> set xs. \<not> (P x \<and> Q x)"
  shows "length (filter (\<lambda>x. P x \<or> Q x) xs) = length (filter P xs) + length (filter Q xs)"
  using assms by (induction xs) auto

lemma length_filter_refs:
  assumes "distinct (map snd xs)" and "distinct ds" and "set ds \<subseteq> snd ` set xs"
  shows "length (filter (\<lambda>p. snd p \<in> set ds) xs) = length ds"
proof -
  have "distinct (map snd (filter (\<lambda>p. snd p \<in> set ds) xs))" using assms(1) by (rule distinct_map_filter)
  moreover have "set (map snd (filter (\<lambda>p. snd p \<in> set ds) xs)) = set ds" using assms(3) by force
  ultimately show ?thesis using assms(2) by (metis distinct_card length_map)
qed

section \<open>Replacing\<close>

text \<open>A worker that awaits its replacement or drains keeps the time its rotation was scheduled.\<close>

lemma due_step:
  assumes "worker_step\<^sup>*\<^sup>* w w'" and "w_State w \<in> {WorkerAwaitingReplacement, WorkerClosing}"
  shows "w_State w' \<in> {WorkerAwaitingReplacement, WorkerClosing} \<and> w_rotationScheduledAt w' = w_rotationScheduledAt w"
  using assms(1)
proof (induction rule: rtranclp_induct)
  case (step v v')
  then have "w_State v \<in> {WorkerAwaitingReplacement, WorkerClosing}" by simp
  with step(2) have "w_State v' \<in> {WorkerAwaitingReplacement, WorkerClosing} \<and> w_rotationScheduledAt v' = w_rotationScheduledAt v"
    by (cases rule: worker_stepE) (auto simp: worker_ops Stop_def Let_def split: option.splits prod.splits if_splits)
  with step(3) show ?case by simp
qed (use assms(2) in simp)

lemma goes_on_refl: "goes_on r m m"
  by (simp add: goes_on_def)

lemma goes_on_trans: "goes_on r m m' \<Longrightarrow> goes_on r m' m'' \<Longrightarrow> goes_on r m m''"
  by (auto simp: goes_on_def)

lemma goes_onD:
  assumes "goes_on r m m'" and "r < length (m_store m)" and "w_State (worker_at m r) \<in> {WorkerAwaitingReplacement, WorkerClosing}"
  shows "r < length (m_store m')" and "w_State (worker_at m' r) \<in> {WorkerAwaitingReplacement, WorkerClosing}"
    and "w_rotationScheduledAt (worker_at m' r) = w_rotationScheduledAt (worker_at m r)"
    and "effectiveGrace m' = effectiveGrace m"
  using assms due_step [of "worker_at m r" "worker_at m' r"] by (auto simp: goes_on_def effectiveGrace_def)

lemma others_goes_on: "others_ok others r \<Longrightarrow> r < length (m_store m) \<Longrightarrow> goes_on r m (others h m)"
  by (simp add: others_ok_def)

lemma nextBackoff_pos: "0 < b \<Longrightarrow> b \<le> preconnectMaxBackoff \<Longrightarrow> 0 < nextBackoff b \<and> nextBackoff b \<le> preconnectMaxBackoff"
  by (auto simp: nextBackoff_def Let_def dur_mul_def preconnectMaxBackoff_def second_def in_int64_def)

lemma waits_over:
  assumes "clock_ok E" and "prefix h h'" and "0 < d"
  shows "os_fd E h TimeNow + d \<le> os_fd E (h' @ [(WaitFor d, None)]) TimeNow"
proof -
  obtain t where t: "h' = h @ t" using assms(2) by (auto simp: prefix_def)
  have "os_fd E h TimeNow \<le> os_fd E (h @ t) TimeNow" using assms(1) by (simp only: clock_ok_def)
  also have "os_fd E (h @ t) TimeNow + d \<le> os_fd E (h' @ [(WaitFor d, None)]) TimeNow"
    using assms(1) t by (simp only: clock_ok_def)
  finally show ?thesis by simp
qed

text \<open>Every step of a creation only adds to the history.\<close>

lemma prefix_waitForTun: "waitForTun E name n h = (x, h') \<Longrightarrow> prefix h h'"
proof (induction n arbitrary: h)
  case (Suc n)
  show ?case
  proof (cases "os_err E h WaitTick")
    case (Some e)
    with Suc.prems show ?thesis by (auto simp: sys_def)
  next
    case None
    with Suc show ?thesis
      by (auto simp: sys_def Let_def split: option.splits if_splits) (fastforce simp: prefix_def)+
  qed
qed simp

lemma prefix_stop_process: "stop_process E pid h = (e, h') \<Longrightarrow> prefix h h'"
  by (erule stop_process_calls) simp

lemma prefix_Stop: "prefix h (snd (snd (Stop E w h)))"
proof (cases "w_stopOnce w")
  case False
  define h1 where "h1 = (case w_OvpnProcess w of None \<Rightarrow> h | Some pid \<Rightarrow> snd (stop_process E pid h))"
  have "prefix h h1"
    by (cases "w_OvpnProcess w") (simp_all add: h1_def prefix_stop_process [OF prod.collapse [symmetric]])
  moreover have "snd (snd (Stop E w h)) = (case w_Namespace w of None \<Rightarrow> h1 | Some ns \<Rightarrow> destroyed E ns h1)"
    using False by (cases "w_OvpnProcess w"; cases "w_Namespace w")
      (auto simp: Stop_def h1_def Let_def dest: Destroy_None split: prod.splits)
  ultimately show ?thesis by (auto intro: prefix_destroyed split: option.split)
qed (simp add: Stop_def)

lemma prefix_start: "start_openvpn E m name srv h = (x, h') \<Longrightarrow> prefix h h'"
proof -
  assume s: "start_openvpn E m name srv h = (x, h')"
  define script where "script = (if m_verbose m
      then [(StdoutPipe, Wrapf ''pipe openvpn stdout'' []), (StderrPipe, Wrapf ''pipe openvpn stderr'' [])]
      else []) @ [(ProcStart (openvpn_args m name srv), Wrapf ''start openvpn'' [])]"
  obtain y h1 where r: "run_all E script h = (y, h1)" by (cases "run_all E script h")
  have "prefix h1 (diagnoseNetns E name h1)" by (simp add: diagnoseNetns_def prefix_issue)
  moreover have "h' = h1 \<or> h' = diagnoseNetns E name h1"
    using s r unfolding start_openvpn_def Let_def script_def [symmetric] by (auto split: option.splits if_splits)
  ultimately show ?thesis using prefix_run_all [OF r] by (auto intro: prefix_order.trans)
qed

lemma prefix_await: "await_tun E name h = (x, h') \<Longrightarrow> prefix h h'"
proof -
  assume a: "await_tun E name h = (x, h')"
  obtain y h1 where w: "waitForTun E name tun_ticks (h @ [(CtxErr, None)]) = (y, h1)"
    by (cases "waitForTun E name tun_ticks (h @ [(CtxErr, None)])")
  have "prefix h h1" using prefix_waitForTun [OF w] by (auto simp: prefix_def)
  with a w show ?thesis by (auto simp: await_tun_def sys_def split: option.splits)
qed

lemma prefix_build: "build_worker E m srv i h = (x, h') \<Longrightarrow> prefix h h'"
proof -
  assume b: "build_worker E m srv i h = (x, h')"
  let ?os = "e_os E" and ?n = "worker_name i"
  obtain y h1 where c: "Create ?os ?n i h = (y, h1)" by (cases "Create ?os ?n i h")
  have p1: "prefix h h1" by (rule prefix_Create [OF c])
  show ?thesis
  proof (cases y)
    case (Inl e)
    with b c p1 show ?thesis by (auto simp: build_worker_def)
  next
    case (Inr ns)
    obtain z h2 where s: "start_openvpn ?os m ?n srv (h1 @ [(CtxErr, None)]) = (z, h2)"
      by (cases "start_openvpn ?os m ?n srv (h1 @ [(CtxErr, None)])")
    have p2: "prefix h h2" using p1 prefix_start [OF s] by (auto simp: prefix_def)
    show ?thesis
    proof (cases "os_err ?os h1 CtxErr = None \<and> (\<exists>pid. z = Inr pid)")
      case False
      with b c Inr s have "h' \<in> {destroyed ?os ns (h1 @ [(CtxErr, os_err ?os h1 CtxErr)]), destroyed ?os ns h2}"
        by (auto simp: build_worker_def Let_def sys_def split: option.splits sum.splits)
      then show ?thesis using p1 p2 by (auto intro: prefix_destroyed)
    next
      case True
      then obtain pid where pid: "z = Inr pid" by blast
      obtain e h3 where a: "await_tun ?os ?n h2 = (e, h3)" by (cases "await_tun ?os ?n h2")
      have p3: "prefix h h3" using p2 prefix_await [OF a] by (rule prefix_order.trans)
      have "h' \<in> {h3, snd (snd (Stop ?os (new_worker E m srv i ns pid h2) h3))}"
        using b c Inr s True pid a by (auto simp: build_worker_def Let_def sys_def split: option.splits)
      then show ?thesis using p3 prefix_order.trans [OF p3 prefix_Stop] by auto
    qed
  qed
qed

lemma prefix_try_loop: "try_loop E cand c n a l m h = (x, m', h') \<Longrightarrow> prefix h h'"
proof (induction n arbitrary: a l m h)
  case (Suc n)
  show ?case
  proof (cases "os_err (e_os E) h CtxErr")
    case (Some e)
    with Suc.prems show ?thesis by (auto simp: sys_def)
  next
    case None
    obtain i m1 where q: "acquireIndex m = (i, m1)" by (cases "acquireIndex m")
    let ?srv = "cand ! nat ((i + a) mod int (length cand))"
    let ?m2 = "m1\<lparr>m_createWg := m_createWg m1 + 1\<rparr>"
    obtain y h1 where b: "build_worker E ?m2 ?srv i (h @ [(CtxErr, None)]) = (y, h1)"
      by (cases "build_worker E ?m2 ?srv i (h @ [(CtxErr, None)])")
    have "prefix h h1" using prefix_build [OF b] by (auto simp: prefix_def)
    moreover have "h' = h @ [(CtxErr, None)] \<or> h' = h1 \<or> prefix h1 h'"
      using Suc.prems None q b Suc.IH
      by (auto simp: sys_def createWorker_def Let_def alloc_worker_def split: if_splits sum.splits)
    ultimately show ?thesis by (auto intro: prefix_order.trans)
  qed
qed simp

lemma prefix_tryCreate: "tryCreate E m c h = (x, m', h') \<Longrightarrow> prefix h h'"
  by (auto simp: tryCreate_def Let_def dest: prefix_try_loop split: sum.splits)

lemma prefix_createForCountry: "createForCountry E m c h = (x, m', h') \<Longrightarrow> prefix h h'"
proof -
  assume c: "createForCountry E m c h = (x, m', h')"
  obtain y m1 h1 where t: "tryCreate E m c h = (y, m1, h1)" by (metis prod_cases3)
  have "prefix h1 h'"
    using c t prefix_Stop [of h1]
    by (cases y) (auto simp: createForCountry_def publishWorker_def Let_def split: prod.splits bool.splits if_splits, metis snd_conv)
  then show ?thesis using prefix_tryCreate [OF t] by (rule prefix_order.trans [rotated])
qed

lemma prefix_stop_victims: "stop_victims E vs (m, h) msm = ((m', h'), msm') \<Longrightarrow> prefix h h'"
proof (induction vs arbitrary: m h msm)
  case (Cons v vs)
  obtain wid r reason where v: "v = (wid, r, reason)" by (cases v)
  obtain m1 h1 where s: "stop_worker E r (m, h) = (m1, h1)" by (metis surj_pair)
  then have "prefix h h1" using prefix_Stop [of h "e_os E" "worker_at m r"] by (auto split: prod.splits)
  moreover have "prefix h1 h'" using Cons.IH [of m1 h1 "map_option (\<lambda>sm. RemoveByWorker sm wid) msm"] Cons.prems v s by simp
  ultimately show ?case by (rule prefix_order.trans)
qed simp

text \<open>
  The loop returns: each round that goes on has waited, and the grace period is finite. The
  measure is what is left of the grace period.
\<close>

lemma replace_loop_returns:
  assumes "clock_ok (e_os E)" and "others_ok others r"
    and "w_rotationScheduledAt (worker_at m r) = s" and "s \<noteq> 0" and "effectiveGrace m = g" and "in_int64 g"
    and "0 < b" and "b \<le> preconnectMaxBackoff"
    and "r < length (m_store m)" and "w_State (worker_at m r) \<in> {WorkerAwaitingReplacement, WorkerClosing}"
  shows "\<exists>m' h'. replace_loop E others r b m h = Some (m', h')"
  using assms(3,5,7-10)
proof (induction "nat (s + g - os_fd (e_os E) h TimeNow)" arbitrary: m h b rule: less_induct)
  case less
  let ?h1 = "h @ [(CtxErr, None)]" and ?now = "\<lambda>h. os_fd (e_os E) h TimeNow"
  show ?case
  proof (cases "os_err (e_os E) h CtxErr = None \<and> still_ours m r \<and> time_sub (?now ?h1) s < g")
    case False
    then show ?thesis using less.prems assms(4)
      by (subst replace_loop.simps) (auto simp: sys_def rotationScheduledSince_def is_zero_time_def
          split: option.split prod.split)
  next
    case True
    have "?now h \<le> ?now ?h1" using assms(1) by (simp only: clock_ok_def)
    moreover have "?now ?h1 - s < g"
      using True assms(6) sat64_mono [of g "?now ?h1 - s"] by (force simp: time_sub_def)
    ultimately have left: "?now h - s < g" by simp
    obtain x m2 h2 where c: "createForCountryStaged E m [] ?h1 = (x, m2, h2)" by (cases "createForCountryStaged E m [] ?h1")
    show ?thesis
    proof (cases x)
      case (Inr new')
      with c True less.prems assms(4) show ?thesis
        by (subst replace_loop.simps) (auto simp: sys_def rotationScheduledSince_def is_zero_time_def)
    next
      case (Inl e)
      with c have t: "tryCreate E m [] ?h1 = (Inl e, m2, h2)" by (simp add: createForCountryStaged_def)
      have m2: "m2 = m" using t by (rule tryCreate_Inl)
      have p: "prefix h (h2 @ [(CtxErr, None)])" using prefix_tryCreate [OF t] by (auto simp: prefix_def)
      let ?h3 = "h2 @ [(CtxErr, None)]"
      let ?h4 = "?h3 @ [(WaitFor b, None)]"
      have "?now h + b \<le> ?now ?h4" using waits_over [OF assms(1) p less.prems(3)] by simp
      then have "nat (s + g - ?now ?h4) < nat (s + g - ?now h)" using left less.prems(3) by simp
      moreover note goes_onD [OF others_goes_on [OF assms(2) less.prems(5), of ?h4] less.prems(5,6)]
      ultimately have "\<exists>m' h'. replace_loop E others r (nextBackoff b) (others ?h4 m) ?h4 = Some (m', h')"
        using nextBackoff_pos [OF less.prems(3,4)] less.prems(1,2) by (intro less.hyps) simp_all
      then show ?thesis using True c Inl m2 less.prems assms(4)
        by (subst replace_loop.simps) (auto simp: sys_def rotationScheduledSince_def is_zero_time_def split: option.split)
    qed
  qed
qed

section \<open>Properties\<close>

lemma dispatch_footprint:
  assumes "distinct (map snd xs)" and "distinct ds" and "set ds \<subseteq> snd ` set xs"
    and "\<forall>p \<in> set xs. snd p \<in> set ds \<longrightarrow> w_State (S p) = WorkerAwaitingReplacement \<and> snd p \<notin> I"
  shows "length (filter (\<lambda>p. occupies (I \<union> set ds) (snd p) (S p)) xs) =
    length (filter (\<lambda>p. occupies I (snd p) (S p)) xs) + length ds"
proof -
  have "filter (\<lambda>p. occupies (I \<union> set ds) (snd p) (S p)) xs =
      filter (\<lambda>p. occupies I (snd p) (S p) \<or> snd p \<in> set ds) xs"
    using assms(4) by (intro filter_cong) (auto simp: occupies_def)
  moreover have "\<forall>p \<in> set xs. \<not> (occupies I (snd p) (S p) \<and> snd p \<in> set ds)"
    using assms(4) by (auto simp: occupies_def)
  ultimately show ?thesis using filter_or_length [of xs] length_filter_refs [OF assms(1-3)] by simp
qed

text \<open>One dispatch: who is a candidate, who is admitted, what the footprint becomes.\<close>

lemma dispatch_run:
  assumes "pool_ok m" and "dispatchPending clock m = (ds, m')"
    and "S = (\<lambda>p. settled clock (effectiveGrace m) (fst p) (worker_at m (snd p)))"
    and "cs = map snd (filter (\<lambda>p. w_State (S p) = WorkerAwaitingReplacement \<and> snd p \<notin> m_preconnectInflight m) (m_workers m))"
    and "fp = int (length (filter (\<lambda>p. occupies (m_preconnectInflight m) (snd p) (S p)) (m_workers m)))"
  shows "ds = (if m_minPoolSize m > 0 then take (nat (m_minPoolSize m - fp)) cs else cs)"
    and "m_preconnectInflight m' = m_preconnectInflight m \<union> set ds" and "m_workers m' = m_workers m"
    and "p \<in> set (m_workers m) \<Longrightarrow> worker_at m' (snd p) = S p" and "footprint_of m' = fp + int (length ds)"
proof -
  let ?g = "effectiveGrace m" and ?xs = "m_workers m" and ?I = "m_preconnectInflight m"
  let ?c = "\<lambda>p. w_State (S p) = WorkerAwaitingReplacement \<and> snd p \<notin> ?I"
  obtain m1 fp1 cs1 gf where f: "foldl (dispatch_one clock ?g) (m, 0, [], 0) ?xs = (m1, fp1, cs1, gf)"
    by (cases "foldl (dispatch_one clock ?g) (m, 0, [], 0) ?xs")
  obtain ds0 m2 where a: "admit m1 fp1 cs1 = (ds0, m2)" by (cases "admit m1 fp1 cs1")
  note dl = dispatch_loop [OF published_refs [OF assms(1)] f assms(3)]
  have ds0: "ds0 = ds" and m': "m' = m2 \<or> m' = signalGrow (signalWakeup m2)"
    using assms(2) f a by (auto simp: dispatchPending_def Let_def split: if_splits)
  have at1: "worker_at m1 (snd p) = S p" if "p \<in> set ?xs" for p using dl that by blast
  have "fp1 = 0 + fp" and "cs1 = [] @ cs" unfolding assms(4,5) using dl by blast+
  then have fp1: "fp1 = fp" and cs1: "cs1 = cs" by simp_all
  have store: "m1 = m\<lparr>m_store := m_store m1\<rparr>" using dl by blast
  have m1: "m_preconnectInflight m1 = ?I" "m_minPoolSize m1 = m_minPoolSize m" "m_workers m1 = m_workers m"
    by (subst store, simp)+
  note ad = admit_eq [OF a, unfolded ds0 fp1 cs1 m1]
  have m2e: "m2 = m1\<lparr>m_preconnectInflight := ?I \<union> set ds\<rparr>" using ad by (rule conjunct1)
  show m2: "m_preconnectInflight m' = ?I \<union> set ds" "m_workers m' = m_workers m"
    using m' by (elim disjE; simp add: m2e m1 signalGrow_def signalWakeup_def)+
  have "worker_at m' r = worker_at m1 r" for r
    using m' by (elim disjE) (simp_all add: m2e signalGrow_def signalWakeup_def worker_at_def)
  then show at: "p \<in> set ?xs \<Longrightarrow> worker_at m' (snd p) = S p" for p using at1 by simp
  show ds: "ds = (if m_minPoolSize m > 0 then take (nat (m_minPoolSize m - fp)) cs else cs)" using ad by (rule conjunct2)
  have "distinct cs" unfolding assms(4) using published_refs(1) [OF assms(1)] by (rule distinct_map_filter)
  then have dds: "distinct ds" unfolding ds by simp
  have sub: "set ds \<subseteq> set cs" unfolding ds by (auto dest: in_set_takeD)
  have "set cs \<subseteq> snd ` set ?xs" by (auto simp: assms(4))
  then have sub': "set ds \<subseteq> snd ` set ?xs" using sub by blast
  have "?c p" if "p \<in> set ?xs" "snd p \<in> set cs" for p
    using that published_refs(1) [OF assms(1)] unfolding assms(4) by (auto simp: distinct_map inj_on_def)
  then have cand: "\<forall>p \<in> set ?xs. snd p \<in> set ds \<longrightarrow> ?c p" using sub by blast
  have "length (filter (\<lambda>p. occupies (?I \<union> set ds) (snd p) (S p)) ?xs) =
      length (filter (\<lambda>p. occupies ?I (snd p) (S p)) ?xs) + length ds"
    by (rule dispatch_footprint [OF published_refs(1) [OF assms(1)] dds sub' cand])
  moreover have "filter (\<lambda>p. occupies (m_preconnectInflight m') (snd p) (worker_at m' (snd p))) (m_workers m') =
      filter (\<lambda>p. occupies (?I \<union> set ds) (snd p) (S p)) ?xs"
    unfolding m2 by (rule filter_cong) (simp_all add: at)
  ultimately show "footprint_of m' = fp + int (length ds)" using assms(5) by (simp add: footprint_of_def)
qed

text \<open>
  C21: rotation never takes more room than the pool. A dispatch starts replacements only for
  workers that await one and for which none is running, each once and recorded as running; when a
  minimum pool size is set, the workers being replaced or draining are then at most that many
  (with the 125 of \<open>New\<close>, a full rotation fits the slots); and no candidate is left out while
  there is room.
\<close>

theorem dispatch_gate:
  assumes "pool_ok m" and "dispatchPending clock m = (ds, m')"
  shows "distinct ds \<and> m_preconnectInflight m' = m_preconnectInflight m \<union> set ds \<and>
    (\<forall>r \<in> set ds. (\<exists>wid. (wid, r) \<in> set (m_workers m)) \<and> r \<notin> m_preconnectInflight m \<and>
       w_State (worker_at m r) = WorkerAwaitingReplacement \<and> worker_at m' r = worker_at m r) \<and>
    (ds \<noteq> [] \<and> 0 < m_minPoolSize m \<longrightarrow> footprint_of m' \<le> m_minPoolSize m) \<and>
    (\<forall>(wid, r) \<in> set (m_workers m). w_State (worker_at m' r) = WorkerAwaitingReplacement \<longrightarrow>
       r \<in> m_preconnectInflight m' \<or> 0 < m_minPoolSize m \<and> m_minPoolSize m \<le> footprint_of m')"
proof -
  let ?xs = "m_workers m" and ?I = "m_preconnectInflight m"
  define S where "S = (\<lambda>p. settled clock (effectiveGrace m) (fst p) (worker_at m (snd p)))"
  define cs where "cs = map snd (filter (\<lambda>p. w_State (S p) = WorkerAwaitingReplacement \<and> snd p \<notin> ?I) ?xs)"
  define fp where "fp = int (length (filter (\<lambda>p. occupies ?I (snd p) (S p)) ?xs))"
  note run = dispatch_run [OF assms S_def cs_def fp_def]
  have "distinct cs" unfolding cs_def using published_refs(1) [OF assms(1)] by (rule distinct_map_filter)
  then have dds: "distinct ds" unfolding run(1) by simp
  have one: "(\<exists>wid. (wid, r) \<in> set ?xs) \<and> r \<notin> ?I \<and> w_State (worker_at m r) = WorkerAwaitingReplacement \<and>
      worker_at m' r = worker_at m r" if "r \<in> set ds" for r
  proof -
    have "r \<in> set cs" using that run(1) by (auto dest: in_set_takeD split: if_splits)
    then obtain p where p: "p \<in> set ?xs" "snd p = r" "w_State (S p) = WorkerAwaitingReplacement" "snd p \<notin> ?I"
      by (auto simp: cs_def)
    then have "S p = worker_at m r" "w_State (worker_at m r) = WorkerAwaitingReplacement"
      by (auto simp: S_def settled_def split: if_splits)
    with p run(4) [OF p(1)] show ?thesis by (metis prod.collapse)
  qed
  have "footprint_of m' \<le> m_minPoolSize m" if "ds \<noteq> []" "0 < m_minPoolSize m"
  proof -
    have "length ds \<le> nat (m_minPoolSize m - fp)" "ds = take (nat (m_minPoolSize m - fp)) cs" using run(1) that(2) by auto
    then show ?thesis using that(1) run(5) by (cases "nat (m_minPoolSize m - fp)") auto
  qed
  moreover have "r \<in> m_preconnectInflight m' \<or> 0 < m_minPoolSize m \<and> m_minPoolSize m \<le> footprint_of m'"
    if "(wid, r) \<in> set ?xs" "w_State (worker_at m' r) = WorkerAwaitingReplacement" for wid r
  proof (cases "r \<in> ?I \<or> r \<in> set ds")
    case True
    then show ?thesis using run(2) by blast
  next
    case False
    have "w_State (S (wid, r)) = WorkerAwaitingReplacement" using that run(4) [OF that(1)] by simp
    then have "r \<in> set cs" using that(1) False unfolding cs_def by force
    then have "0 < m_minPoolSize m" "ds \<noteq> cs" "ds = take (nat (m_minPoolSize m - fp)) cs"
      using run(1) False by (auto split: if_splits)
    then have "length ds = nat (m_minPoolSize m - fp)" by (metis length_take min.absorb_iff2 nat_le_linear take_all)
    then show ?thesis using run(5) \<open>0 < m_minPoolSize m\<close> by auto
  qed
  ultimately show ?thesis using dds run(2) one by auto
qed

theorem dispatch_gate_witness:
  "\<exists>m'. dispatchPending (\<lambda>_. 2) sample_awaiting = ([0], m') \<and> m_preconnectInflight m' = {0}"
proof -
  obtain ds m' where d: "dispatchPending (\<lambda>_. 2) sample_awaiting = (ds, m')" by (cases "dispatchPending (\<lambda>_. 2) sample_awaiting")
  have ok: "pool_ok sample_awaiting"
    unfolding sample_awaiting_def by (rule sample_pools_ok) (simp_all add: awaiting_sample_def sample_worker_def)
  have "m_preconnectInflight sample_awaiting = {}" "effectiveGrace sample_awaiting = 6 * minute"
    "m_minPoolSize sample_awaiting = 2" "m_workers sample_awaiting = [(''worker-3'', 0)]"
    "worker_at sample_awaiting 0 = awaiting_sample"
    by (simp_all add: sample_awaiting_def with_worker_def sample_manager_def New_def Let_def maxWorkerSlots_def
        maxNamespaceIndex_def reservedForOnDemand_def effectiveGrace_def go_div_def minute_def second_def
        awaiting_sample_def sample_worker_def worker_at_def)
  then have "ds = [0]"
    using d by (simp add: dispatchPending_def Let_def awaiting_sample_def time_sub_def sat64_def minute_def second_def
        rotationScheduledSince_def split: if_splits)
  with dispatch_gate [OF ok d] d \<open>m_preconnectInflight sample_awaiting = {}\<close> show ?thesis by auto
qed

lemma length_filter_change:
  assumes "distinct (map snd xs)" and "p \<in> set xs" and "\<And>q. q \<in> set xs \<Longrightarrow> q \<noteq> p \<Longrightarrow> P' q = P q" and "P p" and "\<not> P' p"
  shows "length (filter P xs) = Suc (length (filter P' xs))"
proof -
  obtain a b where xs: "xs = a @ p # b" using assms(2) by (meson split_list)
  have "p \<notin> set a \<union> set b" using assms(1) xs by auto
  then have "filter P' a = filter P a" "filter P' b = filter P b" using assms(3) xs by (auto intro!: filter_cong)
  then show ?thesis using assms(4,5) xs by simp
qed

lemma countReady_pairs:
  "countReady m = int (length (filter (\<lambda>p. serving (w_State (worker_at m (snd p)))) (m_workers m)))"
  by (simp add: countReady_eq pool_infos_def filter_map o_def case_prod_beta Info_def)

lemma let_drain_facts:
  assumes "r < length (m_store m)"
  shows "m_workers (let_drain r m) = m_workers m" and "\<And>x. x \<noteq> r \<Longrightarrow> worker_at (let_drain r m) x = worker_at m x"
    and "worker_at (let_drain r m) r = (if w_State (worker_at m r) = WorkerAwaitingReplacement
        then (worker_at m r)\<lparr>w_State := WorkerClosing\<rparr> else worker_at m r)"
    and "w_State (worker_at m r) = WorkerAwaitingReplacement \<Longrightarrow> m_wakeup (let_drain r m)"
  using assms by (simp_all add: let_drain_def force_closing_def markClosingFromAwaiting_def signalWakeup_def signal_def
      set_worker_def worker_at_def)

text \<open>When one published worker stops serving and the others stay as they are, one less serves.\<close>

lemma countReady_drained:
  assumes "pool_ok m" and "(i, r) \<in> set (m_workers m)" and "serving (w_State (worker_at m r))"
    and "m_workers m' = m_workers m" and "\<not> serving (w_State (worker_at m' r))"
    and "\<And>x. x \<noteq> r \<Longrightarrow> worker_at m' x = worker_at m x"
  shows "countReady m = countReady m' + 1"
proof -
  let ?P = "\<lambda>p. serving (w_State (worker_at m (snd p)))" and ?P' = "\<lambda>p. serving (w_State (worker_at m' (snd p)))"
  have "length (filter ?P (m_workers m)) = Suc (length (filter ?P' (m_workers m)))"
  proof (rule length_filter_change [OF published_refs(1) [OF assms(1)] assms(2)])
    fix q assume q: "q \<in> set (m_workers m)" "q \<noteq> (i, r)"
    then have "snd q \<noteq> r" using assms(2) published_refs(1) [OF assms(1)] by (auto simp: distinct_map inj_on_def)
    then show "?P' q = ?P q" using assms(6) by simp
  qed (use assms(3,5) in simp_all)
  then show ?thesis by (simp add: countReady_pairs assms(4))
qed

text \<open>
  C22: a replacement never leaves a gap. When the new worker is ready and the old one still awaits it,
  the new worker enters the pool first, in a section of its own: what the other goroutines find
  then is a well-formed pool in which both serve. Whatever they make of it, the old worker is let
  drain only afterwards, everything else stays as they left it, and the health check is woken to
  collect the old worker. Undisturbed, the number of serving workers is the same in the end.
\<close>

theorem replacement_no_gap:
  assumes "pool_ok m" and "\<not> m_rootDone m" and "still_ours m r" and "r < length (m_store m)"
    and "n < length (m_store m)" and "n \<noteq> r" and "w = worker_at m n" and "w_State w = WorkerReady"
    and "w_ID w = worker_name (w_Index w)" and "0 \<le> w_Index w" and "w_Index w \<le> maxNamespaceIndex"
    and "w_Index w \<in> m_usedIndexes m" and "mget (m_workers m) (w_ID w) = None"
  shows "\<exists>m1. pool_ok m1 \<and> countReady m1 = countReady m + 1 \<and>
    mget (m_workers m1) (w_ID w) = Some n \<and> worker_at m1 n = w \<and>
    mget (m_workers m1) (w_ID (worker_at m r)) = Some r \<and> worker_at m1 r = worker_at m r \<and>
    (\<forall>others m' h'. goes_on r m1 (others h m1) \<longrightarrow> replace_worker E others r n m h = (m', h') \<longrightarrow>
       h' = h \<and> m_workers m' = m_workers (others h m1) \<and> w_State (worker_at m' r) = WorkerClosing \<and>
       (\<forall>x. x \<noteq> r \<longrightarrow> worker_at m' x = worker_at (others h m1) x) \<and>
       (w_State (worker_at (others h m1) r) = WorkerAwaitingReplacement \<longrightarrow> m_wakeup m') \<and>
       (others h m1 = m1 \<longrightarrow> countReady m' = countReady m))"
proof -
  let ?id = "w_ID (worker_at m r)"
  define m1 where "m1 = insert_worker m n"
  have old: "mget (m_workers m) ?id = Some r" "w_State (worker_at m r) = WorkerAwaitingReplacement"
    using assms(3) by (simp_all add: still_ours_def isAwaitingReplacement_def)
  then have inm: "(?id, r) \<in> set (m_workers m)" by (simp add: mget_in_set)
  have W: "m_workers m1 = m_workers m @ [(w_ID w, n)]"
    using assms(13) by (simp add: m1_def insert_worker_def assms(7) mset_mput_fresh)
  have at: "worker_at m1 x = worker_at m x" for x by (simp add: m1_def insert_worker_def worker_at_def)
  have L: "m_usedIndexes m1 = m_usedIndexes m" "length (m_store m1) = length (m_store m)" "m_servers m1 = m_servers m"
    by (simp_all add: m1_def insert_worker_def)
  have fresh: "w_ID w \<notin> fst ` set (m_workers m)" using assms(13) by (simp add: mget_None_iff)
  have gm: "gomap_ok (m_workers m1)" using assms(1) fresh W by (simp add: pool_ok_def gomap_ok_def)
  have "published_ok m1 p" if "p \<in> set (m_workers m1)" for p
    using that assms(1,5,7,9-12) L unfolding W by (auto simp: pool_ok_def published_ok_def Let_def at)
  then have ok: "pool_ok m1" using assms(1) gm L by (simp add: pool_ok_def)
  have c1: "countReady m1 = countReady m + 1" using assms(7,8) by (simp add: countReady_pairs W at serving_def)
  have "h' = h \<and> m_workers m' = m_workers (others h m1) \<and> w_State (worker_at m' r) = WorkerClosing \<and>
      (\<forall>x. x \<noteq> r \<longrightarrow> worker_at m' x = worker_at (others h m1) x) \<and>
      (w_State (worker_at (others h m1) r) = WorkerAwaitingReplacement \<longrightarrow> m_wakeup m') \<and>
      (others h m1 = m1 \<longrightarrow> countReady m' = countReady m)"
    if go: "goes_on r m1 (others h m1)" and run: "replace_worker E others r n m h = (m', h')" for others m' h'
  proof -
    let ?m2 = "others h m1"
    have r1: "r < length (m_store m1)" using assms(4) L(2) by simp
    have st1: "w_State (worker_at m1 r) \<in> {WorkerAwaitingReplacement, WorkerClosing}" using old(2) at by simp
    note g = goes_onD [OF go r1 st1]
    have m': "m' = let_drain r ?m2" "h' = h"
      using run assms(2,3) by (auto simp: replace_worker_def publishable_def m1_def)
    note d = let_drain_facts [OF g(1), folded m'(1)]
    have "w_State (worker_at m' r) = WorkerClosing" using d(3) g(2) by auto
    moreover have "countReady m' = countReady m" if "?m2 = m1"
    proof -
      have "countReady m1 = countReady m' + 1"
        by (rule countReady_drained [where i = "w_ID (worker_at m r)", OF ok _ _ d(1) [unfolded that] _ d(2) [unfolded that]])
          (use inm old(2) at \<open>w_State (worker_at m' r) = WorkerClosing\<close> in \<open>simp_all add: W serving_def\<close>)
      then show ?thesis using c1 by simp
    qed
    ultimately show ?thesis using d m'(2) by blast
  qed
  moreover have "mget (m_workers m1) (w_ID w) = Some n" "mget (m_workers m1) ?id = Some r"
    using gm inm by (simp_all add: W mget_iff)
  ultimately show ?thesis using ok c1 at assms(7) by (intro exI [of _ m1]) blast
qed

theorem replacement_no_gap_witness:
  "\<exists>m1 m' h'. replace_worker sample_env (\<lambda>h m. TrackConn 5 m ''worker-0'') 0 1 sample_staged [] = (m', h') \<and>
     countReady m1 = countReady sample_staged + 1 \<and> w_State (worker_at m' 0) = WorkerClosing \<and>
     worker_at m' 1 = worker_at (TrackConn 5 m1 ''worker-0'') 1"
proof -
  obtain m' h' where run: "replace_worker sample_env (\<lambda>h m. TrackConn 5 m ''worker-0'') 0 1 sample_staged [] = (m', h')" by (metis surj_pair)
  have names: "''worker-3'' = worker_name 3" "''worker-0'' = worker_name 0" by code_simp+
  have f: "m_workers sample_staged = [(''worker-3'', 0)]" "m_store sample_staged = [awaiting_sample, staged_sample]"
    "m_usedIndexes sample_staged = {0, 3}" "\<not> m_rootDone sample_staged" "m_servers sample_staged = m_servers sample_manager"
    by (simp_all add: sample_staged_def sample_awaiting_def with_worker_def sample_manager_eq awaiting_sample_def sample_worker_def)
  have "pool_ok sample_staged"
    using names sample_manager_ok
    by (simp add: pool_ok_def gomap_ok_def f published_ok_def worker_at_def awaiting_sample_def sample_worker_def maxNamespaceIndex_def)
  moreover have "still_ours sample_staged 0"
    by (simp add: still_ours_def f worker_at_def awaiting_sample_def sample_worker_def mget_def isAwaitingReplacement_def)
  moreover have "worker_name 0 \<noteq> worker_name 3" using worker_name_inj [of 0 3] by auto
  moreover have "w_ID staged_sample = ''worker-0''" "w_Index staged_sample = 0" "w_State staged_sample = WorkerReady" "worker_at sample_staged 1 = staged_sample"
    by (simp_all add: staged_sample_def sample_worker_def worker_at_def f)
  ultimately obtain m1 where m1: "countReady m1 = countReady sample_staged + 1" "mget (m_workers m1) ''worker-0'' = Some 1"
    and all: "\<And>others m' h'. goes_on 0 m1 (others [] m1) \<Longrightarrow> replace_worker sample_env others 0 1 sample_staged [] = (m', h') \<Longrightarrow>
       w_State (worker_at m' 0) = WorkerClosing \<and> (\<forall>x. x \<noteq> 0 \<longrightarrow> worker_at m' x = worker_at (others [] m1) x)"
    using replacement_no_gap [of sample_staged 0 1 staged_sample "[]" sample_env] names
    by (simp add: f maxNamespaceIndex_def mget_def) blast
  have "goes_on 0 m1 (TrackConn 5 m1 ''worker-0'')" using m1(2) by (simp add: goes_on_def TrackConn_def worker_at_def set_worker_def)
  from all [of "\<lambda>h m. TrackConn 5 m ''worker-0''", OF this run] m1(1) run show ?thesis by auto
qed

lemma slot_loop_returns:
  assumes "slots_come_free (e_os E) others (m, h)" and "others_ok others r" and "r < length (m_store m)"
  shows "\<exists>b m' h'. slot_loop E others m h = Some (b, m', h') \<and> goes_on r m m'"
proof -
  obtain k where "case (slot_wait others ^^ k) (m, h) of (m, h) \<Rightarrow>
      os_err (e_os E) h CtxErr \<noteq> None \<or> int (card (m_usedIndexes m)) < maxWorkerSlots - reservedForOnDemand"
    using assms(1) unfolding slots_come_free_def Let_def by (rule exE)
  then show ?thesis using assms(3)
  proof (induction k arbitrary: m h)
    case 0
    then have "os_err (e_os E) h CtxErr \<noteq> None \<or> int (card (m_usedIndexes m)) < maxWorkerSlots - reservedForOnDemand" by simp
    then show ?case using goes_on_refl by (subst slot_loop.simps) (auto simp: sys_def split: option.splits)
  next
    case (Suc k)
    let ?h1 = "h @ [(CtxErr, None)]" and ?w = "WaitFor namespaceWaitBeforeRetry"
    let ?few = "int (card (m_usedIndexes m)) < maxWorkerSlots - reservedForOnDemand"
    have o: "goes_on r m (others x m)" for x by (rule others_goes_on [OF assms(2) Suc.prems(2)])
    show ?case
    proof (cases "os_err (e_os E) h CtxErr = None \<and> \<not> ?few \<and> os_err (e_os E) ?h1 ?w = None")
      case False
      then show ?thesis using o goes_on_refl by (subst slot_loop.simps) (auto simp: sys_def split: option.splits)
    next
      case True
      let ?h2 = "h @ [(CtxErr, None), (?w, None)]"
      have "slot_loop E others m h = slot_loop E others (others ?h2 m) ?h2" using True by (subst slot_loop.simps) (simp add: sys_def)
      moreover have "(slot_wait others ^^ Suc k) (m, h) = (slot_wait others ^^ k) (others ?h2 m, ?h2)"
        by (simp only: funpow_Suc_right o_apply) (simp add: slot_wait_def Let_def)
      moreover have "r < length (m_store (others ?h2 m))" using o Suc.prems(2) by (simp add: goes_on_def) (metis order_less_le_trans)
      ultimately show ?thesis using Suc.IH [of "others ?h2 m" ?h2] Suc.prems(1) goes_on_trans [OF o] by metis
    qed
  qed
qed

text \<open>
  C23: a replacement goroutine does not run forever. While the clock runs and the timers keep their
  promise, and provided that slots come free some time or the context is cancelled,
  \<open>preconnectWorker\<close> returns, however often the creation of the new worker fails and whatever the
  other goroutines do to the pool and to its worker meanwhile: when the grace period is over it gives
  up. It is not marked as under way afterwards.
\<close>

theorem preconnect_returns:
  assumes "clock_ok (e_os E)" and "others_ok others r" and "slots_come_free (e_os E) others (m, h)"
    and "r < length (m_store m)" and "isAwaitingReplacement (worker_at m r)" and "w_rotationScheduledAt (worker_at m r) \<noteq> 0"
    and "in_int64 (m_rotationGrace m)" and "in_int64 (m_maxLifetime m)"
  shows "\<exists>m' h'. preconnectWorker E others r m h = Some (m', h') \<and> r \<notin> m_preconnectInflight m'"
proof -
  obtain b m1 h1 where sl: "slot_loop E others m h = Some (b, m1, h1)" and g1: "goes_on r m m1"
    using slot_loop_returns [OF assms(3,2,4)] by blast
  let ?h2 = "h1 @ [(WaitTick, os_err (e_os E) h1 WaitTick)]"
  let ?m2 = "(others ?h2 m1)\<lparr>m_preconnectSem := m_preconnectSem (others ?h2 m1) + 1\<rparr>"
  have aw: "w_State (worker_at m r) \<in> {WorkerAwaitingReplacement, WorkerClosing}" using assms(5) by (simp add: isAwaitingReplacement_def)
  have g2: "goes_on r m (others ?h2 m1)"
    by (rule goes_on_trans [OF g1 others_goes_on [OF assms(2) goes_onD(1) [OF g1 assms(4) aw]]])
  have at2: "worker_at ?m2 x = worker_at (others ?h2 m1) x" for x by (simp add: worker_at_def)
  note g = goes_onD [OF g2 assms(4) aw]
  have "\<exists>m' h'. replace_loop E others r preconnectInitialBackoff ?m2 ?h2 = Some (m', h')"
  proof (rule replace_loop_returns [OF assms(1,2) refl _ refl])
    show "w_rotationScheduledAt (worker_at ?m2 r) \<noteq> 0" using assms(6) g(3) by (simp add: at2)
    have "m_rotationGrace ?m2 = m_rotationGrace m" "m_maxLifetime ?m2 = m_maxLifetime m" using g2 by (simp_all add: goes_on_def)
    then have "effectiveGrace ?m2 = effectiveGrace m" unfolding effectiveGrace_def by simp
    then show "in_int64 (effectiveGrace ?m2)"
      using assms(7) by (auto simp: effectiveGrace_def Let_def in_int64_def minute_def second_def go_div_nonneg)
    show "w_State (worker_at ?m2 r) \<in> {WorkerAwaitingReplacement, WorkerClosing}" using g(2) unfolding at2 .
  qed (use g(1) in \<open>simp_all add: preconnectInitialBackoff_def preconnectMaxBackoff_def second_def\<close>)
  then obtain m3 h3 where "replace_loop E others r preconnectInitialBackoff ?m2 ?h2 = Some (m3, h3)" by blast
  then show ?thesis
    using sl by (cases b; cases "os_err (e_os E) h1 WaitTick") (auto simp: preconnectWorker_def sys_def Let_def)
qed

theorem preconnect_returns_witness:
  "\<exists>m' h'. preconnectWorker stuck_env busy_others 0 crowded_pool [] = Some (m', h') \<and> 0 \<notin> m_preconnectInflight m'"
proof (rule preconnect_returns)
  have app: "waited (h @ t) = waited h + waited t - 1" for h t
    by (induction h rule: waited.induct) (auto split: oscall.split)
  have pos: "0 < waited t" for t
  proof (induction t rule: waited.induct)
    case (2 c e h)
    then show ?case by (cases c) auto
  qed simp
  show "clock_ok (e_os stuck_env)" using pos by (auto simp: clock_ok_def stuck_env_def app)
  show "others_ok busy_others 0"
    by (simp add: others_ok_def goes_on_def busy_others_def releaseIndex_def worker_at_def set_worker_def)
  have at: "worker_at crowded_pool 0 = awaiting_sample"
    by (simp add: crowded_pool_def sample_staged_def worker_at_def)
  show "0 < length (m_store crowded_pool)" by (simp add: crowded_pool_def sample_staged_def)
  show "isAwaitingReplacement (worker_at crowded_pool 0)" "w_rotationScheduledAt (worker_at crowded_pool 0) \<noteq> 0"
    by (simp_all add: at awaiting_sample_def isAwaitingReplacement_def)
  show "slots_come_free (e_os stuck_env) busy_others (crowded_pool, [])"
    unfolding slots_come_free_def
    by (rule exI [of _ 1]) (simp add: slot_wait_def Let_def busy_others_def crowded_pool_def releaseIndex_def set_worker_def
        maxWorkerSlots_def maxNamespaceIndex_def reservedForOnDemand_def)
  show "in_int64 (m_rotationGrace crowded_pool)" "in_int64 (m_maxLifetime crowded_pool)"
    by (simp_all add: crowded_pool_def sample_staged_def sample_awaiting_def with_worker_def sample_manager_def New_def Let_def maxWorkerSlots_def
        maxNamespaceIndex_def reservedForOnDemand_def in_int64_def minute_def second_def)
qed

text \<open>
  The pause between two attempts doubles from ten seconds and never exceeds a minute.
\<close>

theorem backoff_sequence:
  "(nextBackoff ^^ n) preconnectInitialBackoff = min (10 * 2 ^ n) 60 * second"
proof (induction n)
  case (Suc n)
  have "nextBackoff (min (10 * 2 ^ n) 60 * second) = min (10 * 2 ^ Suc n) 60 * second"
  proof (cases "n \<le> 2")
    case True
    then have "n = 0 \<or> n = 1 \<or> n = 2" by auto
    then show ?thesis
      by (auto simp: nextBackoff_def Let_def dur_mul_def preconnectMaxBackoff_def second_def in_int64_def)
  next
    case False
    then have "(2 :: int) ^ 3 \<le> 2 ^ n" by (intro power_increasing) simp_all
    then show ?thesis
      by (simp add: nextBackoff_def Let_def dur_mul_def preconnectMaxBackoff_def second_def in_int64_def)
  qed
  with Suc show ?case by simp
qed (simp add: preconnectInitialBackoff_def second_def)

end
