(* ===== verification/Base64.thy ===== *)
theory Base64
  imports Go_Base
begin

text \<open>
  What the HTTP entrance uses of \<open>encoding/base64\<close>: \<open>StdEncoding.DecodeString\<close>, which ignores line
  breaks, wants padding and rejects everything else. As in Go, the unused low bits of the last
  digit are not checked. The encoder is the client's side, for the round trip.
\<close>

section \<open>Definitions\<close>

definition b64_alphabet :: string where
  "b64_alphabet = ''ABCDEFGHIJKLMNOPQRSTUVWXYZabcdefghijklmnopqrstuvwxyz0123456789+/''"

definition b64_char :: "nat \<Rightarrow> char" where
  "b64_char n = b64_alphabet ! n"

definition b64_val :: "char \<Rightarrow> nat option" where
  "b64_val c = find (\<lambda>n. b64_alphabet ! n = c) [0..<64]"

fun b64_decode :: "string \<Rightarrow> string option" where
  "b64_decode [] = Some []"
| "b64_decode [a, b, c, d] =
     (if d = CHR ''='' then
        if c = CHR ''='' then
          (case (b64_val a, b64_val b) of
             (Some x, Some y) \<Rightarrow> Some [char_of (x * 4 + y div 16)]
           | _ \<Rightarrow> None)
        else
          (case (b64_val a, b64_val b, b64_val c) of
             (Some x, Some y, Some z) \<Rightarrow> Some [char_of (x * 4 + y div 16), char_of (y mod 16 * 16 + z div 4)]
           | _ \<Rightarrow> None)
      else
        (case (b64_val a, b64_val b, b64_val c, b64_val d) of
           (Some x, Some y, Some z, Some u) \<Rightarrow>
             Some [char_of (x * 4 + y div 16), char_of (y mod 16 * 16 + z div 4), char_of (z mod 4 * 64 + u)]
         | _ \<Rightarrow> None))"
| "b64_decode (a # b # c # d # rest) =
     (case (b64_val a, b64_val b, b64_val c, b64_val d, b64_decode rest) of
        (Some x, Some y, Some z, Some u, Some s) \<Rightarrow>
          Some ([char_of (x * 4 + y div 16), char_of (y mod 16 * 16 + z div 4), char_of (z mod 4 * 64 + u)] @ s)
      | _ \<Rightarrow> None)"
| "b64_decode _ = None"

text \<open>Line breaks inside the text are skipped.\<close>

definition base64_DecodeString :: "string \<Rightarrow> string option" where
  "base64_DecodeString s = b64_decode (filter (\<lambda>c. c \<noteq> CHR 0x0D \<and> c \<noteq> CHR 0x0A) s)"

text \<open>The encoder a client uses.\<close>

fun base64_encode :: "string \<Rightarrow> string" where
  "base64_encode [] = []"
| "base64_encode [a] =
     [b64_char (byte_of a div 4), b64_char (byte_of a mod 4 * 16), CHR ''='', CHR ''='']"
| "base64_encode [a, b] =
     [b64_char (byte_of a div 4), b64_char (byte_of a mod 4 * 16 + byte_of b div 16),
      b64_char (byte_of b mod 16 * 4), CHR ''='']"
| "base64_encode (a # b # c # rest) =
     [b64_char (byte_of a div 4), b64_char (byte_of a mod 4 * 16 + byte_of b div 16),
      b64_char (byte_of b mod 16 * 4 + byte_of c div 64), b64_char (byte_of c mod 64)] @ base64_encode rest"

section \<open>Decoding reverses encoding\<close>

lemma alphabet_facts:
  "distinct b64_alphabet" "length b64_alphabet = 64" "CHR ''='' \<notin> set b64_alphabet"
  "CHR 0x0D \<notin> set b64_alphabet" "CHR 0x0A \<notin> set b64_alphabet"
  unfolding b64_alphabet_def by simp_all

lemma b64_val_char [simp]: "n < 64 \<Longrightarrow> b64_val (b64_char n) = Some n"
  unfolding b64_val_def b64_char_def find_Some_iff using alphabet_facts(1,2)
  by (auto simp: nth_eq_iff_index_eq intro!: exI [of _ n])

lemma b64_char_in: "n < 64 \<Longrightarrow> b64_char n \<in> set b64_alphabet"
  using alphabet_facts(2) by (simp add: b64_char_def)

lemma b64_char_plain [simp]:
  assumes "n < 64"
  shows "b64_char n \<noteq> CHR ''=''" and "b64_char n \<noteq> CHR 0x0D" and "b64_char n \<noteq> CHR 0x0A"
  using b64_char_in [OF assms] alphabet_facts(3-5) by metis+

lemma decode_group:
  assumes "x < 64" and "y < 64" and "z < 64" and "u < 64" and "b64_decode rest = Some s"
  shows "b64_decode (b64_char x # b64_char y # b64_char z # b64_char u # rest) =
    Some ([char_of (x * 4 + y div 16), char_of (y mod 16 * 16 + z div 4), char_of (z mod 4 * 64 + u)] @ s)"
  using assms by (cases rest) simp_all

lemma byte_less [simp]: "byte_of c < 256"
  by (simp add: byte_of_def)

lemma char_of_byte [simp]: "char_of (byte_of c) = c"
  by (simp add: byte_of_def)

lemma byte_digits:
  assumes "a < 256" and "b < 256" and "c < (256 :: nat)"
  shows "a div 4 < 64" "a mod 4 * 16 < 64" "a mod 4 * 16 + b div 16 < 64" "b mod 16 * 4 < 64"
    "b mod 16 * 4 + c div 64 < 64" "c mod 64 < 64"
    "a div 4 * 4 + a mod 4 * 16 div 16 = a"
    "a div 4 * 4 + (a mod 4 * 16 + b div 16) div 16 = a"
    "(a mod 4 * 16 + b div 16) mod 16 * 16 + (b mod 16 * 4) div 4 = b"
    "(a mod 4 * 16 + b div 16) mod 16 * 16 + (b mod 16 * 4 + c div 64) div 4 = b"
    "(b mod 16 * 4 + c div 64) mod 4 * 64 + c mod 64 = c"
proof -
  have q: "a mod 4 < 4" "b div 16 < 16" "b mod 16 < 16" "c div 64 < 4" "a div 4 < 64" using assms by auto
  then show "a div 4 < 64" "a mod 4 * 16 < 64" "a mod 4 * 16 + b div 16 < 64" "b mod 16 * 4 < 64"
    "b mod 16 * 4 + c div 64 < 64" "c mod 64 < 64" by auto
  have 1: "(a mod 4 * 16 + b div 16) div 16 = a mod 4" "(a mod 4 * 16 + b div 16) mod 16 = b div 16"
    using q by (simp_all add: div_add1_eq)
  have 2: "(b mod 16 * 4 + c div 64) div 4 = b mod 16" "(b mod 16 * 4 + c div 64) mod 4 = c div 64"
    using q by (simp_all add: div_add1_eq)
  show "a div 4 * 4 + a mod 4 * 16 div 16 = a" "a div 4 * 4 + (a mod 4 * 16 + b div 16) div 16 = a" using 1 by simp_all
  show "(a mod 4 * 16 + b div 16) mod 16 * 16 + (b mod 16 * 4) div 4 = b"
    "(a mod 4 * 16 + b div 16) mod 16 * 16 + (b mod 16 * 4 + c div 64) div 4 = b" using 1 2 by simp_all
  show "(b mod 16 * 4 + c div 64) mod 4 * 64 + c mod 64 = c" using 2 by simp
qed

lemma decode_encode: "b64_decode (base64_encode s) = Some s"
proof (induction s rule: base64_encode.induct)
  case (2 a)
  then show ?case using byte_digits [of "byte_of a" 0 0] by simp
next
  case (3 a b)
  then show ?case using byte_digits [of "byte_of a" "byte_of b" 0] by simp
next
  case (4 a b c rest)
  note d = byte_digits [of "byte_of a" "byte_of b" "byte_of c", OF byte_less byte_less byte_less]
  show ?case using decode_group [OF d(1,3,5,6) 4] d by simp
qed simp

lemma encode_no_breaks: "filter (\<lambda>c. c \<noteq> CHR 0x0D \<and> c \<noteq> CHR 0x0A) (base64_encode s) = base64_encode s"
proof (induction s rule: base64_encode.induct)
  case (2 a)
  then show ?case using byte_digits [of "byte_of a" 0 0] by simp
next
  case (3 a b)
  then show ?case using byte_digits [of "byte_of a" "byte_of b" 0] by simp
next
  case (4 a b c rest)
  then show ?case using byte_digits [of "byte_of a" "byte_of b" "byte_of c", OF byte_less byte_less byte_less] by simp
qed simp

lemma base64_round_trip: "base64_DecodeString (base64_encode s) = Some s"
  by (simp add: base64_DecodeString_def encode_no_breaks decode_encode)

end
