(* ===== verification/Dialer.thy ===== *)
theory Dialer
  imports Netns
begin

text \<open>
  \<open>internal/proxy/dialer_linux.go\<close>: dialling inside a worker's namespace. \<open>DialInNs\<close> runs its
  goroutine, which switches the namespace of its locked thread, to the end before the \<open>select\<close> is
  decided; a late connection is closed by the goroutine that waits for it.
\<close>

section \<open>Definitions\<close>

definition dial_thread :: "os \<Rightarrow> int \<Rightarrow> string \<Rightarrow> string \<Rightarrow> hist \<Rightarrow> (int option \<times> err option) \<times> hist" where
  "dial_thread E ns network address h0 =
     (let h1 = issue E LockOSThread h0; origin = os_fd E h1 NsGet in
      case sys E NsGet h1 of
        (Some e, h) \<Rightarrow> ((None, Some (Wrapf ''get current namespace'' [] e)), issue E UnlockOSThread h)
      | (None, h) \<Rightarrow>
          (case sys E (NsSet ns) h of
             (Some e, h) \<Rightarrow>
               ((None, Some (Wrapf ''switch to target namespace'' [] e)),
                issue E UnlockOSThread (issue E (NsClose origin) h))
           | (None, h) \<Rightarrow>
               let fd = os_fd E h (Dial network address) in
               (case sys E (Dial network address) h of
                  (e, h) \<Rightarrow>
                    let conn = (if e = None then Some fd else None) in
                    (case sys E (NsSet origin) h of
                       (reset, h) \<Rightarrow>
                         ((conn, if e = None then map_option (Wrapf ''restore original namespace'' []) reset else e),
                          issue E UnlockOSThread (issue E (NsClose origin) h))))))"

definition DialInNs :: "os \<Rightarrow> int \<Rightarrow> string \<Rightarrow> string \<Rightarrow> hist \<Rightarrow> (int option \<times> err option) \<times> hist" where
  "DialInNs E ns network address h =
     (case dial_thread E ns network address h of
        ((conn, e), h) \<Rightarrow>
          (case sys E CtxErr h of
             (None, h) \<Rightarrow> ((conn, e), h)
           | (Some ctx, h) \<Rightarrow>
               ((None, Some ctx), case conn of None \<Rightarrow> h | Some fd \<Rightarrow> issue E (ConnClose fd) h)))"

text \<open>The namespaces a thread dials in, in order: where it is at every attempt to dial.\<close>

fun dial_places :: "(string \<Rightarrow> err option \<Rightarrow> int option) \<Rightarrow> int \<Rightarrow> hist \<Rightarrow> int list" where
  "dial_places fd cur [] = []"
| "dial_places fd cur (p # h) =
     (case fst p of Dial network address \<Rightarrow> [cur] | _ \<Rightarrow> []) @ dial_places fd (ns_effect fd cur p) h"

text \<open>An environment that cannot switch back, for evaluation.\<close>

definition stuck_os :: os where
  "stuck_os = \<lparr>os_err = (\<lambda>h c. if c = NsSet 7 then Some (SysErr ''EPERM'') else None),
     os_fd = (\<lambda>h c. if c = NsGet then thread_ns (\<lambda>_ _. Some 9) 7 h else 9)\<rparr>"

section \<open>The cases of a dial\<close>

lemma dial_thread_cases:
  assumes "dial_thread E ns network address h = ((conn, e), h')"
  obtains (no_get) x where "conn = None" and "e \<noteq> None"
      and "h' = issue E UnlockOSThread (issue E LockOSThread h @ [(NsGet, Some x)])"
  | (no_switch) x o' where "conn = None" and "e \<noteq> None"
      and "h' = issue E UnlockOSThread (issue E (NsClose o') (issue E LockOSThread h @ [(NsGet, None), (NsSet ns, Some x)]))"
  | (dialled) x y o' where "conn = None \<longleftrightarrow> x \<noteq> None" and "o' = os_fd E (issue E LockOSThread h) NsGet"
      and "e = (if x = None then map_option (Wrapf ''restore original namespace'' []) y else x)"
      and "h' = issue E UnlockOSThread (issue E (NsClose o') (issue E LockOSThread h @
        [(NsGet, None), (NsSet ns, None), (Dial network address, x), (NsSet o', y)]))"
      and "y = os_err E (issue E LockOSThread h @ [(NsGet, None), (NsSet ns, None), (Dial network address, x)]) (NsSet o')"
proof (cases "os_err E (issue E LockOSThread h) NsGet")
  case (Some x)
  with assms no_get show thesis by (auto simp: dial_thread_def sys_def Let_def)
next
  case None
  let ?h2 = "issue E LockOSThread h @ [(NsGet, None)]"
  show thesis
  proof (cases "os_err E ?h2 (NsSet ns)")
    case (Some x)
    with None assms no_switch show thesis by (auto simp: dial_thread_def sys_def Let_def)
  next
    case inside: None
    let ?h3 = "?h2 @ [(NsSet ns, None)]"
    let ?o = "os_fd E (issue E LockOSThread h) NsGet"
    define x where "x = os_err E ?h3 (Dial network address)"
    define y where "y = os_err E (?h3 @ [(Dial network address, x)]) (NsSet ?o)"
    have r: "((conn, e), h') = ((if x = None then Some (os_fd E ?h3 (Dial network address)) else None,
         if x = None then map_option (Wrapf ''restore original namespace'' []) y else x),
        issue E UnlockOSThread (issue E (NsClose ?o) (?h3 @ [(Dial network address, x), (NsSet ?o, y)])))"
      unfolding assms [symmetric] using None inside by (simp add: dial_thread_def sys_def Let_def x_def y_def)
    show thesis by (rule dialled [of x ?o y]) (use r in \<open>simp_all add: y_def\<close>)
  qed
qed


lemma dial_thread_prefix: "dial_thread E ns network address h = ((conn, e), h') \<Longrightarrow> prefix h h'"
  by (erule dial_thread_cases) (auto simp: issue_eq intro: prefixI)

section \<open>Where a dial happens\<close>

lemma dial_confined:
  assumes "get_is_current E fd cur" and "DialInNs E ns network address h = (x, h')"
  shows "\<exists>t. h' = h @ t \<and> set (dial_places fd (thread_ns fd cur h) t) \<subseteq> {ns} \<and>
    (thread_ns fd cur h' = thread_ns fd cur h \<or> failed_in (NsSet (thread_ns fd cur h)) t)"
proof -
  obtain conn e g where d: "dial_thread E ns network address h = ((conn, e), g)" by (metis surj_pair)
  obtain u where u: "h' = g @ u" and quiet: "quiet u" and silent: "\<And>c. dial_places fd c u = []"
    using assms(2) d by (cases "os_err E g CtxErr"; cases conn) (auto simp: DialInNs_def sys_def issue_eq)
  have o: "os_fd E (issue E LockOSThread h) NsGet = thread_ns fd cur h"
    using assms(1) by (simp add: get_is_current_def thread_ns_issue)
  have "\<exists>t. g = h @ t \<and> set (dial_places fd (thread_ns fd cur h) t) \<subseteq> {ns} \<and>
    (thread_ns fd (thread_ns fd cur h) t = thread_ns fd cur h \<or> failed_in (NsSet (thread_ns fd cur h)) t)"
    using d
  proof (cases rule: dial_thread_cases)
    case (no_get y)
    then show ?thesis by (auto simp: issue_eq ns_effect_quiet)
  next
    case (no_switch y o')
    then show ?thesis by (auto simp: issue_eq ns_effect_quiet)
  next
    case (dialled y z o')
    then show ?thesis using o by (cases z) (auto simp: issue_eq ns_effect_quiet failed_in_def)
  qed
  then obtain t where t: "g = h @ t" "set (dial_places fd (thread_ns fd cur h) t) \<subseteq> {ns}"
    "thread_ns fd (thread_ns fd cur h) t = thread_ns fd cur h \<or> failed_in (NsSet (thread_ns fd cur h)) t" by blast
  have app: "dial_places fd c (a @ b) = dial_places fd c a @ dial_places fd (thread_ns fd c a) b" for c a b
    by (induction a arbitrary: c) auto
  show ?thesis
    using t u quiet silent by (intro exI [of _ "t @ u"]) (auto simp: app thread_ns_append thread_ns_quiet failed_in_def)
qed

section \<open>Properties\<close>

text \<open>
  C18: traffic leaves only through the worker's namespace. Every attempt of \<open>DialInNs\<close> to dial is
  made while its thread is in the namespace it was given, and the thread ends in the namespace it
  came from, whatever else failed, unless the system refused the switch back.
\<close>

theorem DialInNs_confined:
  assumes "get_is_current E fd cur" and "DialInNs E ns network address h = (x, h')"
  shows "\<exists>t. h' = h @ t \<and> set (dial_places fd (thread_ns fd cur h) t) \<subseteq> {ns} \<and>
    (thread_ns fd cur h' = thread_ns fd cur h \<or> failed_in (NsSet (thread_ns fd cur h)) t)"
  using assms by (rule dial_confined)

theorem DialInNs_confined_witness:
  "\<exists>t. snd (DialInNs sample_os 9 ''tcp'' ''example.org:80'' []) = [] @ t \<and> set (dial_places (\<lambda>_ _. Some 9) 7 t) \<subseteq> {9} \<and>
     thread_ns (\<lambda>_ _. Some 9) 7 (snd (DialInNs sample_os 9 ''tcp'' ''example.org:80'' [])) = 7"
proof -
  have g: "get_is_current sample_os (\<lambda>_ _. Some 9) 7" by (simp add: get_is_current_def sample_os_def)
  obtain x h' where d: "DialInNs sample_os 9 ''tcp'' ''example.org:80'' [] = (x, h')" by (metis surj_pair)
  then have "\<not> failed_in (NsSet 7) h'"
    by (auto simp: DialInNs_def dial_thread_def sys_def issue_eq sample_os_def Let_def failed_in_def)
  with DialInNs_confined [OF g d] d show ?thesis by simp
qed

text \<open>
  C29: the way back is not checked for what it leaves behind. When a dial succeeds and switching back
  fails, \<open>DialInNs\<close> returns both the connection and an error, has closed the connection nowhere, and
  leaves the thread in the worker's namespace; its callers look at the error only.
\<close>

theorem restore_failure_leaks:
  assumes "DialInNs E ns network address h = ((Some conn, Some e), h')"
  shows "\<exists>t. h' = h @ t \<and> (Dial network address, None) \<in> set t \<and> ConnClose conn \<notin> fst ` set t \<and>
    thread_ns fd cur h' = ns"
proof -
  obtain c e' g where d: "dial_thread E ns network address h = ((c, e'), g)" by (metis surj_pair)
  then have g: "c = Some conn" "e' = Some e" "h' = g @ [(CtxErr, None)]"
    using assms by (auto simp: DialInNs_def sys_def split: option.splits)
  from d show ?thesis
  proof (cases rule: dial_thread_cases)
    case (dialled y z o')
    then have "y = None" using g(1) by simp
    moreover obtain z' where "z = Some z'" using dialled(3) g(2) calculation by (cases z) simp_all
    ultimately show ?thesis using dialled(4) g(3) by (auto simp: issue_eq thread_ns_append ns_effect_quiet)
  qed (use g in simp_all)
qed

theorem restore_failure_leaks_witness:
  "\<exists>e t. DialInNs stuck_os 9 ''tcp'' ''example.org:80'' [] = ((Some 9, Some e), t) \<and> ConnClose 9 \<notin> fst ` set t \<and>
     thread_ns (\<lambda>_ _. Some 9) 7 t = 9"
proof -
  obtain e h' where d: "DialInNs stuck_os 9 ''tcp'' ''example.org:80'' [] = ((Some 9, Some e), h')"
    by (simp add: DialInNs_def dial_thread_def sys_def issue_eq stuck_os_def Let_def ns_effect_quiet)
  from restore_failure_leaks [OF d, of "\<lambda>_ _. Some 9" 7] d show ?thesis by auto
qed

end
