(* ===== verification/Proxy.thy ===== *)
theory Proxy
  imports Config Preconnect Base64 Dialer
begin

text \<open>
  \<open>internal/proxy/socks5.go\<close> and \<open>http.go\<close>: the two entrances. They check the credentials, route
  the request, resolve the worker's namespace, count the connection and dial inside the namespace
  (theory \<open>Dialer\<close>); the encoding of the credentials is in theory \<open>Base64\<close>. The interface
  \<open>NsHandleResolver\<close> is the record \<open>ns_resolver\<close>, and the locale \<open>conn_tracker\<close> is what the entrances
  rely on in it; the state of a handler is the router over a pool and the history of system
  calls. Clock readings of one request are \<open>ts 0\<close>, \<open>ts 1\<close>, \<open>\<dots>\<close> in the order they are made.

  The SOCKS5 protocol, \<open>net/http\<close> and the copying of bytes are outside: the library calls
  \<open>Valid\<close> and \<open>dialWithRequest\<close>, an HTTP request is a record of the fields the handler reads, and
  hijacking, writing and copying are calls of the environment. In \<open>pipe\<close> the two copying goroutines
  are put in one order; they share nothing but the connections. A copy from the target that ends
  without an error has read the end of the stream, which makes \<open>trackedConn.Read\<close> close the
  connection.
\<close>

section \<open>Definitions\<close>

subsection \<open>Credentials\<close>

definition Valid :: "config \<Rightarrow> string \<Rightarrow> string \<Rightarrow> bool" where
  "Valid cfg user password \<longleftrightarrow>
     p_Username (Parse user password) = ProxyUser cfg \<and> password = ProxyPass cfg"

definition parse_basic :: "string \<Rightarrow> (string \<times> string) option" where
  "parse_basic header =
     (if \<not> go_HasPrefix header ''Basic '' then None
      else
        (case base64_DecodeString (go_TrimPrefix header ''Basic '') of
           None \<Rightarrow> None
         | Some decoded \<Rightarrow>
             let parts = go_SplitN2 decoded '':'' in
             if length parts \<noteq> 2 then None else Some (parts ! 0, parts ! 1)))"

record http_request =
  rq_Method :: string
  rq_Host :: string
  rq_URLHost :: string
  rq_Header :: "(string, string list) gomap"

text \<open>\<open>Header.Get\<close>: the first value; the library stores the keys in their canonical form.\<close>

definition header_get :: "(string, string list) gomap \<Rightarrow> string \<Rightarrow> string" where
  "header_get hs key = (case mget hs key of None \<Rightarrow> [] | Some [] \<Rightarrow> [] | Some (v # vs) \<Rightarrow> v)"

definition parseProxyAuth :: "http_request \<Rightarrow> (string \<times> string) option" where
  "parseProxyAuth rq = parse_basic (header_get (rq_Header rq) ''Proxy-Authorization'')"

subsection \<open>Tracked connections\<close>

record 'm ns_resolver =
  res_GetWorkerNsHandle :: "'m \<Rightarrow> string \<Rightarrow> int result"
  res_TrackConn :: "time \<Rightarrow> 'm \<Rightarrow> string \<Rightarrow> 'm"
  res_UntrackConn :: "time \<Rightarrow> 'm \<Rightarrow> string \<Rightarrow> 'm"

definition manager_resolver :: "manager ns_resolver" where
  "manager_resolver =
     \<lparr>res_GetWorkerNsHandle = GetWorkerNsHandle, res_TrackConn = TrackConn, res_UntrackConn = UntrackConn\<rparr>"

record trackedConn =
  tc_fd :: int
  tc_workerID :: string
  tc_closed :: bool

type_synonym 'm front = "('m \<times> hist) router"

definition manager_of :: "'m front \<Rightarrow> 'm" where "manager_of r = fst (r_pool r)"
definition hist_of :: "'m front \<Rightarrow> hist" where "hist_of r = snd (r_pool r)"

definition with_manager :: "('m \<Rightarrow> 'm) \<Rightarrow> 'm front \<Rightarrow> 'm front" where
  "with_manager f r = r\<lparr>r_pool := (f (manager_of r), hist_of r)\<rparr>"

definition with_hist :: "hist \<Rightarrow> 'm front \<Rightarrow> 'm front" where
  "with_hist h r = r\<lparr>r_pool := (manager_of r, h)\<rparr>"

definition conn_Close ::
  "'m ns_resolver \<Rightarrow> os \<Rightarrow> time \<Rightarrow> trackedConn \<Rightarrow> 'm front \<Rightarrow> err option \<times> trackedConn \<times> 'm front" where
  "conn_Close R E now conn r =
     (let (conn, r) =
        (if \<not> tc_closed conn
         then (conn\<lparr>tc_closed := True\<rparr>, with_manager (\<lambda>m. res_UntrackConn R now m (tc_workerID conn)) r)
         else (conn, r))
      in case sys E (ConnClose (tc_fd conn)) (hist_of r) of (e, h) \<Rightarrow> (e, conn, with_hist h r))"

text \<open>\<open>Read\<close>: whether the read of the underlying connection reported the end of the stream.\<close>

definition conn_Read ::
  "'m ns_resolver \<Rightarrow> os \<Rightarrow> time \<Rightarrow> bool \<Rightarrow> trackedConn \<Rightarrow> 'm front \<Rightarrow> trackedConn \<times> 'm front" where
  "conn_Read R E now eof conn r = (if eof then snd (conn_Close R E now conn r) else (conn, r))"

definition dial_routed ::
  "'m ns_resolver \<Rightarrow> ('m \<times> hist) worker_pool \<Rightarrow> os \<Rightarrow> (nat \<Rightarrow> time) \<Rightarrow> string \<Rightarrow> params \<Rightarrow> string \<Rightarrow> string \<Rightarrow>
   'm front \<Rightarrow> trackedConn result \<times> 'm front" where
  "dial_routed R V E ts label ps network address r =
     (case Route V (ts 0) (ts 1) ps r of
        (Inl e, r) \<Rightarrow> (Inl (Wrapf label [] e), r)
      | (Inr w, r) \<Rightarrow>
          (case res_GetWorkerNsHandle R (manager_of r) (wi_ID w) of
             Inl e \<Rightarrow> (Inl (Wrapf ''resolve worker namespace'' [] e), r)
           | Inr nsHandle \<Rightarrow>
               let r = with_manager (\<lambda>m. res_TrackConn R (ts 2) m (wi_ID w)) r in
               (case DialInNs E nsHandle network address (hist_of r) of
                  ((conn, Some e), h) \<Rightarrow>
                    (Inl e, with_manager (\<lambda>m. res_UntrackConn R (ts 3) m (wi_ID w)) (with_hist h r))
                | ((conn, None), h) \<Rightarrow>
                    (Inr \<lparr>tc_fd = (case conn of None \<Rightarrow> -1 | Some fd \<Rightarrow> fd), tc_workerID = wi_ID w, tc_closed = False\<rparr>,
                     with_hist h r))))"

definition dialTarget ::
  "'m ns_resolver \<Rightarrow> ('m \<times> hist) worker_pool \<Rightarrow> os \<Rightarrow> (nat \<Rightarrow> time) \<Rightarrow> params \<Rightarrow> string \<Rightarrow> 'm front \<Rightarrow>
   trackedConn result \<times> 'm front" where
  "dialTarget R V E ts ps address r = dial_routed R V E ts ''route http request'' ps ''tcp'' address r"

text \<open>\<open>dialWithRequest\<close>: the user name of the authentication, absent when a pointer or the key is.\<close>

definition dialWithRequest ::
  "'m ns_resolver \<Rightarrow> ('m \<times> hist) worker_pool \<Rightarrow> os \<Rightarrow> (nat \<Rightarrow> time) \<Rightarrow> string \<Rightarrow> string \<Rightarrow> string option \<Rightarrow>
   'm front \<Rightarrow> trackedConn result \<times> 'm front" where
  "dialWithRequest R V E ts network address user r =
     (let username = (case user of None \<Rightarrow> [] | Some u \<Rightarrow> u) in
      dial_routed R V E ts ''route socks5 request'' (Parse username []) network address r)"

subsection \<open>HTTP\<close>

datatype reply =
    ProxyAuthRequired
  | BadGateway err
  | InternalServerError
  | Dropped
  | Forwarded

definition established :: string where
  "established = ''HTTP/1.1 200 Connection Established'' @ [CHR 0x0D, CHR 0x0A, CHR 0x0D, CHR 0x0A]"

definition http_pipe ::
  "'m ns_resolver \<Rightarrow> os \<Rightarrow> time \<Rightarrow> int \<Rightarrow> trackedConn \<Rightarrow> 'm front \<Rightarrow> trackedConn \<times> 'm front" where
  "http_pipe R E now client conn r =
     (case sys E (CopyConn client (tc_fd conn)) (hist_of r) of
        (e, h) \<Rightarrow>
          let (conn, r) = conn_Read R E now (e = None) conn (with_hist h r);
              h = issue E (CloseWrite client) (hist_of r);
              h = issue E (CopyConn (tc_fd conn) client) h
          in (conn, with_hist h r))"

definition tunnel ::
  "'m ns_resolver \<Rightarrow> os \<Rightarrow> (nat \<Rightarrow> time) \<Rightarrow> trackedConn \<Rightarrow> 'm front \<Rightarrow> reply \<times> trackedConn \<times> 'm front" where
  "tunnel R E ts conn r =
     (case sys E HijackSupported (hist_of r) of
        (Some e, h) \<Rightarrow> (InternalServerError, conn, with_hist h r)
      | (None, h) \<Rightarrow>
          let client = os_fd E h Hijack in
          (case sys E Hijack h of
             (Some e, h) \<Rightarrow> (InternalServerError, conn, with_hist h r)
           | (None, h) \<Rightarrow>
               (case sys E (ConnWrite client established) h of
                  (Some e, h) \<Rightarrow> (Dropped, conn, with_hist (issue E (ConnClose client) h) r)
                | (None, h) \<Rightarrow>
                    let (conn, r) = http_pipe R E (ts 4) client conn (with_hist h r)
                    in (Forwarded, conn, with_hist (issue E (ConnClose client) (hist_of r)) r))))"

definition handleConnect ::
  "'m ns_resolver \<Rightarrow> ('m \<times> hist) worker_pool \<Rightarrow> os \<Rightarrow> (nat \<Rightarrow> time) \<Rightarrow> http_request \<Rightarrow> params \<Rightarrow> 'm front \<Rightarrow>
   reply \<times> 'm front" where
  "handleConnect R V E ts rq ps r =
     (case dialTarget R V E ts ps (rq_Host rq) r of
        (Inl e, r) \<Rightarrow> (BadGateway e, r)
      | (Inr conn, r) \<Rightarrow>
          (case tunnel R E ts conn r of
             (rep, conn, r) \<Rightarrow> (rep, snd (snd (conn_Close R E (ts 5) conn r)))))"

definition target_address :: "http_request \<Rightarrow> string" where
  "target_address rq =
     (let targetAddress = (if rq_URLHost rq = [] then rq_Host rq else rq_URLHost rq) in
      if \<not> go_Contains targetAddress '':'' then targetAddress @ '':80'' else targetAddress)"

definition forwarded_headers :: "(string, string list) gomap \<Rightarrow> (string, string list) gomap" where
  "forwarded_headers hs = mdel (mdel hs ''Proxy-Authorization'') ''Proxy-Connection''"

definition relay ::
  "'m ns_resolver \<Rightarrow> os \<Rightarrow> (nat \<Rightarrow> time) \<Rightarrow> http_request \<Rightarrow> trackedConn \<Rightarrow> 'm front \<Rightarrow> reply \<times> trackedConn \<times> 'm front" where
  "relay R E ts rq conn r =
     (case sys E (RequestWrite (tc_fd conn) (forwarded_headers (rq_Header rq))) (hist_of r) of
        (Some e, h) \<Rightarrow> (BadGateway e, conn, with_hist h r)
      | (None, h) \<Rightarrow>
          (case sys E HijackSupported h of
             (Some e, h) \<Rightarrow> (InternalServerError, conn, with_hist h r)
           | (None, h) \<Rightarrow>
               let client = os_fd E h Hijack in
               (case sys E Hijack h of
                  (Some e, h) \<Rightarrow> (Dropped, conn, with_hist h r)
                | (None, h) \<Rightarrow>
                    (case sys E (CopyConn client (tc_fd conn)) h of
                       (e, h) \<Rightarrow>
                         let (conn, r) = conn_Read R E (ts 4) (e = None) conn (with_hist h r)
                         in (Forwarded, conn, with_hist (issue E (ConnClose client) (hist_of r)) r)))))"

definition handleHTTP ::
  "'m ns_resolver \<Rightarrow> ('m \<times> hist) worker_pool \<Rightarrow> os \<Rightarrow> (nat \<Rightarrow> time) \<Rightarrow> http_request \<Rightarrow> params \<Rightarrow> 'm front \<Rightarrow>
   reply \<times> 'm front" where
  "handleHTTP R V E ts rq ps r =
     (case dialTarget R V E ts ps (target_address rq) r of
        (Inl e, r) \<Rightarrow> (BadGateway e, r)
      | (Inr conn, r) \<Rightarrow>
          (case relay R E ts rq conn r of
             (rep, conn, r) \<Rightarrow> (rep, snd (snd (conn_Close R E (ts 5) conn r)))))"

definition ServeHTTP ::
  "config \<Rightarrow> 'm ns_resolver \<Rightarrow> ('m \<times> hist) worker_pool \<Rightarrow> os \<Rightarrow> (nat \<Rightarrow> time) \<Rightarrow> http_request \<Rightarrow> 'm front \<Rightarrow>
   reply \<times> 'm front" where
  "ServeHTTP cfg R V E ts rq r =
     (case parseProxyAuth rq of
        None \<Rightarrow> (ProxyAuthRequired, r)
      | Some (username, password) \<Rightarrow>
          let ps = Parse username password in
          if p_Username ps \<noteq> ProxyUser cfg \<or> password \<noteq> ProxyPass cfg then (ProxyAuthRequired, r)
          else if rq_Method rq = ''CONNECT'' then handleConnect R V E ts rq ps r
          else handleHTTP R V E ts rq ps r)"

subsection \<open>Listening\<close>

text \<open>
  The two servers' \<open>ListenAndServe\<close>. \<open>ServeListener\<close> and \<open>ListenAndServeHTTP\<close> are the library's
  loops, which call the handlers above; when they return, the error decides, and the context is
  asked only when the error is not the one a closed listener gives.
\<close>

definition net_ErrClosed :: err where "net_ErrClosed = SysErr ''net.ErrClosed''"
definition http_ErrServerClosed :: err where "http_ErrServerClosed = SysErr ''http.ErrServerClosed''"

definition unless_cancelled :: "os \<Rightarrow> err \<Rightarrow> hist \<Rightarrow> err option \<times> hist" where
  "unless_cancelled E e h = (case sys E CtxErr h of (None, h) \<Rightarrow> (Some e, h) | (Some c, h) \<Rightarrow> (None, h))"

definition socks5_ListenAndServe :: "os \<Rightarrow> config \<Rightarrow> hist \<Rightarrow> err option \<times> hist" where
  "socks5_ListenAndServe E cfg h =
     (let address = '':'' @ go_Itoa (Socks5Port cfg) in
      case sys E (NetListen address) h of
        (Some e, h) \<Rightarrow> (Some (Wrapf ''listen socks5 on'' [address] e), h)
      | (None, h) \<Rightarrow>
          (case sys E ServeListener h of
             (Some e, h) \<Rightarrow> if \<not> errors_Is e net_ErrClosed then unless_cancelled E e h else (None, h)
           | (None, h) \<Rightarrow> (None, h)))"

definition http_ListenAndServe :: "os \<Rightarrow> config \<Rightarrow> hist \<Rightarrow> err option \<times> hist" where
  "http_ListenAndServe E cfg h =
     (let address = '':'' @ go_Itoa (HTTPPort cfg) in
      case sys E (ListenAndServeHTTP address) h of
        (Some e, h) \<Rightarrow> if e \<noteq> http_ErrServerClosed then unless_cancelled E e h else (None, h)
      | (None, h) \<Rightarrow> (None, h))"

text \<open>Whether a request carries the credentials of the configuration.\<close>

definition authorised :: "config \<Rightarrow> http_request \<Rightarrow> bool" where
  "authorised cfg rq \<longleftrightarrow>
     (case parseProxyAuth rq of None \<Rightarrow> False | Some (user, password) \<Rightarrow> Valid cfg user password)"

text \<open>What a client of a tracked connection does with it: reads, which may meet the end, and closes.\<close>

datatype conn_op = OpRead bool | OpClose

fun conn_ops ::
  "'m ns_resolver \<Rightarrow> os \<Rightarrow> time \<Rightarrow> conn_op list \<Rightarrow> trackedConn \<times> 'm front \<Rightarrow> trackedConn \<times> 'm front" where
  "conn_ops R E t [] s = s"
| "conn_ops R E t (OpRead eof # ops) s = conn_ops R E t ops (conn_Read R E t eof (fst s) (snd s))"
| "conn_ops R E t (OpClose # ops) s = conn_ops R E t ops (snd (conn_Close R E t (fst s) (snd s)))"

text \<open>For evaluation: a request with credentials, and the entrances in front of one worker.\<close>

definition sample_config :: config where
  "sample_config = (Load (\<lambda>_. []))\<lparr>ProxyUser := ''alice'', ProxyPass := ''s:cret''\<rparr>"

definition sample_request :: "string \<Rightarrow> http_request" where
  "sample_request user = \<lparr>rq_Method = ''GET'', rq_Host = ''example.org'', rq_URLHost = ''example.org'',
     rq_Header = [(''Proxy-Authorization'', [''Basic '' @ base64_encode (user @ '':s:cret'')]), (''Accept'', [''text/html''])]\<rparr>"

definition sample_front :: "manager front" where
  "sample_front = NewRouter (sample_pool, []) (NewManager minute)"

section \<open>Credentials\<close>

lemma split_credentials: "CHR '':'' \<notin> set u \<Longrightarrow> go_SplitN2 (u @ CHR '':'' # p) '':'' = [u, p]"
proof -
  assume u: "CHR '':'' \<notin> set u"
  then have "takeWhile (\<lambda>c. c \<noteq> CHR '':'') (u @ CHR '':'' # p) = u" by (rule takeWhile_neq_append)
  then show ?thesis by (simp add: go_SplitN2_def str_index_single)
qed

section \<open>The state of a handler\<close>

lemma front_simps [simp]:
  "manager_of (with_manager f r) = f (manager_of r)" "hist_of (with_manager f r) = hist_of r"
  "manager_of (with_hist h r) = manager_of r" "hist_of (with_hist h r) = h"
  "r_session (with_manager f r) = r_session r" "r_session (with_hist h r) = r_session r"
  by (simp_all add: manager_of_def hist_of_def with_manager_def with_hist_def)

section \<open>Counting connections\<close>

text \<open>
  What the two entrances rely on when they count connections. \<open>conns m i\<close> is the number of
  connections the resolver holds for the worker \<open>i\<close>, absent when it does not know the worker.
\<close>

locale conn_tracker =
  fixes R :: "'m ns_resolver" and inv :: "'m \<Rightarrow> bool" and conns :: "'m \<Rightarrow> string \<Rightarrow> int option"
  assumes handle_known: "inv m \<Longrightarrow> res_GetWorkerNsHandle R m i = Inr ns \<Longrightarrow> conns m i \<noteq> None"
    and conns_nonneg: "inv m \<Longrightarrow> conns m i = Some n \<Longrightarrow> 0 \<le> n"
    and track_conns: "inv m \<Longrightarrow>
      conns (res_TrackConn R t m i) = (conns m)(i := map_option (\<lambda>n. n + 1) (conns m i))"
    and untrack_conns: "inv m \<Longrightarrow>
      conns (res_UntrackConn R t m i) = (conns m)(i := map_option (\<lambda>n. max 0 (n - 1)) (conns m i))"
    and track_inv: "inv m \<Longrightarrow> inv (res_TrackConn R t m i)"
    and untrack_inv: "inv m \<Longrightarrow> inv (res_UntrackConn R t m i)"
begin

text \<open>The counts are \<open>base\<close>, and one more for the worker of \<open>conn\<close> as long as it is open.\<close>

definition held :: "(string \<Rightarrow> int option) \<Rightarrow> trackedConn \<Rightarrow> 'm front \<Rightarrow> bool" where
  "held base conn r \<longleftrightarrow> inv (manager_of r) \<and> (\<forall>n. base (tc_workerID conn) = Some n \<longrightarrow> 0 \<le> n) \<and>
     conns (manager_of r) = (if tc_closed conn then base
       else base(tc_workerID conn := map_option (\<lambda>n. n + 1) (base (tc_workerID conn))))"

lemma counted_back:
  assumes "\<forall>n. c = Some n \<longrightarrow> (0 :: int) \<le> n"
  shows "map_option (\<lambda>n. max 0 (n - 1)) (map_option (\<lambda>n. n + 1) c) = c"
  using assms by (cases c) auto

lemma held_hist [simp]: "held base conn (with_hist h r) \<longleftrightarrow> held base conn r"
  by (simp add: held_def)

lemma held_close:
  assumes "held base conn r" and "conn_Close R E t conn r = (e, conn', r')"
  shows "held base conn' r'" and "tc_closed conn'"
proof -
  let ?u = "with_manager (\<lambda>m. res_UntrackConn R t m (tc_workerID conn)) r"
  have "held base (conn\<lparr>tc_closed := True\<rparr>) (if tc_closed conn then r else ?u)"
  proof (cases "tc_closed conn")
    case True
    with assms(1) show ?thesis by (simp add: held_def)
  next
    case False
    with assms(1) have m: "inv (manager_of r)" and b: "\<forall>n. base (tc_workerID conn) = Some n \<longrightarrow> 0 \<le> n"
      and c: "conns (manager_of r) = base(tc_workerID conn := map_option (\<lambda>n. n + 1) (base (tc_workerID conn)))"
      by (simp_all add: held_def)
    then show ?thesis using False m b untrack_inv [OF m] untrack_conns [OF m] counted_back [OF b]
      by (auto simp: held_def c)
  qed
  moreover have "r' = with_hist (hist_of r') (if tc_closed conn then r else ?u)" "conn' = conn\<lparr>tc_closed := True\<rparr>"
    using assms(2) by (auto simp: conn_Close_def sys_def Let_def with_hist_def hist_of_def manager_of_def split: if_splits)
  ultimately show "held base conn' r'" and "tc_closed conn'" by (metis held_hist, simp)
qed

lemma held_read: "held base conn r \<Longrightarrow> conn_Read R E t eof conn r = (conn', r') \<Longrightarrow> held base conn' r'"
  by (cases "conn_Close R E t conn r") (auto simp: conn_Read_def dest: held_close split: if_splits)

lemma held_pipe: "held base conn r \<Longrightarrow> http_pipe R E t client conn r = (conn', r') \<Longrightarrow> held base conn' r'"
  by (auto simp: http_pipe_def Let_def dest: held_read [rotated] split: prod.splits)

lemma held_tunnel: "held base conn r \<Longrightarrow> tunnel R E ts conn r = (rep, conn', r') \<Longrightarrow> held base conn' r'"
  by (auto simp: tunnel_def Let_def dest: held_pipe [rotated] split: prod.splits option.splits)

lemma held_relay: "held base conn r \<Longrightarrow> relay R E ts rq conn r = (rep, conn', r') \<Longrightarrow> held base conn' r'"
  by (auto simp: relay_def Let_def dest: held_read [rotated] split: prod.splits option.splits)

text \<open>A dial counts one connection when it succeeds and none when it fails.\<close>

lemma dial_counts:
  assumes "Route V (ts 0) (ts 1) ps r = (x, r1)" and "inv (manager_of r1)"
    and "dial_routed R V E ts label ps network address r = (y, r')"
  shows "case y of Inl e \<Rightarrow> inv (manager_of r') \<and> conns (manager_of r') = conns (manager_of r1)
    | Inr conn \<Rightarrow> \<not> tc_closed conn \<and> held (conns (manager_of r1)) conn r'"
proof (cases "\<exists>w ns. x = Inr w \<and> res_GetWorkerNsHandle R (manager_of r1) (wi_ID w) = Inr ns")
  case False
  then show ?thesis using assms by (auto simp: dial_routed_def split: sum.splits)
next
  case True
  then obtain w ns where w: "x = Inr w" "res_GetWorkerNsHandle R (manager_of r1) (wi_ID w) = Inr ns" by blast
  let ?i = "wi_ID w" and ?m = "manager_of r1"
  let ?r2 = "with_manager (\<lambda>m. res_TrackConn R (ts 2) m ?i) r1"
  have b: "\<forall>n. conns ?m ?i = Some n \<longrightarrow> 0 \<le> n" using assms(2) conns_nonneg by blast
  obtain c e h where d: "DialInNs E ns network address (hist_of ?r2) = ((c, e), h)" by (metis surj_pair)
  show ?thesis
  proof (cases e)
    case None
    then have "y = Inr \<lparr>tc_fd = (case c of None \<Rightarrow> -1 | Some fd \<Rightarrow> fd), tc_workerID = ?i, tc_closed = False\<rparr>" "r' = with_hist h ?r2"
      using assms(1,3) w d by (simp_all add: dial_routed_def Let_def)
    then show ?thesis using b track_inv [OF assms(2)] track_conns [OF assms(2)] by (simp add: held_def)
  next
    case (Some err)
    let ?r3 = "with_manager (\<lambda>m. res_UntrackConn R (ts 3) m ?i) (with_hist h ?r2)"
    have "y = Inl err" "r' = ?r3" using assms(1,3) w d Some by (simp_all add: dial_routed_def Let_def)
    moreover have "inv (manager_of ?r2)" using assms(2) by (simp add: track_inv)
    ultimately show ?thesis
      using untrack_inv untrack_conns track_conns [OF assms(2)] counted_back [OF b] by auto
  qed
qed

lemma held_ops:
  assumes "held base conn r"
  shows "held base (fst (conn_ops R E t ops (conn, r))) (snd (conn_ops R E t ops (conn, r))) \<and>
    (tc_closed conn \<or> OpClose \<in> set ops \<longrightarrow> tc_closed (fst (conn_ops R E t ops (conn, r))))"
  using assms
proof (induction ops arbitrary: conn r)
  case (Cons op ops)
  show ?case
  proof (cases op)
    case (OpRead eof)
    obtain conn' r' where c: "conn_Read R E t eof conn r = (conn', r')" by (metis surj_pair)
    have "tc_closed conn \<Longrightarrow> tc_closed conn'"
      using c held_close(2) [OF Cons.prems] by (cases "conn_Close R E t conn r") (auto simp: conn_Read_def split: if_splits)
    with Cons.IH [OF held_read [OF Cons.prems c]] c OpRead show ?thesis by auto
  next
    case OpClose
    obtain e conn' r' where c: "conn_Close R E t conn r = (e, conn', r')" by (metis prod_cases3)
    from Cons.IH [OF held_close(1) [OF Cons.prems c]] held_close(2) [OF Cons.prems c] c OpClose
    show ?thesis by auto
  qed
qed simp

text \<open>A handled request gives back what it counted, on every path.\<close>

lemma handler_balance:
  assumes "Route V (ts 0) (ts 1) ps r = (x, r1)" and "inv (manager_of r1)"
    and "handleConnect R V E ts rq ps r = (rep, r') \<or> handleHTTP R V E ts rq ps r = (rep, r')"
  shows "inv (manager_of r')" and "conns (manager_of r') = conns (manager_of r1)"
proof -
  obtain address where "handleConnect R V E ts rq ps r = (rep, r') \<and> address = rq_Host rq \<or>
    handleHTTP R V E ts rq ps r = (rep, r') \<and> address = target_address rq" using assms(3) by blast
  moreover obtain y r2 where d: "dialTarget R V E ts ps address r = (y, r2)" by (metis surj_pair)
  ultimately have run: "case y of Inl e \<Rightarrow> r' = r2
    | Inr conn \<Rightarrow> \<exists>conn' r3. ((rep, conn', r3) = tunnel R E ts conn r2 \<or> (rep, conn', r3) = relay R E ts rq conn r2) \<and>
        r' = snd (snd (conn_Close R E (ts 5) conn' r3))"
    by (cases y) (auto simp: handleConnect_def handleHTTP_def split: prod.splits, blast+)
  have c: "case y of Inl e \<Rightarrow> inv (manager_of r2) \<and> conns (manager_of r2) = conns (manager_of r1)
    | Inr conn \<Rightarrow> \<not> tc_closed conn \<and> held (conns (manager_of r1)) conn r2"
    using dial_counts [OF assms(1,2)] d by (simp add: dialTarget_def)
  have "inv (manager_of r') \<and> conns (manager_of r') = conns (manager_of r1)"
  proof (cases y)
    case (Inl e)
    with run c show ?thesis by simp
  next
    case (Inr conn)
    with run obtain conn' r3 where "(rep, conn', r3) = tunnel R E ts conn r2 \<or> (rep, conn', r3) = relay R E ts rq conn r2"
      and r': "r' = snd (snd (conn_Close R E (ts 5) conn' r3))" by auto
    moreover have h: "held (conns (manager_of r1)) conn r2" using c Inr by simp
    ultimately have "held (conns (manager_of r1)) conn' r3" using held_tunnel [OF h] held_relay [OF h] by metis
    moreover obtain e conn2 where "conn_Close R E (ts 5) conn' r3 = (e, conn2, r')" using r' by (metis prod.collapse)
    ultimately have "held (conns (manager_of r1)) conn2 r'" and "tc_closed conn2" by (rule held_close)+
    then show ?thesis by (simp add: held_def)
  qed
  then show "inv (manager_of r')" and "conns (manager_of r') = conns (manager_of r1)" by simp_all
qed

end

section \<open>The manager counts connections\<close>

lemma pool_live_set_worker:
  assumes "pool_live m" and "(i, r) \<in> set (m_workers m)" and "worker_step (worker_at m r) w"
  shows "pool_live (set_worker m r w)" and "active_conns (set_worker m r w) = (active_conns m)(i := Some (w_ActiveConns w))"
proof -
  have ok: "pool_ok m" and live: "worker_ok (worker_at m r)" using assms(1,2) by (auto simp: pool_live_def)
  note r = published [OF ok assms(2)]
  have w: "w_ID w = w_ID (worker_at m r)" "w_Index w = w_Index (worker_at m r)"
    using worker_step_keeps [OF assms(3)] by simp_all
  have other: "worker_at (set_worker m r w) q = (if q = r then w else worker_at m q)" for q using r(1) by simp
  have "published_ok (set_worker m r w) p" if "p \<in> set (m_workers m)" for p
    using that ok w unfolding pool_ok_def published_ok_def by (auto simp: other Let_def)
  then have "pool_ok (set_worker m r w)" using ok by (simp add: pool_ok_def)
  then show "pool_live (set_worker m r w)"
    using assms(1) worker_step_ok [OF assms(3) live] by (auto simp: pool_live_def other)
  have uniq: "mget (m_workers m) j = Some r \<longleftrightarrow> j = i" for j
    using r(2) published(2) [OF ok, of j r] assms(2) ok by (auto simp: pool_ok_def mget_iff)
  show "active_conns (set_worker m r w) = (active_conns m)(i := Some (w_ActiveConns w))"
  proof
    fix j
    show "active_conns (set_worker m r w) j = ((active_conns m)(i := Some (w_ActiveConns w))) j"
      using uniq [of j] by (cases "mget (m_workers m) j") (auto simp: active_conns_def other)
  qed
qed

interpretation tracker: conn_tracker manager_resolver pool_live active_conns
proof (unfold_locales, goal_cases)
  case (1 m i ns)
  then show ?case by (auto simp: manager_resolver_def GetWorkerNsHandle_def active_conns_def split: option.splits)
next
  case (2 m i n)
  then show ?case by (auto simp: active_conns_def pool_live_def worker_ok_def dest!: mget_in_set)
next
  case (3 m t i)
  show ?case
  proof (cases "mget (m_workers m) i")
    case None
    then show ?thesis by (auto simp: manager_resolver_def TrackConn_def active_conns_def)
  next
    case (Some r)
    then show ?thesis
      using pool_live_set_worker(2) [OF 3 mget_in_set conn_opened, of i r t]
      by (simp add: manager_resolver_def TrackConn_def active_conns_def) (simp add: IncrConns_def Let_def)
  qed
next
  case (4 m t i)
  show ?case
  proof (cases "mget (m_workers m) i")
    case None
    then show ?thesis by (auto simp: manager_resolver_def UntrackConn_def active_conns_def)
  next
    case (Some r)
    then show ?thesis
      using pool_live_set_worker(2) [OF 4 mget_in_set conn_closed, of i r t]
      by (simp add: manager_resolver_def UntrackConn_def active_conns_def) (simp add: DecrConns_def Let_def)
  qed
next
  case (5 m t i)
  then show ?case
    by (auto simp: manager_resolver_def TrackConn_def dest: mget_in_set intro: pool_live_set_worker conn_opened split: option.split)
next
  case (6 m t i)
  then show ?case
    by (auto simp: manager_resolver_def UntrackConn_def dest: mget_in_set intro: pool_live_set_worker conn_closed split: option.split)
qed

lemma dial_routed_ok:
  assumes "Route V (ts 0) (ts 1) ps r = (Inr w, r1)" and "res_GetWorkerNsHandle R (manager_of r1) (wi_ID w) = Inr ns"
    and "DialInNs E ns network address (hist_of r1) = ((c, None), g)"
  shows "\<exists>conn r'. dial_routed R V E ts label ps network address r = (Inr conn, r')"
  using assms by (simp add: dial_routed_def Let_def)

lemma Route_conns:
  assumes "singleflight_runs E" and "pool_live (manager_of r)" and "Route (manager_pool E) t1 t2 ps r = (x, r')"
  shows "pool_live (manager_of r')"
    and "active_conns (manager_of r') i = active_conns (manager_of r) i \<or>
      active_conns (manager_of r) i = None \<and> active_conns (manager_of r') i = Some 0"
proof -
  have "manager_of r' = manager_of r \<or>
      (\<exists>y. RequestWorker E (manager_of r) (p_Country ps) (hist_of r) = (y, manager_of r', hist_of r'))"
    using Route_pool [OF assms(3)] by (auto simp: manager_of_def hist_of_def)
  then show "pool_live (manager_of r')"
    and "active_conns (manager_of r') i = active_conns (manager_of r) i \<or>
      active_conns (manager_of r) i = None \<and> active_conns (manager_of r') i = Some 0"
    using assms(2) RequestWorker_conns [OF assms(1,2)] by (metis, metis)
qed

section \<open>Properties\<close>

text \<open>
  C20: credentials survive the wire. Whatever user name without a colon and whatever password a
  client sends in the Basic scheme, \<open>parseProxyAuth\<close> reads exactly them back; the user name may
  carry the routing parameters, and the password may contain colons.
\<close>

theorem proxy_credentials_roundtrip:
  assumes "CHR '':'' \<notin> set user"
    and "mget (rq_Header rq) ''Proxy-Authorization'' = Some ((''Basic '' @ base64_encode (user @ '':'' @ password)) # vs)"
  shows "parseProxyAuth rq = Some (user, password)"
proof -
  have "go_TrimPrefix (''Basic '' @ s) ''Basic '' = s" "go_HasPrefix (''Basic '' @ s) ''Basic ''" for s
    by (simp_all add: go_TrimPrefix_def go_HasPrefix_def)
  moreover have "go_SplitN2 (user @ '':'' @ password) '':'' = [user, password]"
    using split_credentials [OF assms(1)] by simp
  ultimately show ?thesis using assms(2)
    by (simp add: parseProxyAuth_def header_get_def parse_basic_def base64_round_trip Let_def del: append_Cons)
qed

theorem proxy_credentials_roundtrip_witness:
  "parseProxyAuth (sample_request ''alice__cr.us'') = Some (''alice__cr.us'', ''s:cret'')"
  by (rule proxy_credentials_roundtrip) (simp_all add: sample_request_def mget_def)

text \<open>
  C34: the proxy's credentials do not reach the target: the headers a plain request is forwarded with have
  no \<open>Proxy-Authorization\<close> and no \<open>Proxy-Connection\<close> and are otherwise the client's, and the request
  is written once, before anything else.
\<close>

theorem relay_strips_credentials:
  "\<exists>hs e t. hist_of (snd (snd (relay R E ts rq conn r))) = hist_of r @ (RequestWrite (tc_fd conn) hs, e) # t \<and>
     (\<forall>fd hs'. RequestWrite fd hs' \<notin> fst ` set t) \<and>
     mget hs key = (if key \<in> {''Proxy-Authorization'', ''Proxy-Connection''} then None else mget (rq_Header rq) key)"
proof -
  have "\<exists>e t. hist_of (snd (snd (relay R E ts rq conn r))) =
      hist_of r @ (RequestWrite (tc_fd conn) (forwarded_headers (rq_Header rq)), e) # t \<and> (\<forall>fd hs'. RequestWrite fd hs' \<notin> fst ` set t)"
    by (auto simp: relay_def sys_def issue_eq Let_def conn_Read_def conn_Close_def split: option.split)
  moreover have "mget (forwarded_headers (rq_Header rq)) key =
      (if key \<in> {''Proxy-Authorization'', ''Proxy-Connection''} then None else mget (rq_Header rq) key)"
    by (simp add: forwarded_headers_def gomap_simps)
  ultimately show ?thesis by blast
qed

text \<open>
  C19: nothing happens without credentials. A request is refused with \<open>407\<close>, without routing it,
  without a system call and with the state untouched, unless it carries the configured user and
  password, checked as the SOCKS entrance checks them; with them, it is never refused that way but
  handled as a tunnel or as a plain request, with the parameters of the user name.
\<close>

theorem auth_gate:
  "if authorised cfg rq
   then \<exists>user password. parseProxyAuth rq = Some (user, password) \<and> Valid cfg user password \<and>
     ServeHTTP cfg R V E ts rq r =
       (if rq_Method rq = ''CONNECT'' then handleConnect else handleHTTP) R V E ts rq (Parse user password) r \<and>
     fst (ServeHTTP cfg R V E ts rq r) \<noteq> ProxyAuthRequired
   else ServeHTTP cfg R V E ts rq r = (ProxyAuthRequired, r)"
proof (cases "parseProxyAuth rq")
  case None
  then show ?thesis by (simp add: authorised_def ServeHTTP_def)
next
  case (Some up)
  obtain user password where up: "up = (user, password)" by (cases up)
  have "fst (handleConnect R V E ts rq ps r) \<noteq> ProxyAuthRequired" for ps
    by (auto simp: handleConnect_def tunnel_def Let_def split: prod.splits sum.splits option.splits)
  moreover have "fst (handleHTTP R V E ts rq ps r) \<noteq> ProxyAuthRequired" for ps
    by (auto simp: handleHTTP_def relay_def Let_def split: prod.splits sum.splits option.splits)
  ultimately show ?thesis using Some up by (auto simp: authorised_def ServeHTTP_def Valid_def Let_def)
qed

text \<open>
  C16: a request gives back what it counts. However an HTTP request ends (refused, no route, failed
  dial, failed or completed transfer), every worker known before has the connection count it had,
  and a worker created for the request has none left; the pool's invariant holds.
\<close>

theorem ServeHTTP_balance:
  assumes "singleflight_runs E" and "pool_live (manager_of r)"
    and "ServeHTTP cfg manager_resolver (manager_pool E) (e_os E) ts rq r = (rep, r')"
  shows "pool_live (manager_of r') \<and>
    (active_conns (manager_of r') i = active_conns (manager_of r) i \<or>
     active_conns (manager_of r) i = None \<and> active_conns (manager_of r') i = Some 0)"
proof (cases "\<exists>ps. handleConnect manager_resolver (manager_pool E) (e_os E) ts rq ps r = (rep, r') \<or>
    handleHTTP manager_resolver (manager_pool E) (e_os E) ts rq ps r = (rep, r')")
  case False
  then have "r' = r" using assms(3) by (auto simp: ServeHTTP_def Let_def split: option.splits if_splits)
  then show ?thesis using assms(2) by simp
next
  case True
  then obtain ps where ps: "handleConnect manager_resolver (manager_pool E) (e_os E) ts rq ps r = (rep, r') \<or>
    handleHTTP manager_resolver (manager_pool E) (e_os E) ts rq ps r = (rep, r')" by blast
  obtain x r1 where route: "Route (manager_pool E) (ts 0) (ts 1) ps r = (x, r1)" by (metis surj_pair)
  note c = Route_conns [OF assms(1,2) route]
  from tracker.handler_balance [OF route c(1) ps] c(2) [of i] show ?thesis by simp
qed

lemma sample_pool_eq: "m_workers sample_pool = [(''worker-3'', 0)]" "worker_at sample_pool 0 = ready_sample"
  by (simp_all add: sample_pool_def with_worker_def sample_manager_eq worker_at_def ready_sample_def sample_worker_def)

lemma sample_front_live: "pool_live (manager_of sample_front)" "active_conns (manager_of sample_front) ''worker-3'' = Some 0"
  using sample_pool_ok
  by (simp_all add: sample_front_def pool_live_def manager_of_def NewRouter_def active_conns_def sample_pool_eq mget_def)
    (simp_all add: ready_sample_def sample_worker_def worker_ok_def)

lemma sample_runs: "singleflight_runs sample_env" and sample_os_of: "e_os sample_env = calm_os 1"
  by (simp_all add: singleflight_runs_def sample_env_def)

lemma sample_route:
  "Route (manager_pool E) t1 t2 (Parse ''alice'' []) sample_front =
     (Inr (Info ready_sample), sample_front\<lparr>r_roundRobin := 1\<rparr>)"
proof -
  have p: "\<not> IsSticky (Parse ''alice'' [])" "p_Country (Parse ''alice'' []) = []" by code_simp+
  have "GetRoutableWorkers sample_pool [] = [Info ready_sample]"
    by (simp add: GetRoutableWorkers_eq pool_infos_def sample_pool_eq)
      (simp add: country_ok_def Info_def ready_sample_def sample_worker_def sort_slice_def)
  then have "pool_GetRoutableWorkers (manager_pool E) (r_pool sample_front) [] = [Info ready_sample]"
    by (simp add: sample_front_def NewRouter_def)
  then show ?thesis using p
    by (simp add: Route_def selectOrCreate_routable sort_slice_def) (simp add: sample_front_def NewRouter_def)
qed

theorem ServeHTTP_balance_witness:
  "active_conns (manager_of (snd (ServeHTTP sample_config manager_resolver (manager_pool sample_env) (calm_os 1) (\<lambda>n. 100)
     (sample_request ''alice'') sample_front))) ''worker-3'' = Some 0"
proof -
  obtain rep r' where s: "ServeHTTP sample_config manager_resolver (manager_pool sample_env) (e_os sample_env) (\<lambda>n. 100)
     (sample_request ''alice'') sample_front = (rep, r')" by (metis surj_pair)
  from ServeHTTP_balance [OF sample_runs sample_front_live(1) s, of "''worker-3''"] sample_front_live(2) s
  show ?thesis by (simp add: sample_os_of)
qed

text \<open>
  C17: a SOCKS connection is counted once and given back once. A successful \<open>dialWithRequest\<close> adds
  one connection to exactly the worker it was routed to; whatever the library then does with the
  connection, reading to the end or closing it any number of times, the count is back where it was
  as soon as it has been closed once, and never below.
\<close>

theorem socks_conn_once:
  assumes "singleflight_runs E" and "pool_live (manager_of r)"
    and "Route (manager_pool E) (ts 0) (ts 1) (Parse user []) r = (Inr w, r1)"
    and "dialWithRequest manager_resolver (manager_pool E) (e_os E) ts network address (Some user) r = (Inr conn, r')"
    and "OpClose \<in> set ops"
  shows "tc_workerID conn = wi_ID w \<and>
    active_conns (manager_of r') (wi_ID w) = map_option (\<lambda>n. n + 1) (active_conns (manager_of r1) (wi_ID w)) \<and>
    (\<forall>i. i \<noteq> wi_ID w \<longrightarrow> active_conns (manager_of r') i = active_conns (manager_of r1) i) \<and>
    active_conns (manager_of (snd (conn_ops manager_resolver (e_os E) t ops (conn, r')))) =
      active_conns (manager_of r1)"
proof -
  have live: "pool_live (manager_of r1)" by (rule Route_conns(1) [OF assms(1-3)])
  have d: "dial_routed manager_resolver (manager_pool E) (e_os E) ts ''route socks5 request'' (Parse user []) network address r =
      (Inr conn, r')" using assms(4) by (simp add: dialWithRequest_def)
  have i: "tc_workerID conn = wi_ID w"
    using d assms(3) by (auto simp: dial_routed_def Let_def split: sum.splits prod.splits option.splits)
  have "\<not> tc_closed conn \<and> tracker.held (active_conns (manager_of r1)) conn r'"
    using tracker.dial_counts [OF assms(3) live d] by simp
  then have "\<not> tc_closed conn" and held: "tracker.held (active_conns (manager_of r1)) conn r'" by simp_all
  then have "active_conns (manager_of r') =
      (active_conns (manager_of r1))(wi_ID w := map_option (\<lambda>n. n + 1) (active_conns (manager_of r1) (wi_ID w)))"
    by (simp add: tracker.held_def i)
  moreover have "active_conns (manager_of (snd (conn_ops manager_resolver (e_os E) t ops (conn, r')))) = active_conns (manager_of r1)"
    using tracker.held_ops [OF held, of "e_os E" t ops] assms(5) by (simp add: tracker.held_def)
  ultimately show ?thesis using i by simp
qed

theorem socks_conn_once_witness:
  "\<exists>conn r'. dialWithRequest manager_resolver (manager_pool sample_env) (calm_os 1) (\<lambda>n. 100) ''tcp'' ''example.org:80''
       (Some ''alice'') sample_front = (Inr conn, r') \<and>
     active_conns (manager_of r') ''worker-3'' = Some 1 \<and>
     active_conns (manager_of (snd (conn_ops manager_resolver (calm_os 1) 200 [OpRead False, OpClose, OpRead True, OpClose] (conn, r'))))
       ''worker-3'' = Some 0"
proof -
  let ?r1 = "sample_front\<lparr>r_roundRobin := 1\<rparr>"
  have i: "wi_ID (Info ready_sample) = ''worker-3''" by (simp add: Info_def ready_sample_def sample_worker_def)
  have m: "manager_of ?r1 = manager_of sample_front" by (simp add: manager_of_def)
  have known: "\<exists>ns. GetWorkerNsHandle (manager_of ?r1) ''worker-3'' = Inr ns"
    unfolding m by (simp add: GetWorkerNsHandle_def manager_of_def sample_front_def NewRouter_def sample_pool_eq mget_def)
  then obtain ns where ns: "res_GetWorkerNsHandle manager_resolver (manager_of ?r1) (wi_ID (Info ready_sample)) = Inr ns"
    by (auto simp: i manager_resolver_def)
  obtain c g where g: "DialInNs (calm_os 1) ns ''tcp'' ''example.org:80'' (hist_of ?r1) = ((c, None), g)"
    by (simp add: DialInNs_def dial_thread_def calm_sys Let_def)
  obtain conn r' where d: "dialWithRequest manager_resolver (manager_pool sample_env) (e_os sample_env) (\<lambda>n. 100) ''tcp''
      ''example.org:80'' (Some ''alice'') sample_front = (Inr conn, r')"
    unfolding dialWithRequest_def sample_os_of using dial_routed_ok [OF sample_route ns g, of sample_env "\<lambda>n. 100" "''route socks5 request''"] by auto
  have "OpClose \<in> set [OpRead False, OpClose, OpRead True, OpClose]" by simp
  from socks_conn_once [OF sample_runs sample_front_live(1) sample_route d this, of 200]
  show ?thesis using d sample_front_live(2) by (auto simp: i m sample_os_of simp del: conn_ops.simps)
qed

end
