(* ===== verification/Pool_System.thy ===== *)
theory Pool_System
  imports Preconnect
begin

text \<open>
  The pool as a concurrent system. The goroutines of the manager (requests, the pool warmer,
  replacements, the health check, the ends of connections and processes, \<open>Shutdown\<close>) interleave
  between the sections they hold the lock for. A state holds the manager, the session table and
  the history, and what the goroutines carry from one section to the next: the indexes of creations
  under way (\<open>y_building\<close>), built workers that are not yet in the pool (\<open>y_staged\<close>), replacements that
  turned out superfluous and are stopped before their index is released (\<open>y_retired\<close>), and workers
  taken out of the pool that are still to be stopped, by the health check (\<open>y_victims\<close>) and by a
  refused publication or \<open>Shutdown\<close> (\<open>y_ending\<close>). Each rule of \<open>pool_step\<close> is one section under the lock
  or one action outside it; building a worker, which holds no lock and touches no shared state, is
  one rule.

  Cancelling the manager's context takes no lock, so it can fall between a publication's check of
  the context and its insertion. Publishing is therefore two rules: \<open>passed\<close> and \<open>replacing\<close> are the
  check, after which the goroutine still holds the lock (\<open>y_pending\<close>), and \<open>inserted\<close> ends the section.
  The rules that take the lock wait while somebody is in between. A connection is counted after the
  lock is given up, on the worker that was looked up under it, so \<open>tracked\<close> and \<open>untracked\<close> may hit any
  worker. The wait of \<open>Shutdown\<close> for creations under way (\<open>createWg\<close>) is not a condition of \<open>shut_down\<close>,
  so the runs here include all those with the wait.

  The invariant \<open>slots_exact\<close> accounts for every namespace index under all interleavings.
  \<open>index_reuse\<close> is a run in which the order of the sections lets the end of one worker destroy the
  namespace of the next.
\<close>

section \<open>Definitions\<close>

record pool_system =
  y_m :: manager
  y_sm :: sessionManager
  y_h :: hist
  y_building :: "int set"
  y_staged :: "wref set"
  y_retired :: "wref set"
  y_victims :: "wref set"
  y_ending :: "wref set"
  y_pending :: "wref option"

inductive pool_step :: "env \<Rightarrow> pool_system \<Rightarrow> pool_system \<Rightarrow> bool" for E where
  acquired: "y_pending y = None \<Longrightarrow> acquireIndex (y_m y) = (i, m') \<Longrightarrow> 0 \<le> i \<Longrightarrow>
    pool_step E y (y\<lparr>y_m := m', y_building := insert i (y_building y)\<rparr>)"
| failed: "y_pending y = None \<Longrightarrow> i \<in> y_building y \<Longrightarrow> srv \<in> set (all_servers (m_servers (y_m y))) \<Longrightarrow> build_worker E (y_m y) srv i (y_h y) = (Inl e, h') \<Longrightarrow>
    pool_step E y (y\<lparr>y_m := releaseIndex (y_m y) i, y_h := h', y_building := y_building y - {i}\<rparr>)"
| built: "i \<in> y_building y \<Longrightarrow> srv \<in> set (all_servers (m_servers (y_m y))) \<Longrightarrow> build_worker E (y_m y) srv i (y_h y) = (Inr w, h') \<Longrightarrow>
    alloc_worker (y_m y) w = (r, m') \<Longrightarrow>
    pool_step E y (y\<lparr>y_m := m', y_h := h', y_building := y_building y - {i}, y_staged := insert r (y_staged y)\<rparr>)"
| passed: "r \<in> y_staged y \<Longrightarrow> y_pending y = None \<Longrightarrow> \<not> m_rootDone (y_m y) \<Longrightarrow>
    pool_step E y (y\<lparr>y_pending := Some r\<rparr>)"
| replacing: "r \<in> y_staged y \<Longrightarrow> y_pending y = None \<Longrightarrow> publishable (y_m y) old \<Longrightarrow>
    pool_step E y (y\<lparr>y_pending := Some r\<rparr>)"
| inserted: "y_pending y = Some r \<Longrightarrow>
    pool_step E y (y\<lparr>y_m := insert_worker (y_m y) r, y_staged := y_staged y - {r}, y_pending := None\<rparr>)"
| refused: "r \<in> y_staged y \<Longrightarrow> y_pending y = None \<Longrightarrow> m_rootDone (y_m y) \<Longrightarrow>
    pool_step E y (y\<lparr>y_m := releaseIndex (y_m y) (w_Index (worker_at (y_m y) r)),
      y_staged := y_staged y - {r}, y_ending := insert r (y_ending y)\<rparr>)"
| superfluous: "r \<in> y_staged y \<Longrightarrow> y_pending y = None \<Longrightarrow> \<not> publishable (y_m y) old \<Longrightarrow>
    pool_step E y (y\<lparr>y_staged := y_staged y - {r}, y_retired := insert r (y_retired y)\<rparr>)"
| stopped_retired: "r \<in> y_retired y \<Longrightarrow> stop_worker E r (y_m y, y_h y) = (m', h') \<Longrightarrow>
    pool_step E y (y\<lparr>y_m := m', y_h := h'\<rparr>)"
| released: "y_pending y = None \<Longrightarrow> r \<in> y_retired y \<Longrightarrow> w_stopOnce (worker_at (y_m y) r) \<Longrightarrow>
    pool_step E y (y\<lparr>y_m := releaseIndex (y_m y) (w_Index (worker_at (y_m y) r)), y_retired := y_retired y - {r}\<rparr>)"
| scanned: "y_pending y = None \<Longrightarrow> scan_workers clock (Some (y_sm y)) (y_m y) = (m', vs, k) \<Longrightarrow>
    pool_step E y (y\<lparr>y_m := m', y_victims := y_victims y \<union> (\<lambda>v. fst (snd v)) ` set vs\<rparr>)"
| stopped_victim: "r \<in> y_victims y \<Longrightarrow> stop_worker E r (y_m y, y_h y) = (m', h') \<Longrightarrow>
    pool_step E y (y\<lparr>y_m := m', y_h := h', y_sm := RemoveByWorker (y_sm y) (w_ID (worker_at (y_m y) r)),
      y_victims := y_victims y - {r}\<rparr>)"
| stopped_ending: "r \<in> y_ending y \<Longrightarrow> stop_worker E r (y_m y, y_h y) = (m', h') \<Longrightarrow>
    pool_step E y (y\<lparr>y_m := m', y_h := h', y_ending := y_ending y - {r}\<rparr>)"
| tracked: "pool_step E y (y\<lparr>y_m := set_worker (y_m y) r (IncrConns now (worker_at (y_m y) r))\<rparr>)"
| untracked: "pool_step E y (y\<lparr>y_m := set_worker (y_m y) r (DecrConns now (worker_at (y_m y) r))\<rparr>)"
| process_exit: "pool_step E y (y\<lparr>y_m := process_ended (y_m y) r\<rparr>)"
| dispatched: "y_pending y = None \<Longrightarrow> dispatchPending clock (y_m y) = (ds, m') \<Longrightarrow> pool_step E y (y\<lparr>y_m := m'\<rparr>)"
| draining: "force_closing (y_m y) r = (b, m') \<Longrightarrow> pool_step E y (y\<lparr>y_m := m'\<rparr>)"
| signalled: "sig \<in> {signalWakeup, signalGrow, signalPreconnect} \<Longrightarrow> pool_step E y (y\<lparr>y_m := sig (y_m y)\<rparr>)"
| replacing_ends: "y_pending y = None \<Longrightarrow> pool_step E y (y\<lparr>y_m := (y_m y)\<lparr>m_preconnectInflight := m_preconnectInflight (y_m y) - {r}\<rparr>\<rparr>)"
| semaphore: "k \<in> {1, -1} \<Longrightarrow> pool_step E y (y\<lparr>y_m := (y_m y)\<lparr>m_preconnectSem := m_preconnectSem (y_m y) + k\<rparr>\<rparr>)"
| asked: "c \<in> {CtxErr, WaitTick} \<union> range WaitFor \<Longrightarrow> pool_step E y (y\<lparr>y_h := issue (e_os E) c (y_h y)\<rparr>)"
| looked_up: "pool_step E y (y\<lparr>y_sm := snd (Lookup now (y_sm y) sid)\<rparr>)"
| unbound: "pool_step E y (y\<lparr>y_sm := Session.Remove (y_sm y) sid\<rparr>)"
| cleaned: "pool_step E y (y\<lparr>y_sm := snd (Cleanup now (y_sm y))\<rparr>)"
| bound: "pool_step E y (y\<lparr>y_sm := snd (Bind now (y_sm y) sid c ttl i)\<rparr>)"
| cancelled: "pool_step E y (y\<lparr>y_m := (y_m y)\<lparr>m_rootDone := True\<rparr>\<rparr>)"
| shut_down: "y_pending y = None \<Longrightarrow> m_rootDone (y_m y) \<Longrightarrow> shutdown_section (y_m y) = (rs, m') \<Longrightarrow>
    pool_step E y (y\<lparr>y_m := m', y_ending := y_ending y \<union> set rs\<rparr>)"

inductive pool_reachable :: "env \<Rightarrow> pool_system \<Rightarrow> pool_system \<Rightarrow> bool" for E where
  start: "pool_reachable E y y"
| step: "pool_reachable E y y' \<Longrightarrow> pool_step E y' y'' \<Longrightarrow> pool_reachable E y y''"

text \<open>The state in which the goroutines start, over a fresh manager.\<close>

definition pool_start :: "manager \<Rightarrow> sessionManager \<Rightarrow> hist \<Rightarrow> pool_system" where
  "pool_start m sm h =
     \<lparr>y_m = m, y_sm = sm, y_h = h, y_building = {}, y_staged = {}, y_retired = {}, y_victims = {}, y_ending = {},
      y_pending = None\<rparr>"

subsection \<open>Accounting for the indexes\<close>

definition slot :: "manager \<Rightarrow> wref \<Rightarrow> int" where
  "slot m r = w_Index (worker_at m r)"

text \<open>The workers that own an index: staged, retired or in the pool.\<close>

definition owners :: "pool_system \<Rightarrow> wref set" where
  "owners y = y_staged y \<union> y_retired y \<union> snd ` set (m_workers (y_m y))"

definition staged_ok :: "manager \<Rightarrow> wref \<Rightarrow> bool" where
  "staged_ok m r \<longleftrightarrow> r < length (m_store m) \<and> w_ID (worker_at m r) = worker_name (slot m r) \<and>
     0 \<le> slot m r \<and> slot m r \<le> maxNamespaceIndex"

definition slots_exact :: "pool_system \<Rightarrow> bool" where
  "slots_exact y \<longleftrightarrow> pool_ok (y_m y) \<and> set_option (y_pending y) \<subseteq> y_staged y \<and> y_staged y \<inter> y_retired y = {} \<and>
     (y_staged y \<union> y_retired y) \<inter> snd ` set (m_workers (y_m y)) = {} \<and>
     (\<forall>r \<in> y_staged y \<union> y_retired y. staged_ok (y_m y) r) \<and>
     inj_on (slot (y_m y)) (owners y) \<and> slot (y_m y) ` owners y \<inter> y_building y = {} \<and>
     m_usedIndexes (y_m y) = y_building y \<union> slot (y_m y) ` owners y"

text \<open>The entry that the goroutine which holds the lock between its check and its insertion will add.\<close>

definition inserting :: "pool_system \<Rightarrow> (string \<times> wref) set" where
  "inserting y = (case y_pending y of None \<Rightarrow> {} | Some r \<Rightarrow> {(w_ID (worker_at (y_m y) r), r)})"

text \<open>Changes that leave pool, indexes and identities alone.\<close>

definition same_slots :: "manager \<Rightarrow> manager \<Rightarrow> bool" where
  "same_slots m m' \<longleftrightarrow> m_workers m' = m_workers m \<and> m_usedIndexes m' = m_usedIndexes m \<and> m_servers m' = m_servers m \<and>
     length (m_store m') = length (m_store m) \<and>
     (\<forall>r. w_ID (worker_at m' r) = w_ID (worker_at m r) \<and> w_Index (worker_at m' r) = w_Index (worker_at m r))"

section \<open>Sections that leave the slots alone\<close>

lemma same_slots_refl: "same_slots m m"
  by (simp add: same_slots_def)

lemma same_slots_set:
  "w_ID w = w_ID (worker_at m r) \<Longrightarrow> w_Index w = w_Index (worker_at m r) \<Longrightarrow> same_slots m (set_worker m r w)"
  using worker_at_set_id [of w m r] by (simp add: same_slots_def)

lemma same_slots_step: "worker_step (worker_at m r) w \<Longrightarrow> same_slots m (set_worker m r w)"
  by (rule same_slots_set) (auto dest: worker_step_keeps)

lemma same_slots_track: "same_slots m (set_worker m r (IncrConns now (worker_at m r)))"
  "same_slots m (set_worker m r (DecrConns now (worker_at m r)))"
  by (auto intro: same_slots_step worker_step.intros)

lemma same_slots_exit: "same_slots m (process_ended m r)"
  using same_slots_step [OF exited, of m r] by (simp add: process_ended_def signalWakeup_def same_slots_def worker_at_def)

lemma same_slots_stop: "stop_worker E r (m, h) = (m', h') \<Longrightarrow> same_slots m m'"
  by (erule stop_worker_facts) (auto intro: same_slots_step worker_step.stop)

lemma same_slots_closing: "force_closing m r = (b, m') \<Longrightarrow> same_slots m m'"
  using same_slots_step [OF replaced, of m r] by (auto simp: force_closing_def map_prod_def split: prod.splits)

lemma same_slots_root: "same_slots m (m\<lparr>m_rootDone := b\<rparr>)" "same_slots m (m\<lparr>m_preconnectInflight := I\<rparr>)"
  "same_slots m (m\<lparr>m_preconnectSem := k\<rparr>)"
  by (simp_all add: same_slots_def worker_at_def)

lemma same_slots_signal: "sig \<in> {signalWakeup, signalGrow, signalPreconnect} \<Longrightarrow> same_slots m (sig m)"
  by (auto simp: same_slots_def signalWakeup_def signalGrow_def signalPreconnect_def worker_at_def)

lemma pool_ok_same: "same_slots m m' \<Longrightarrow> pool_ok m' \<longleftrightarrow> pool_ok m"
  by (simp add: same_slots_def pool_ok_def published_ok_def Let_def)

lemma slots_exact_same:
  assumes "slots_exact y" and "same_slots (y_m y) (y_m y')" and "y_building y' = y_building y"
    and "y_staged y' \<union> y_retired y' = y_staged y \<union> y_retired y" and "y_staged y' \<inter> y_retired y' = {}"
    and "set_option (y_pending y') \<subseteq> y_staged y'"
  shows "slots_exact y'"
proof -
  have o: "owners y' = owners y" using assms(2,4) by (simp add: owners_def same_slots_def)
  have s: "slot (y_m y') r = slot (y_m y) r" for r using assms(2) by (simp add: slot_def same_slots_def)
  then have "inj_on (slot (y_m y')) (owners y) = inj_on (slot (y_m y)) (owners y)" by (simp add: inj_on_def)
  moreover have "staged_ok (y_m y') r = staged_ok (y_m y) r" for r
    using assms(2) s by (simp add: staged_ok_def same_slots_def)
  moreover have "m_workers (y_m y') = m_workers (y_m y)" "m_usedIndexes (y_m y') = m_usedIndexes (y_m y)"
    using assms(2) by (simp_all add: same_slots_def)
  ultimately show ?thesis
    using assms(1,3,4,5,6) pool_ok_same [OF assms(2)] unfolding slots_exact_def o s image_cong [OF refl s] by simp
qed

lemma same_slots_dispatch:
  assumes "pool_ok m" and "dispatchPending clock m = (ds, m')"
  shows "same_slots m m'"
proof -
  let ?g = "effectiveGrace m" and ?xs = "m_workers m"
  obtain m1 fp cs gf where f: "foldl (dispatch_one clock ?g) (m, 0, [], 0) ?xs = (m1, fp, cs, gf)" by (metis prod_cases4)
  obtain ds0 m2 where a: "admit m1 fp cs = (ds0, m2)" by (metis surj_pair)
  note dl = dispatch_loop [OF published_refs [OF assms(1)] f refl]
  have m1: "m1 = m\<lparr>m_store := m_store m1\<rparr>" and len: "length (m_store m1) = length (m_store m)" using dl by blast+
  have fields: "m_workers m1 = ?xs" "m_usedIndexes m1 = m_usedIndexes m" "m_servers m1 = m_servers m" by (subst m1, simp)+
  have at: "w_ID (worker_at m1 r) = w_ID (worker_at m r) \<and> w_Index (worker_at m1 r) = w_Index (worker_at m r)" for r
  proof (cases "r \<in> snd ` set ?xs")
    case True
    then obtain p where "p \<in> set ?xs" "r = snd p" by blast
    then have "worker_at m1 r = settled clock ?g (fst p) (worker_at m r)" using dl by blast
    then show ?thesis by (simp add: settled_def)
  next
    case False
    then have "worker_at m1 r = worker_at m r" using dl by blast
    then show ?thesis by simp
  qed
  have "same_slots m m1" using len fields at by (simp add: same_slots_def)
  moreover have "m2 = m1\<lparr>m_preconnectInflight := m_preconnectInflight m1 \<union> set ds0\<rparr>" using admit_eq [OF a] by simp
  ultimately have "same_slots m m2" by (simp add: same_slots_def worker_at_def)
  moreover have "m' = m2 \<or> m' = signalGrow (signalWakeup m2)"
    using assms(2) f a by (auto simp: dispatchPending_def Let_def split: if_splits)
  ultimately show ?thesis by (auto simp: same_slots_def signalWakeup_def signalGrow_def worker_at_def)
qed

section \<open>Sections that move slots\<close>

lemma slots_exactD:
  assumes "slots_exact y"
  shows "pool_ok (y_m y)" and "y_staged y \<inter> y_retired y = {}"
    and "(y_staged y \<union> y_retired y) \<inter> snd ` set (m_workers (y_m y)) = {}"
    and "r \<in> y_staged y \<union> y_retired y \<Longrightarrow> staged_ok (y_m y) r"
    and "inj_on (slot (y_m y)) (owners y)" and "slot (y_m y) ` owners y \<inter> y_building y = {}"
    and "m_usedIndexes (y_m y) = y_building y \<union> slot (y_m y) ` owners y"
    and "set_option (y_pending y) \<subseteq> y_staged y"
  using assms by (simp_all add: slots_exact_def)

lemma exact_same: "slots_exact y \<Longrightarrow> same_slots (y_m y) m' \<Longrightarrow> slots_exact (y\<lparr>y_m := m'\<rparr>)"
  by (frule slots_exact_same) (simp_all add: slots_exactD(2,8))

lemma exact_sessions: "slots_exact y \<Longrightarrow> slots_exact (y\<lparr>y_sm := sm\<rparr>)" "slots_exact y \<Longrightarrow> slots_exact (y\<lparr>y_h := h\<rparr>)"
  by (frule slots_exact_same; simp add: slots_exactD(2,8) same_slots_refl)+

text \<open>Taking owners away, with their indexes.\<close>

lemma slots_exact_drop:
  assumes "slots_exact y" and "X \<subseteq> owners y" and "owners y' = owners y - X"
    and "m_usedIndexes (y_m y') = m_usedIndexes (y_m y) - slot (y_m y) ` X" and "y_building y' = y_building y"
    and "\<And>r. w_ID (worker_at (y_m y') r) = w_ID (worker_at (y_m y) r) \<and> w_Index (worker_at (y_m y') r) = w_Index (worker_at (y_m y) r)"
    and "length (m_store (y_m y')) = length (m_store (y_m y))" and "m_servers (y_m y') = m_servers (y_m y)"
    and "set (m_workers (y_m y')) \<subseteq> set (m_workers (y_m y))" and "gomap_ok (m_workers (y_m y'))"
    and "y_staged y' \<subseteq> y_staged y" and "y_retired y' \<subseteq> y_retired y" and "set_option (y_pending y') \<subseteq> y_staged y'"
  shows "slots_exact y'"
proof -
  note e = slots_exactD [OF assms(1)]
  have s: "slot (y_m y') = slot (y_m y)" using assms(6) by (simp add: slot_def fun_eq_iff)
  have "slot (y_m y) ` (owners y - X) \<inter> slot (y_m y) ` X = {}" using e(5) assms(2) by (auto simp: inj_on_def)
  moreover have "slot (y_m y) ` X \<inter> y_building y = {}" using e(6) assms(2) by blast
  moreover have "slot (y_m y) ` owners y = slot (y_m y) ` (owners y - X) \<union> slot (y_m y) ` X" using assms(2) by blast
  ultimately have used: "m_usedIndexes (y_m y') = y_building y' \<union> slot (y_m y') ` owners y'"
    unfolding s assms(3,4,5) e(7) by blast
  have "published_ok (y_m y') p" if p: "p \<in> set (m_workers (y_m y'))" for p
  proof -
    have "snd p \<in> owners y'" using p by (simp add: owners_def)
    then have "slot (y_m y') (snd p) \<in> m_usedIndexes (y_m y')" using used by blast
    moreover have "published_ok (y_m y) p" using p assms(9) e(1) by (auto simp: pool_ok_def)
    ultimately show ?thesis using assms(6,7) by (simp add: published_ok_def slot_def Let_def)
  qed
  moreover have "m_usedIndexes (y_m y') \<subseteq> {0..maxNamespaceIndex}" using assms(4) e(1) by (auto simp: pool_ok_def)
  ultimately have "pool_ok (y_m y')" using e(1) assms(8,10) by (simp add: pool_ok_def)
  moreover have "staged_ok (y_m y') r" if "r \<in> y_staged y' \<union> y_retired y'" for r
    using e(4) [of r] that assms(6,7,11,12) by (auto simp: staged_ok_def s)
  moreover have "inj_on (slot (y_m y')) (owners y')" using e(5) assms(3) unfolding s by (auto intro: inj_on_subset)
  moreover have "slot (y_m y') ` owners y' \<inter> y_building y' = {}" using e(6) assms(3,5) unfolding s by auto
  moreover have "(y_staged y' \<union> y_retired y') \<inter> snd ` set (m_workers (y_m y')) = {}" using e(3) assms(9,11,12) by blast
  moreover have "y_staged y' \<inter> y_retired y' = {}" using e(2) assms(11,12) by blast
  ultimately show ?thesis using used assms(13) by (simp add: slots_exact_def)
qed

lemma slot_fields [simp]:
  "slot (m\<lparr>m_usedIndexes := U\<rparr>) = slot m" "slot (m\<lparr>m_workers := ws\<rparr>) = slot m"
  "staged_ok (m\<lparr>m_usedIndexes := U\<rparr>) = staged_ok m" "staged_ok (m\<lparr>m_workers := ws\<rparr>) = staged_ok m"
  by (auto simp: slot_def staged_ok_def worker_at_def fun_eq_iff)

text \<open>Beginning and giving up a creation.\<close>

lemma slots_exact_building:
  assumes "slots_exact y" and "B \<inter> slot (y_m y) ` owners y = {}" and "B \<subseteq> {0..maxNamespaceIndex}"
  shows "slots_exact (y\<lparr>y_m := (y_m y)\<lparr>m_usedIndexes := B \<union> slot (y_m y) ` owners y\<rparr>, y_building := B\<rparr>)"
proof -
  note e = slots_exactD [OF assms(1)]
  let ?m = "(y_m y)\<lparr>m_usedIndexes := B \<union> slot (y_m y) ` owners y\<rparr>"
  have "published_ok ?m p" if p: "p \<in> set (m_workers (y_m y))" for p
  proof -
    have "w_Index (worker_at (y_m y) (snd p)) \<in> slot (y_m y) ` owners y" using p by (auto simp: owners_def slot_def)
    moreover have "published_ok (y_m y) p" using p e(1) by (simp add: pool_ok_def)
    ultimately show ?thesis by (simp add: published_ok_def worker_at_def Let_def)
  qed
  then have "pool_ok ?m" using e(1,7) assms(3) by (auto simp: pool_ok_def)
  moreover have "owners (y\<lparr>y_m := ?m, y_building := B\<rparr>) = owners y" by (simp add: owners_def)
  ultimately show ?thesis using e(2-6,8) assms(2) unfolding slots_exact_def by (auto simp: Int_commute)
qed

lemma exact_acquired:
  assumes "slots_exact y" and "acquireIndex (y_m y) = (i, m')" and "0 \<le> i"
  shows "slots_exact (y\<lparr>y_m := m', y_building := insert i (y_building y)\<rparr>)"
proof -
  note e = slots_exactD [OF assms(1)]
  have i: "free_index (y_m y) i" and m': "m' = (y_m y)\<lparr>m_usedIndexes := insert i (m_usedIndexes (y_m y))\<rparr>"
    using assms(2,3) by (cases rule: acquireIndex_cases [of "y_m y"]; auto)+
  have "insert i (y_building y) \<inter> slot (y_m y) ` owners y = {}" using i e(6,7) by (auto simp: free_index_def)
  moreover have "insert i (y_building y) \<subseteq> {0..maxNamespaceIndex}" using i e(1,7) by (auto simp: free_index_def pool_ok_def)
  ultimately show ?thesis using slots_exact_building [OF assms(1)] e(7) unfolding m' by (metis Un_insert_left)
qed

lemma exact_failed:
  assumes "slots_exact y" and "i \<in> y_building y"
  shows "slots_exact (y\<lparr>y_m := releaseIndex (y_m y) i, y_h := h', y_building := y_building y - {i}\<rparr>)"
proof -
  note e = slots_exactD [OF assms(1)]
  have "(y_building y - {i}) \<inter> slot (y_m y) ` owners y = {}" using e(6) by blast
  moreover have "y_building y - {i} \<subseteq> {0..maxNamespaceIndex}" using e(1,7) by (auto simp: pool_ok_def)
  moreover have "m_usedIndexes (y_m y) - {i} = (y_building y - {i}) \<union> slot (y_m y) ` owners y" using e(6,7) assms(2) by blast
  ultimately have "slots_exact (y\<lparr>y_m := releaseIndex (y_m y) i, y_building := y_building y - {i}\<rparr>)"
    using slots_exact_building [OF assms(1)] by (simp add: releaseIndex_def)
  then show ?thesis by (rule slots_exact_same) (use e(2,8) in \<open>simp_all add: same_slots_refl\<close>)
qed

lemma exact_built:
  assumes "slots_exact y" and "i \<in> y_building y" and "build_worker E (y_m y) srv i (y_h y) = (Inr w, h')"
    and "alloc_worker (y_m y) w = (r, m')"
  shows "slots_exact (y\<lparr>y_m := m', y_h := h', y_building := y_building y - {i}, y_staged := insert r (y_staged y)\<rparr>)"
    (is "slots_exact ?y")
proof -
  note e = slots_exactD [OF assms(1)]
  note w = build_worker_Inr [OF assms(3)]
  have r: "r = length (m_store (y_m y))" and m': "m' = (y_m y)\<lparr>m_store := m_store (y_m y) @ [w]\<rparr>"
    using assms(4) by (auto simp: alloc_worker_def)
  have old: "worker_at m' q = worker_at (y_m y) q" if "q < r" for q using that by (simp add: m' r worker_at_def nth_append)
  have new: "worker_at m' r = w" by (simp add: m' r worker_at_def)
  have lt: "q < r" if "q \<in> owners y" for q
    using that e(4) [of q] published_refs(2) [OF e(1)] by (auto simp: owners_def staged_ok_def r)
  have slots: "slot m' q = slot (y_m y) q" if "q \<in> owners y" for q using old [OF lt [OF that]] by (simp add: slot_def)
  have img: "slot m' ` owners y = slot (y_m y) ` owners y" by (rule image_cong [OF refl slots])
  have o: "owners ?y = insert r (owners y)" by (auto simp: owners_def m')
  have si: "slot m' r = i" using w(2) by (simp add: slot_def new)
  have "published_ok m' p" if p: "p \<in> set (m_workers (y_m y))" for p
  proof -
    have "snd p < r" using p lt by (simp add: owners_def)
    then show ?thesis using e(1) p old [of "snd p"] by (auto simp: pool_ok_def published_ok_def Let_def m')
  qed
  then have "pool_ok m'" using e(1) by (simp add: pool_ok_def m')
  moreover have "staged_ok m' q" if "q \<in> insert r (y_staged y) \<union> y_retired y" for q
  proof (cases "q = r")
    case True
    then show ?thesis using w(1,2,9,10) by (simp add: staged_ok_def slot_def new) (simp add: m' r)
  next
    case False
    then have q: "q \<in> owners y" "staged_ok (y_m y) q" using that e(4) by (auto simp: owners_def)
    then show ?thesis using old [OF lt [OF q(1)]] slots [OF q(1)] lt [OF q(1)] by (simp add: staged_ok_def m' r)
  qed
  moreover have "inj_on (slot m') (insert r (owners y))"
  proof -
    have "inj_on (slot m') (owners y) = inj_on (slot (y_m y)) (owners y)" by (rule inj_on_cong) (rule slots)
    then have "inj_on (slot m') (owners y)" using e(5) by (rule iffD2)
    moreover have "slot m' r \<notin> slot m' ` owners y" using e(6) assms(2) unfolding img si by blast
    ultimately show ?thesis by (auto simp: inj_on_insert)
  qed
  moreover have "slot m' ` insert r (owners y) \<inter> (y_building y - {i}) = {}" using e(6) img si by auto
  moreover have "m_usedIndexes m' = (y_building y - {i}) \<union> slot m' ` insert r (owners y)"
    using e(7) assms(2) img si by (auto simp: m')
  moreover have "r \<notin> y_retired y" "r \<notin> snd ` set (m_workers (y_m y))" using lt by (auto simp: owners_def)
  ultimately show ?thesis using e(2,3,8) unfolding slots_exact_def o by (auto simp: m')
qed

text \<open>A staged worker enters the pool.\<close>

lemma exact_published:
  assumes "slots_exact y" and "r \<in> y_staged y"
  shows "slots_exact (y\<lparr>y_m := insert_worker (y_m y) r, y_staged := y_staged y - {r}, y_pending := None\<rparr>)"
proof -
  note e = slots_exactD [OF assms(1)]
  let ?id = "w_ID (worker_at (y_m y) r)" and ?m = "y_m y"
  have st: "staged_ok ?m r" using e(4) assms(2) by blast
  have "mget (m_workers ?m) ?id = None"
  proof (rule ccontr)
    assume "mget (m_workers ?m) ?id \<noteq> None"
    then obtain q where q: "(?id, q) \<in> set (m_workers ?m)" by (auto dest: mget_in_set)
    then have "worker_name (slot ?m q) = worker_name (slot ?m r)" "0 \<le> slot ?m q"
      using published(3,4) [OF e(1) q] st by (simp_all add: staged_ok_def slot_def)
    then have "slot ?m q = slot ?m r" using worker_name_inj st by (simp add: staged_ok_def)
    moreover have "q \<in> owners y" "r \<in> owners y" using q assms(2) by (auto simp: owners_def intro: image_eqI [rotated])
    ultimately have "q = r" using e(5) by (auto simp: inj_on_def)
    then show False using q e(3) assms(2) by force
  qed
  then have put: "mput (m_workers ?m) ?id r = m_workers ?m @ [(?id, r)]" and fresh: "?id \<notin> fst ` set (m_workers ?m)"
    by (auto simp: mset_mput_fresh mget_None_iff)
  let ?m' = "?m\<lparr>m_workers := m_workers ?m @ [(?id, r)]\<rparr>"
  let ?y' = "y\<lparr>y_m := ?m', y_staged := y_staged y - {r}, y_pending := None\<rparr>"
  have o: "owners ?y' = owners y" using assms(2) by (auto simp: owners_def)
  have "slot ?m r \<in> m_usedIndexes ?m" using e(7) assms(2) by (auto simp: owners_def)
  then have "published_ok ?m' (?id, r)" using st by (simp add: published_ok_def staged_ok_def slot_def worker_at_def)
  moreover have "published_ok ?m' p = published_ok ?m p" for p by (simp add: published_ok_def worker_at_def)
  ultimately have "pool_ok ?m'" using e(1) fresh by (auto simp: pool_ok_def gomap_ok_def)
  then have "slots_exact ?y'" using e(2-7) assms(2) unfolding slots_exact_def o by auto
  then show ?thesis by (simp only: insert_worker_def put)
qed

text \<open>Workers leave: refused or released, evicted by the health check, and all at once.\<close>

lemma exact_released:
  assumes "slots_exact y" and "r \<in> y_staged y \<union> y_retired y" and "y_pending y = None"
    and "y' = y\<lparr>y_m := releaseIndex (y_m y) (w_Index (worker_at (y_m y) r)), y_staged := y_staged y - {r},
      y_retired := y_retired y - {r}, y_ending := Z\<rparr>"
  shows "slots_exact y'"
proof (rule slots_exact_drop [OF assms(1), of "{r}"])
  note e = slots_exactD [OF assms(1)]
  show "owners y' = owners y - {r}" using e(3) assms(2) by (auto simp: assms(4) owners_def releaseIndex_def)
  show "gomap_ok (m_workers (y_m y'))" using e(1) by (simp add: assms(4) releaseIndex_def pool_ok_def)
qed (use assms(2,3) in \<open>auto simp: assms(4) owners_def releaseIndex_def worker_at_def slot_def\<close>)

lemma exact_scanned:
  assumes "slots_exact y" and "scan_workers clock msm (y_m y) = (m', vs, k)"
  shows "slots_exact (y\<lparr>y_m := m', y_victims := Z\<rparr>)"
proof -
  note e = slots_exactD [OF assms(1)]
  let ?m = "y_m y"
  define D where "D = (\<lambda>p. doomed (clock (fst p)) msm ?m (fst p) (worker_at ?m (snd p)))"
  note sp = scan_pool [OF e(1) assms(2) D_def]
  note sl = scan_loop [OF published_refs [OF e(1)] assms(2) [unfolded scan_workers_def] D_def refl]
  have "inj_on snd (set (m_workers ?m))" using published_refs(1) [OF e(1)] by (simp add: distinct_map)
  then have "snd ` (set (m_workers ?m) - set (filter D (m_workers ?m))) = snd ` set (m_workers ?m) - snd ` set (filter D (m_workers ?m))"
    by (rule inj_on_image_set_diff) auto
  moreover have "set (m_workers m') = set (m_workers ?m) - set (filter D (m_workers ?m))" using sp(1) by auto
  ultimately have refs: "snd ` set (m_workers m') = snd ` set (m_workers ?m) - snd ` set (filter D (m_workers ?m))" by simp
  show ?thesis
  proof (rule slots_exact_drop [OF assms(1), of "snd ` set (filter D (m_workers ?m))"])
    show "owners (y\<lparr>y_m := m', y_victims := Z\<rparr>) = owners y - snd ` set (filter D (m_workers ?m))"
      using e(3) refs unfolding owners_def by auto
    show "w_ID (worker_at (y_m (y\<lparr>y_m := m', y_victims := Z\<rparr>)) r) = w_ID (worker_at ?m r) \<and>
        w_Index (worker_at (y_m (y\<lparr>y_m := m', y_victims := Z\<rparr>)) r) = w_Index (worker_at ?m r)" for r
    proof (cases "r \<in> snd ` set (m_workers ?m)")
      case True
      then show ?thesis using sp(3) by fastforce
    next
      case False
      then have "worker_at m' r = worker_at ?m r" using sl by blast
      then show ?thesis by simp
    qed
    show "gomap_ok (m_workers (y_m (y\<lparr>y_m := m', y_victims := Z\<rparr>)))" using sp(6) by (simp add: pool_ok_def)
    show "m_servers (y_m (y\<lparr>y_m := m', y_victims := Z\<rparr>)) = m_servers ?m" using sp(7) by (simp add: same_settings_def)
  qed (use sp e(8) in \<open>auto simp: owners_def slot_def image_image\<close>)
qed

lemma exact_shut_down:
  assumes "slots_exact y" and "shutdown_section (y_m y) = (rs, m')"
  shows "slots_exact (y\<lparr>y_m := m', y_ending := Z\<rparr>)"
proof -
  note e = slots_exactD [OF assms(1)]
  have m': "m' = (y_m y)\<lparr>m_usedIndexes := m_usedIndexes (y_m y) - slot (y_m y) ` snd ` set (m_workers (y_m y)), m_workers := []\<rparr>"
    using assms(2) by (auto simp: shutdown_section_def release_all slot_def image_image)
  show ?thesis
  proof (rule slots_exact_drop [OF assms(1), of "snd ` set (m_workers (y_m y))"])
    show "owners (y\<lparr>y_m := m', y_ending := Z\<rparr>) = owners y - snd ` set (m_workers (y_m y))"
      using e(3) by (auto simp: owners_def m')
  qed (use e(8) in \<open>auto simp: owners_def m' worker_at_def\<close>)
qed

lemma pool_step_exact: "pool_step E y y' \<Longrightarrow> slots_exact y \<Longrightarrow> slots_exact y'"
proof (induction rule: pool_step.induct)
  case (passed r y)
  from passed(4) show ?case
    by (rule slots_exact_same) (use passed slots_exactD(2) [OF passed(4)] in \<open>simp_all add: same_slots_refl\<close>)
next
  case (replacing r y old)
  from replacing(4) show ?case
    by (rule slots_exact_same) (use replacing slots_exactD(2) [OF replacing(4)] in \<open>simp_all add: same_slots_refl\<close>)
next
  case (inserted y r)
  then show ?case using slots_exactD(8) [OF inserted(2)] by (intro exact_published) auto
next
  case (refused r y)
  show ?case
    by (rule exact_released [OF refused(4), of r _ "insert r (y_ending y)"])
      (use refused slots_exactD(2) [OF refused(4)] in \<open>auto intro!: pool_system.equality\<close>)
next
  case (superfluous r y old)
  from superfluous(4) show ?case
    by (rule slots_exact_same) (use superfluous slots_exactD(2) [OF superfluous(4)] in \<open>auto intro: same_slots_refl\<close>)
next
  case (stopped_retired r y m' h')
  from stopped_retired(3) show ?case
    by (rule slots_exact_same) (use stopped_retired same_slots_stop slots_exactD(2,8) in \<open>auto simp del: stop_worker.simps\<close>)
next
  case (released y r)
  show ?case
    by (rule exact_released [OF released(4), of r _ "y_ending y"])
      (use released slots_exactD(2) [OF released(4)] in \<open>auto intro!: pool_system.equality\<close>)
next
  case (stopped_victim r y m' h')
  from stopped_victim(3) show ?case
    by (rule slots_exact_same) (use stopped_victim same_slots_stop slots_exactD(2,8) in \<open>auto simp del: stop_worker.simps\<close>)
next
  case (stopped_ending r y m' h')
  from stopped_ending(3) show ?case
    by (rule slots_exact_same) (use stopped_ending same_slots_stop slots_exactD(2,8) in \<open>auto simp del: stop_worker.simps\<close>)
next
  case (dispatched y clock ds m')
  from dispatched(3) show ?case
    by (rule slots_exact_same) (use dispatched same_slots_dispatch slots_exactD(1,2,8) in auto)
qed (auto intro: exact_acquired exact_failed exact_built exact_scanned exact_shut_down
    exact_same exact_sessions same_slots_track same_slots_exit same_slots_root same_slots_closing same_slots_signal)

lemma reachable_exact:
  assumes "pool_ok m" and "m_workers m = []" and "m_usedIndexes m = {}" and "pool_reachable E (pool_start m sm h) y"
  shows "slots_exact y"
proof -
  have "slots_exact (pool_start m sm h)" using assms(1-3) by (simp add: slots_exact_def pool_start_def owners_def)
  with assms(4) show ?thesis by (induction rule: pool_reachable.induct) (auto intro: pool_step_exact)
qed

section \<open>Properties\<close>

text \<open>
  C4: no slot is ever lost or shared, whatever the interleaving. From a fresh manager, in every state
  the goroutines can reach, the used indexes are exactly those of the creations under way, of the
  workers waiting to be published or to be released, and of the workers in the pool; no two of
  them have the same index, and the pool is well formed.
\<close>

theorem slots_always_exact:
  assumes "pool_ok m" and "m_workers m = []" and "m_usedIndexes m = {}" and "pool_reachable E (pool_start m sm h) y"
  shows "pool_ok (y_m y) \<and> inj_on (slot (y_m y)) (owners y) \<and> slot (y_m y) ` owners y \<inter> y_building y = {} \<and>
    m_usedIndexes (y_m y) = y_building y \<union> slot (y_m y) ` owners y"
  using reachable_exact [OF assms] by (simp add: slots_exact_def)

theorem slots_always_exact_witness:
  "\<exists>y. pool_reachable sample_env (pool_start sample_manager (NewManager minute) []) y \<and> y_building y = {0} \<and>
     m_usedIndexes (y_m y) = {0} \<union> slot (y_m y) ` owners y"
proof -
  let ?y0 = "pool_start sample_manager (NewManager minute) []"
  have "acquireIndex (y_m ?y0) = (0, sample_manager\<lparr>m_usedIndexes := {0}\<rparr>)"
    using acquireIndex_free [OF sample_free] by (simp add: pool_start_def sample_manager_eq)
  then have "pool_reachable sample_env ?y0 (?y0\<lparr>y_m := sample_manager\<lparr>m_usedIndexes := {0}\<rparr>, y_building := insert 0 (y_building ?y0)\<rparr>)"
    (is "pool_reachable _ _ ?y1")
    by (intro pool_reachable.step [OF pool_reachable.start] pool_step.acquired) (simp_all add: pool_start_def)
  with slots_always_exact [OF sample_manager_ok sample_manager_eq(2,3) this] show ?thesis
    by (intro exI [of _ ?y1]) (simp add: pool_start_def)
qed

text \<open>
  What the goroutines do to a worker are steps of its life, and they leave the settings of the
  rotation alone. So every run of the pool system is something that the other goroutines of a
  replacement may do (\<open>goes_on\<close>).
\<close>

lemma goes_on_set: "worker_step (worker_at m q) w \<Longrightarrow> goes_on r m (set_worker m q w)"
  by (cases "q = r"; cases "q < length (m_store m)") (auto simp: goes_on_def set_worker_def worker_at_def list_update_beyond)

lemma goes_on_same:
  assumes "m_store m' = m_store m" and "m_rotationGrace m' = m_rotationGrace m" and "m_maxLifetime m' = m_maxLifetime m"
  shows "goes_on r m m'"
  using assms by (simp add: goes_on_def worker_at_def)

lemma goes_on_stop: "stop_worker E q (m, h) = (m', h') \<Longrightarrow> goes_on r m m'"
  by (erule stop_worker_facts) (auto intro: goes_on_set worker_step.stop)

lemma goes_on_dispatch:
  assumes "pool_ok m" and "dispatchPending clock m = (ds, m')"
  shows "goes_on r m m'"
proof -
  let ?g = "effectiveGrace m" and ?xs = "m_workers m"
  obtain m1 fp cs gf where f: "foldl (dispatch_one clock ?g) (m, 0, [], 0) ?xs = (m1, fp, cs, gf)" by (metis prod_cases4)
  obtain ds0 m2 where a: "admit m1 fp cs = (ds0, m2)" by (metis surj_pair)
  note dl = dispatch_loop [OF published_refs [OF assms(1)] f refl]
  have m1: "m1 = m\<lparr>m_store := m_store m1\<rparr>" and len: "length (m_store m1) = length (m_store m)" using dl by blast+
  have fields: "m_rotationGrace m1 = m_rotationGrace m" "m_maxLifetime m1 = m_maxLifetime m" by (subst m1, simp)+
  have "worker_step\<^sup>*\<^sup>* (worker_at m r) (worker_at m1 r)"
  proof (cases "r \<in> snd ` set ?xs")
    case True
    then obtain p where "p \<in> set ?xs" "r = snd p" by blast
    then have "worker_at m1 r = settled clock ?g (fst p) (worker_at m r)" using dl by blast
    then show ?thesis using replaced [of "worker_at m r"]
      by (auto simp: settled_def overdue_def markClosingFromAwaiting_def)
  next
    case False
    then have "worker_at m1 r = worker_at m r" using dl by blast
    then show ?thesis by simp
  qed
  then have "goes_on r m m1" using len fields by (simp add: goes_on_def)
  moreover have "m2 = m1\<lparr>m_preconnectInflight := m_preconnectInflight m1 \<union> set ds0\<rparr>" using admit_eq [OF a] by simp
  moreover have "m' = m2 \<or> m' = signalGrow (signalWakeup m2)"
    using assms(2) f a by (auto simp: dispatchPending_def Let_def split: if_splits)
  ultimately show ?thesis
    by (elim disjE) (auto intro!: goes_on_trans [of r m m1] goes_on_same simp: signalWakeup_def signalGrow_def)
qed

lemma goes_on_scan:
  assumes "pool_ok m" and "scan_workers clock msm m = (m', vs, k)"
  shows "goes_on r m m'"
proof -
  define D where "D = (\<lambda>p. doomed (clock (fst p)) msm m (fst p) (worker_at m (snd p)))"
  note sp = scan_pool [OF assms D_def]
  note sl = scan_loop [OF published_refs [OF assms(1)] assms(2) [unfolded scan_workers_def] D_def refl]
  have "worker_step\<^sup>*\<^sup>* (worker_at m r) (worker_at m' r)"
  proof (cases "r \<in> snd ` set (m_workers m)")
    case True
    then obtain p where "p \<in> set (m_workers m)" "r = snd p" by blast
    then have "worker_at m' r = checked (clock (fst p)) m (worker_at m r)" using sp(3) by blast
    then show ?thesis using rotation [of "worker_at m r" "clock (fst p)"] by (auto simp: checked_def aged_def Let_def)
  next
    case False
    then have "worker_at m' r = worker_at m r" using sl by blast
    then show ?thesis by simp
  qed
  then show ?thesis using sp(7,8) by (simp add: goes_on_def same_settings_def)
qed

lemma pool_step_goes_on:
  assumes "pool_step E y y'" and "slots_exact y" and "r < length (m_store (y_m y))"
  shows "goes_on r (y_m y) (y_m y')"
  using assms
proof (induction rule: pool_step.induct)
  case (scanned y clock m' vs k)
  then show ?case using goes_on_scan [OF slots_exactD(1) [OF scanned(3)] scanned(2)] by simp
next
  case (dispatched y clock ds m')
  then show ?case using goes_on_dispatch [OF slots_exactD(1) [OF dispatched(3)] dispatched(2)] by simp
next
  case (built i y srv w h' q m')
  then show ?case by (auto simp: goes_on_def alloc_worker_def worker_at_def nth_append)
next
  case (acquired y i m')
  then have "m_store m' = m_store (y_m y)" "m_rotationGrace m' = m_rotationGrace (y_m y)" "m_maxLifetime m' = m_maxLifetime (y_m y)"
    by (auto simp: acquireIndex_def Let_def split: option.splits prod.splits if_splits)
  then show ?case by (simp add: goes_on_same)
next
  case (draining y q b m')
  then show ?case using goes_on_set [OF replaced, of r "y_m y" q] by (auto simp: force_closing_def map_prod_def split: prod.splits)
next
  case (process_exit y q)
  have "goes_on r (y_m y) (set_worker (y_m y) q ((worker_at (y_m y) q)\<lparr>w_processExited := True\<rparr>))" by (rule goes_on_set [OF exited])
  from goes_on_trans [OF this goes_on_same] show ?case by (simp add: process_ended_def signalWakeup_def)
next
  case (signalled sig y)
  then show ?case by (auto simp: signalWakeup_def signalGrow_def signalPreconnect_def intro: goes_on_same)
next
  case (shut_down y rs m')
  then show ?case by (auto simp: shutdown_section_def release_all intro: goes_on_same)
qed (auto simp: releaseIndex_def insert_worker_def goes_on_refl simp del: stop_worker.simps
    intro: goes_on_same goes_on_set goes_on_stop worker_step.intros)

lemma pool_run_goes_on:
  assumes "pool_reachable E y y'" and "slots_exact y" and "r < length (m_store (y_m y))"
  shows "goes_on r (y_m y) (y_m y')"
proof -
  have "slots_exact y' \<and> goes_on r (y_m y) (y_m y')"
    using assms
  proof (induction rule: pool_reachable.induct)
    case (step y y' y'')
    then have ih: "slots_exact y'" "goes_on r (y_m y) (y_m y')" by blast+
    then have "r < length (m_store (y_m y'))" using step.prems(2) by (simp add: goes_on_def)
    then show ?case using pool_step_goes_on [OF step.hyps(2) ih(1)] pool_step_exact [OF step.hyps(2) ih(1)] goes_on_trans [OF ih(2)] by blast
  qed (simp add: goes_on_refl)
  then show ?thesis by blast
qed

text \<open>Once the manager's context is cancelled, it stays so, and the pool only shrinks.\<close>

lemma root_done_ops:
  "m_rootDone (set_worker m r w) = m_rootDone m"
  "m_rootDone (process_ended m r) = m_rootDone m" "m_rootDone (releaseIndex m j) = m_rootDone m"
  "acquireIndex m = (j, m') \<Longrightarrow> m_rootDone m' = m_rootDone m"
  "stop_worker E r (m, h) = (m', h') \<Longrightarrow> m_rootDone m' = m_rootDone m"
  "force_closing m r = (b, m') \<Longrightarrow> m_rootDone m' = m_rootDone m"
  "sig \<in> {signalWakeup, signalGrow, signalPreconnect} \<Longrightarrow> m_rootDone (sig m) = m_rootDone m"
  by (auto simp: process_ended_def releaseIndex_def set_worker_def acquireIndex_def
      force_closing_def signalWakeup_def signalGrow_def signalPreconnect_def Let_def map_prod_def
      split: option.splits prod.splits if_splits)

lemma root_done_dispatch:
  assumes "pool_ok m" and "dispatchPending clock m = (ds, m')"
  shows "m_rootDone m' = m_rootDone m"
proof -
  let ?xs = "m_workers m"
  obtain m1 fp cs gf where f: "foldl (dispatch_one clock (effectiveGrace m)) (m, 0, [], 0) ?xs = (m1, fp, cs, gf)" by (metis prod_cases4)
  obtain ds0 m2 where a: "admit m1 fp cs = (ds0, m2)" by (metis surj_pair)
  have "m1 = m\<lparr>m_store := m_store m1\<rparr>" using dispatch_loop [OF published_refs [OF assms(1)] f refl] by blast
  then have "m_rootDone m1 = m_rootDone m" by (metis manager.select_convs(12) manager.surjective manager.update_convs(1))
  moreover have "m_rootDone m2 = m_rootDone m1" using admit_eq [OF a] by simp
  ultimately show ?thesis using assms(2) f a root_done_ops(7)
    by (auto simp: dispatchPending_def Let_def signalWakeup_def signalGrow_def split: if_splits)
qed

lemma done_same:
  assumes "same_slots (y_m y) (y_m y')" and "m_rootDone (y_m y')" and "y_pending y' = y_pending y"
  shows "m_rootDone (y_m y') \<and> set (m_workers (y_m y')) \<union> inserting y' \<subseteq> set (m_workers (y_m y)) \<union> inserting y"
  using assms by (auto simp: same_slots_def inserting_def split: option.splits)

lemma pool_step_done:
  assumes "pool_step E y y'" and "slots_exact y" and "m_rootDone (y_m y)"
  shows "m_rootDone (y_m y') \<and> set (m_workers (y_m y')) \<union> inserting y' \<subseteq> set (m_workers (y_m y)) \<union> inserting y"
  using assms
proof (induction rule: pool_step.induct)
  case (dispatched y clock ds m')
  have ok: "pool_ok (y_m y)" using dispatched(3) by (rule slots_exactD(1))
  show ?case using root_done_dispatch [OF ok dispatched(2)] same_slots_dispatch [OF ok dispatched(2)] dispatched(4)
    by (intro done_same) simp_all
next
  case (scanned y clock m' vs k)
  note sp = scan_pool [OF slots_exactD(1) [OF scanned(3)] scanned(2) refl]
  show ?case using sp(1,7) scanned(1,4) by (auto simp: same_settings_def inserting_def)
next
  case (stopped_retired r y m' h')
  show ?case using same_slots_stop [OF stopped_retired(2)] root_done_ops(5) [OF stopped_retired(2)] stopped_retired(4)
    by (intro done_same) simp_all
next
  case (stopped_victim r y m' h')
  show ?case using same_slots_stop [OF stopped_victim(2)] root_done_ops(5) [OF stopped_victim(2)] stopped_victim(4)
    by (intro done_same) simp_all
next
  case (stopped_ending r y m' h')
  show ?case using same_slots_stop [OF stopped_ending(2)] root_done_ops(5) [OF stopped_ending(2)] stopped_ending(4)
    by (intro done_same) simp_all
next
  case (acquired y i m')
  then show ?case using root_done_ops(4) [OF acquired(2)]
    by (auto simp: acquireIndex_def inserting_def Let_def split: option.splits prod.splits if_splits)
next
  case (draining y r b m')
  show ?case using same_slots_closing [OF draining(1)] root_done_ops(6) [OF draining(1)] draining(3) by (intro done_same) simp_all
next
  case (signalled sig y)
  show ?case using same_slots_signal [OF signalled(1)] root_done_ops(7) [OF signalled(1)] signalled(3) by (intro done_same) simp_all
next
  case (tracked y r now)
  then show ?case using same_slots_track(1) by (intro done_same) (simp_all add: root_done_ops)
next
  case (untracked y r now)
  then show ?case using same_slots_track(2) by (intro done_same) (simp_all add: root_done_ops)
next
  case (process_exit y r)
  then show ?case using same_slots_exit by (intro done_same) (simp_all add: root_done_ops)
next
  case (inserted y r)
  then show ?case by (auto simp: insert_worker_def inserting_def dest: set_mput_subset [THEN subsetD])
next
  case (built i y srv w h' r m')
  then show ?case using slots_exactD(4,8) [OF built(5)]
    by (cases "y_pending y") (auto simp: inserting_def alloc_worker_def worker_at_def nth_append staged_ok_def)
next
  case (shut_down y rs m')
  then show ?case by (auto simp: shutdown_section_def release_all Let_def inserting_def)
qed (auto simp: releaseIndex_def inserting_def publishable_def worker_at_def split: option.split)

lemma reachable_done:
  assumes "pool_reachable E y y'" and "slots_exact y" and "m_rootDone (y_m y)"
  shows "slots_exact y' \<and> m_rootDone (y_m y') \<and> set (m_workers (y_m y')) \<union> inserting y' \<subseteq> set (m_workers (y_m y)) \<union> inserting y"
  using assms by (induction rule: pool_reachable.induct) (use pool_step_exact pool_step_done in \<open>simp, blast\<close>)

text \<open>A run up to the point where a goroutine has found the context alive and is about to insert.\<close>

lemma race_stage:
  assumes "free_index (y_m y) 0" and "\<not> m_rootDone (y_m y)" and "m_workers (y_m y) = []"
    and "m_servers (y_m y) = m_servers sample_manager" and "y_pending y = None"
  shows "\<exists>y' w ns. pool_reachable sample_env y y' \<and> m_workers (y_m y') = [] \<and> y_pending y' = Some (length (m_store (y_m y))) \<and>
    m_store (y_m y') = m_store (y_m y) @ [w] \<and> \<not> m_rootDone (y_m y') \<and> y_victims y' = y_victims y \<and>
    m_usedIndexes (y_m y') = insert 0 (m_usedIndexes (y_m y)) \<and> y_sm y' = y_sm y \<and>
    m_servers (y_m y') = m_servers sample_manager \<and> w_ID w = worker_name 0 \<and> w_Index w = 0 \<and>
    w_State w = WorkerReady \<and> \<not> w_stopOnce w \<and> w_Namespace w = Some ns \<and> ns_Name ns = worker_name 0"
proof -
  let ?m = "y_m y"
  let ?m1 = "?m\<lparr>m_usedIndexes := insert 0 (m_usedIndexes ?m)\<rparr>"
  let ?y1 = "y\<lparr>y_m := ?m1, y_building := insert 0 (y_building y)\<rparr>"
  have s1: "pool_step sample_env y ?y1" using acquireIndex_free [OF assms(1)] assms(5) by (intro pool_step.acquired) auto
  obtain srv where srv: "srv \<in> set (all_servers (m_servers ?m1))"
    using assms(4) by (auto simp: sample_manager_eq cloneServers_def sample_servers_def all_servers_def)
  obtain w h where b: "build_worker sample_env ?m1 srv 0 (y_h y) = (Inr w, h)" using calm_build [of 0 ?m1 srv "y_h y"] by auto
  note w = build_worker_Inr [OF b]
  let ?r = "length (m_store ?m)" and ?m2 = "?m1\<lparr>m_store := m_store ?m @ [w]\<rparr>"
  let ?y2 = "?y1\<lparr>y_m := ?m2, y_h := h, y_building := y_building ?y1 - {0}, y_staged := insert ?r (y_staged ?y1)\<rparr>"
  have s2: "pool_step sample_env ?y1 ?y2" using srv b by (intro pool_step.built) (auto simp: alloc_worker_def)
  let ?y3 = "?y2\<lparr>y_pending := Some ?r\<rparr>"
  have s3: "pool_step sample_env ?y2 ?y3" using assms(2,5) by (intro pool_step.passed) simp_all
  have "pool_reachable sample_env y ?y3"
    by (rule pool_reachable.step [OF pool_reachable.step [OF pool_reachable.step [OF pool_reachable.start s1] s2] s3])
  moreover obtain ns where ns: "w_Namespace w = Some ns" "ns = new_namespace (worker_name 0) 0 (ns_Handle ns)" using w(8) by blast
  moreover have "ns_Name ns = worker_name 0" using ns(2) by (metis namespace.select_convs(1) new_namespace_def)
  moreover have "\<not> w_stopOnce w" using w(4,6) by (auto simp: worker_ok_def)
  ultimately show ?thesis using assms w(1,2,4) by (intro exI [of _ ?y3] exI [of _ w] exI [of _ ns]) simp
qed

text \<open>
  C6: shutting down is final under every interleaving. The cancellation takes no lock, so it may catch
  one goroutine that holds the lock, has found the context alive and is about to insert its worker;
  once the manager's context is cancelled, that worker is the only one that can still enter the
  pool. The section of \<open>Shutdown\<close> that empties the pool takes the lock, so it comes after such an
  insertion: from then on the pool is empty and stays so, whatever state the goroutines are in.
\<close>

theorem shutdown_is_final:
  assumes "pool_ok m" and "m_workers m = []" and "m_usedIndexes m = {}" and "pool_reachable E (pool_start m sm h) y"
    and "m_rootDone (y_m y)"
  shows "(\<forall>y'. pool_reachable E y y' \<longrightarrow> m_rootDone (y_m y') \<and>
      set (m_workers (y_m y')) \<subseteq> set (m_workers (y_m y)) \<union> inserting y) \<and>
    (\<forall>rs m' y'. y_pending y = None \<longrightarrow> shutdown_section (y_m y) = (rs, m') \<longrightarrow>
      pool_step E y (y\<lparr>y_m := m', y_ending := y_ending y \<union> set rs\<rparr>) \<and>
      (pool_reachable E (y\<lparr>y_m := m', y_ending := y_ending y \<union> set rs\<rparr>) y' \<longrightarrow> m_workers (y_m y') = []))"
proof -
  have ex: "slots_exact y" using reachable_exact [OF assms(1-4)] .
  have "m_workers (y_m y') = []" if p: "y_pending y = None" and sec: "shutdown_section (y_m y) = (rs, m')"
    and r: "pool_reachable E (y\<lparr>y_m := m', y_ending := y_ending y \<union> set rs\<rparr>) y'" for rs m' y'
  proof -
    let ?y1 = "y\<lparr>y_m := m', y_ending := y_ending y \<union> set rs\<rparr>"
    have s: "pool_step E y ?y1" by (rule pool_step.shut_down [OF p assms(5) sec])
    have "set (m_workers (y_m ?y1)) \<union> inserting ?y1 = {}" using sec p by (auto simp: shutdown_section_def inserting_def Let_def)
    then show ?thesis using reachable_done [OF r pool_step_exact [OF s ex]] pool_step_done [OF s ex assms(5)] by auto
  qed
  then show ?thesis using reachable_done [OF _ ex assms(5)] pool_step.shut_down [OF _ assms(5)] by blast
qed

theorem shutdown_is_final_witness:
  "\<exists>y y' y'' rs m'. pool_reachable sample_env (pool_start sample_manager (NewManager minute) []) y \<and>
     m_rootDone (y_m y) \<and> m_workers (y_m y) = [] \<and> pool_step sample_env y y' \<and> m_workers (y_m y') = [(worker_name 0, 0)] \<and>
     shutdown_section (y_m y') = (rs, m') \<and> pool_step sample_env y' y'' \<and> m_workers (y_m y'') = []"
proof -
  let ?y0 = "pool_start sample_manager (NewManager minute) []"
  have 0: "free_index (y_m ?y0) 0" "\<not> m_rootDone (y_m ?y0)" "m_workers (y_m ?y0) = []"
    "m_servers (y_m ?y0) = m_servers sample_manager" "y_pending ?y0 = None"
    using sample_free by (simp_all add: pool_start_def sample_manager_eq)
  obtain y1 w ns where r1: "pool_reachable sample_env ?y0 y1" and p1: "m_workers (y_m y1) = []" "y_pending y1 = Some 0"
    "m_store (y_m y1) = [w]" "w_ID w = worker_name 0"
    using race_stage [OF 0] by (simp add: pool_start_def sample_manager_eq) blast
  let ?y2 = "y1\<lparr>y_m := (y_m y1)\<lparr>m_rootDone := True\<rparr>\<rparr>"
  let ?y3 = "?y2\<lparr>y_m := insert_worker (y_m ?y2) 0, y_staged := y_staged ?y2 - {0}, y_pending := None\<rparr>"
  obtain rs m' where sec: "shutdown_section (y_m ?y3) = (rs, m')" by (metis surj_pair)
  let ?y4 = "?y3\<lparr>y_m := m', y_ending := y_ending ?y3 \<union> set rs\<rparr>"
  have r2: "pool_reachable sample_env ?y0 ?y2" by (rule pool_reachable.step [OF r1 pool_step.cancelled])
  have s3: "pool_step sample_env ?y2 ?y3" by (rule pool_step.inserted) (simp add: p1(2))
  have m3: "m_workers (y_m ?y3) = [(worker_name 0, 0)]" "m_rootDone (y_m ?y3)"
    using p1 by (simp_all add: insert_worker_def worker_at_def mput_def)
  note fin = shutdown_is_final [OF sample_manager_ok sample_manager_eq(2,3) pool_reachable.step [OF r2 s3] m3(2)]
  have "pool_step sample_env ?y3 ?y4 \<and> m_workers (y_m ?y4) = []"
    using conjunct2 [OF fin, rule_format, OF _ sec, of ?y4] pool_reachable.start [of sample_env ?y4] by simp
  then show ?thesis using r2 s3 m3 p1(1) sec by (intro exI [of _ ?y2] exI [of _ ?y3] exI [of _ ?y4]) simp
qed

lemma Stop_deletes:
  assumes "\<not> w_stopOnce w" and "w_Namespace w = Some ns"
  shows "\<exists>t. snd (snd (Stop E w h)) = h @ t \<and> NsDeleteNamed (ns_Name ns) \<in> fst ` set t"
proof -
  define h1 where "h1 = (case w_OvpnProcess w of None \<Rightarrow> h | Some pid \<Rightarrow> snd (stop_process E pid h))"
  have "snd (snd (Stop E w h)) = destroyed E ns h1"
    using assms by (cases "w_OvpnProcess w") (auto simp: Stop_def h1_def Let_def dest: Destroy_None split: prod.splits)
  moreover have "prefix h h1"
    by (cases "w_OvpnProcess w") (simp_all add: h1_def prefix_stop_process [OF prod.collapse [symmetric]])
  moreover obtain h2 e where "qext h1 h2" "qext (h2 @ [(NsDeleteNamed (ns_Name ns), e)]) (destroyed E ns h1)" by (rule destroyed_split)
  ultimately show ?thesis by (force simp: qext_def prefix_def)
qed

text \<open>The life of one worker up to its eviction, and the creation of the next one in its slot.\<close>

lemma race_create:
  assumes "free_index (y_m y) 0" and "\<not> m_rootDone (y_m y)" and "m_workers (y_m y) = []"
    and "m_servers (y_m y) = m_servers sample_manager" and "y_pending y = None"
  shows "\<exists>y' w ns. pool_reachable sample_env y y' \<and> m_workers (y_m y') = [(worker_name 0, length (m_store (y_m y)))] \<and>
    m_store (y_m y') = m_store (y_m y) @ [w] \<and> \<not> m_rootDone (y_m y') \<and> y_victims y' = y_victims y \<and>
    m_usedIndexes (y_m y') = insert 0 (m_usedIndexes (y_m y)) \<and> y_sm y' = y_sm y \<and> y_pending y' = None \<and>
    m_servers (y_m y') = m_servers sample_manager \<and> w_ID w = worker_name 0 \<and> w_Index w = 0 \<and>
    w_State w = WorkerReady \<and> \<not> w_stopOnce w \<and> w_Namespace w = Some ns \<and> ns_Name ns = worker_name 0"
proof -
  let ?r = "length (m_store (y_m y))"
  obtain y1 w ns where y1: "pool_reachable sample_env y y1" "m_workers (y_m y1) = []" "y_pending y1 = Some ?r"
      "m_store (y_m y1) = m_store (y_m y) @ [w]" "\<not> m_rootDone (y_m y1)" "y_victims y1 = y_victims y"
      "m_usedIndexes (y_m y1) = insert 0 (m_usedIndexes (y_m y))" "y_sm y1 = y_sm y" "m_servers (y_m y1) = m_servers sample_manager"
    and w: "w_ID w = worker_name 0" "w_Index w = 0" "w_State w = WorkerReady" "\<not> w_stopOnce w" "w_Namespace w = Some ns" "ns_Name ns = worker_name 0"
    using race_stage [OF assms] by blast
  let ?y2 = "y1\<lparr>y_m := insert_worker (y_m y1) ?r, y_staged := y_staged y1 - {?r}, y_pending := None\<rparr>"
  have "worker_at (y_m y1) ?r = w" by (simp add: worker_at_def y1(4))
  then have m2: "insert_worker (y_m y1) ?r = (y_m y1)\<lparr>m_workers := [(worker_name 0, ?r)]\<rparr>"
    using y1(2) w(1) by (simp add: insert_worker_def mput_def)
  have "pool_reachable sample_env y ?y2" by (rule pool_reachable.step [OF y1(1) pool_step.inserted [OF y1(3)]])
  then show ?thesis by (intro exI [of _ ?y2] exI [of _ w] exI [of _ ns]) (use y1 w m2 in simp)
qed

lemma pool_reachable_trans: "pool_reachable E y' y'' \<Longrightarrow> pool_reachable E y y' \<Longrightarrow> pool_reachable E y y''"
  by (induction rule: pool_reachable.induct) (auto intro: pool_reachable.step)

lemma race_evicted:
  "\<exists>y x ns. pool_reachable sample_env (pool_start sample_manager (NewManager minute) []) y \<and> free_index (y_m y) 0 \<and>
     \<not> m_rootDone (y_m y) \<and> m_workers (y_m y) = [] \<and> m_servers (y_m y) = m_servers sample_manager \<and>
     y_pending y = None \<and> y_victims y = {0} \<and> y_sm y = NewManager minute \<and> m_store (y_m y) = [x] \<and>
     w_ID x = worker_name 0 \<and> \<not> w_stopOnce x \<and> w_Namespace x = Some ns \<and> ns_Name ns = worker_name 0"
proof -
  let ?y0 = "pool_start sample_manager (NewManager minute) []"
  have 0: "free_index (y_m ?y0) 0" "\<not> m_rootDone (y_m ?y0)" "m_workers (y_m ?y0) = []" "m_servers (y_m ?y0) = m_servers sample_manager"
    "y_pending ?y0 = None"
    using sample_free by (simp_all add: pool_start_def sample_manager_eq)
  obtain y1 w1 ns1 where r1: "pool_reachable sample_env ?y0 y1" and p1: "m_workers (y_m y1) = [(worker_name 0, 0)]"
    and st1: "m_store (y_m y1) = [w1]" and root1: "\<not> m_rootDone (y_m y1)" and v1: "y_victims y1 = {}"
    and pe1: "y_pending y1 = None" and u1: "m_usedIndexes (y_m y1) = {0}" and sm1: "y_sm y1 = NewManager minute"
    and sv1: "m_servers (y_m y1) = m_servers sample_manager" and w1: "w_ID w1 = worker_name 0" "w_Index w1 = 0"
      "\<not> w_stopOnce w1" "w_Namespace w1 = Some ns1" "ns_Name ns1 = worker_name 0"
    using race_create [OF 0] by (simp add: pool_start_def sample_manager_eq) blast
  let ?x1 = "w1\<lparr>w_processExited := True\<rparr>"
  let ?m2 = "process_ended (y_m y1) 0"
  have m2: "m_workers ?m2 = [(worker_name 0, 0)]" "m_store ?m2 = [?x1]" "m_usedIndexes ?m2 = {0}" "\<not> m_rootDone ?m2"
    "m_servers ?m2 = m_servers sample_manager"
    using p1 st1 u1 root1 sv1 by (simp_all add: process_ended_def signalWakeup_def set_worker_def worker_at_def)
  define m3 where "m3 = evict ?m2 (worker_name 0) 0"
  have scan: "scan_workers (\<lambda>i. 0) (Some (y_sm y1)) ?m2 = (m3, [(worker_name 0, 0, ''exited'')], 0)"
    using m2 by (simp add: scan_workers_def worker_at_def ProcessExited_def m3_def)
  define y3 where "y3 = (y1\<lparr>y_m := ?m2\<rparr>)\<lparr>y_m := m3, y_victims := {0}\<rparr>"
  have "pool_step sample_env (y1\<lparr>y_m := ?m2\<rparr>) y3"
    using pool_step.scanned [of "y1\<lparr>y_m := ?m2\<rparr>" "\<lambda>i. 0" m3 "[(worker_name 0, 0, ''exited'')]" 0 sample_env] scan v1 pe1 by (simp add: y3_def)
  then have r3: "pool_reachable sample_env ?y0 y3"
    using pool_reachable.step [OF pool_reachable.step [OF r1 pool_step.process_exit]] by blast
  have m3: "m_workers m3 = []" "m_store m3 = [?x1]" "m_usedIndexes m3 = {}" "\<not> m_rootDone m3" "m_servers m3 = m_servers sample_manager"
    unfolding m3_def using m2 w1 by (simp_all add: worker_at_def) (simp_all add: evict_def releaseIndex_def mdel_def m2)
  have y3: "y_m y3 = m3" "y_victims y3 = {0}" "y_sm y3 = NewManager minute" "y_pending y3 = None" using sm1 pe1 by (simp_all add: y3_def)
  have 3: "free_index (y_m y3) 0" "\<not> m_rootDone (y_m y3)" "m_workers (y_m y3) = []" "m_servers (y_m y3) = m_servers sample_manager"
    "y_pending y3 = None"
    using m3 by (simp_all add: y3 free_index_def maxNamespaceIndex_def)
  show ?thesis by (rule exI [of _ y3], rule exI [of _ ?x1], rule exI [of _ ns1]) (use r3 3 y3 m3 w1 in simp)
qed

text \<open>
  C28: the index of an evicted worker is given away too early. There is a run of the gateway in which
  the health check evicts a worker whose process ended, a request creates a new worker with the
  same index, name and namespace and binds a session to it, and only then the old worker is
  stopped: that stop deletes the namespace of the new worker, which stays in the pool as ready, and
  drops its sessions.
\<close>

theorem index_reuse_race:
  "\<exists>y y' r ns t. pool_reachable sample_env (pool_start sample_manager (NewManager minute) []) y \<and>
     pool_step sample_env y y' \<and> mget (m_workers (y_m y')) (ns_Name ns) = Some r \<and>
     w_State (worker_at (y_m y') r) = WorkerReady \<and> \<not> w_stopOnce (worker_at (y_m y') r) \<and>
     w_Namespace (worker_at (y_m y') r) = Some ns \<and>
     y_h y' = y_h y @ t \<and> NsDeleteNamed (ns_Name ns) \<in> fst ` set t \<and>
     binding (y_sm y) 0 ''s1'' = Some (ns_Name ns) \<and> binding (y_sm y') 0 ''s1'' = None"
proof -
  let ?y0 = "pool_start sample_manager (NewManager minute) []"
  obtain y3 x1 ns1 where r3: "pool_reachable sample_env ?y0 y3" and 3: "free_index (y_m y3) 0" "\<not> m_rootDone (y_m y3)"
      "m_workers (y_m y3) = []" "m_servers (y_m y3) = m_servers sample_manager" "y_pending y3 = None"
    and y3: "y_victims y3 = {0}" "y_sm y3 = NewManager minute" "m_store (y_m y3) = [x1]"
    and x1: "w_ID x1 = worker_name 0" "\<not> w_stopOnce x1" "w_Namespace x1 = Some ns1" "ns_Name ns1 = worker_name 0"
    using race_evicted by blast
  obtain y4 w2 ns2 where r4: "pool_reachable sample_env y3 y4" and p4: "m_workers (y_m y4) = [(worker_name 0, Suc 0)]"
    and st4: "m_store (y_m y4) = [x1, w2]" and v4: "y_victims y4 = {0}" and sm4: "y_sm y4 = NewManager minute"
    and w2: "w_State w2 = WorkerReady" "\<not> w_stopOnce w2" "w_Namespace w2 = Some ns2" "ns_Name ns2 = worker_name 0"
    using race_create [OF 3] unfolding y3 by auto
  let ?y5 = "y4\<lparr>y_sm := snd (Bind 0 (y_sm y4) ''s1'' [] 0 (worker_name 0))\<rparr>"
  have r5: "pool_reachable sample_env ?y0 ?y5"
    by (rule pool_reachable.step [OF pool_reachable_trans [OF r4 r3] pool_step.bound])
  obtain e x2 h6 where stop: "Stop (e_os sample_env) x1 (y_h y4) = (e, x2, h6)" by (metis prod_cases3)
  obtain t where t: "h6 = y_h y4 @ t" "NsDeleteNamed (ns_Name ns2) \<in> fst ` set t"
    using Stop_deletes [of x1 ns1 "e_os sample_env" "y_h y4"] x1 w2(4) stop by auto
  let ?m6 = "set_worker (y_m y4) 0 x2"
  have "stop_worker sample_env 0 (y_m ?y5, y_h ?y5) = (?m6, h6)" using stop st4 by (simp add: worker_at_def)
  then have s6: "pool_step sample_env ?y5 (?y5\<lparr>y_m := ?m6, y_h := h6,
      y_sm := RemoveByWorker (y_sm ?y5) (w_ID (worker_at (y_m ?y5) 0)), y_victims := y_victims ?y5 - {0}\<rparr>)" (is "pool_step _ _ ?y6")
    using v4 by (intro pool_step.stopped_victim) simp_all
  have at: "worker_at ?m6 (Suc 0) = w2" and id: "w_ID (worker_at (y_m y4) 0) = worker_name 0" using st4 x1(1) by (simp_all add: worker_at_def set_worker_def)
  have b5: "binding (y_sm ?y5) 0 ''s1'' = Some (worker_name 0)"
    using Bind_binding [of "NewManager minute" 0 "''s1''"] session_ok_New [of minute] sm4
    by (simp add: binding_def NewManager_def minute_def second_def)
  have "session_ok (y_sm ?y5)" using session_ok_Bind session_ok_New [of minute] sm4 by (simp add: minute_def second_def)
  then have b6: "binding (y_sm ?y6) 0 ''s1'' = None"
    using RemoveByWorker_all(2) [of "y_sm ?y5" "[worker_name 0]" "''s1''"] b5 by (auto simp: binding_def id split: option.splits)
  show ?thesis
    by (rule exI [of _ ?y5], rule exI [of _ ?y6], rule exI [of _ "Suc 0"], rule exI [of _ ns2], rule exI [of _ t])
      (use r5 s6 at b5 b6 t w2 p4 in \<open>simp add: mget_def\<close>)
qed

end
