(* ===== verification/Gateway.thy ===== *)
theory Gateway
  imports Proxy Pool_System
begin

text \<open>
  \<open>cmd/gateway/main.go\<close> and the goroutines it starts. \<open>gateway_start\<close> is \<open>main\<close> up to the servers:
  configuration, IP forwarding, the scan of the server files, the manager and the router over one
  session table; a fatal error or the manager's panic is \<open>Inl\<close>.

  The four goroutines that run until their context is cancelled (\<open>StartHealthCheck\<close>,
  \<open>StartPoolWarmer\<close>, \<open>runPreconnectCoordinator\<close>, \<open>cleanupSessions\<close>) have one shape, \<open>background\<close>:
  wait in a \<open>select\<close> (\<open>WaitTick\<close>, which fails when the context's case is taken), then run a body.
  What the other goroutines do to the shared state during the wait is the parameter \<open>others\<close>. The
  loop need not end, so it is a partial function. Which of the other cases of the health check's
  \<open>select\<close> fired is the number that \<open>WaitTick\<close> returns: 1 for the wake-up channel.

  The locale \<open>background_task\<close> states what makes such a loop well behaved; each of the four bodies
  interprets it.
\<close>

section \<open>Definitions\<close>

subsection \<open>Start\<close>

definition enableIPForwarding :: "os \<Rightarrow> hist \<Rightarrow> hist" where
  "enableIPForwarding E h = issue E (OsWriteFile ''/proc/sys/net/ipv4/ip_forward'' ''1'') h"

definition count_servers :: "server_map \<Rightarrow> nat" where
  "count_servers servers = foldl (\<lambda>total (country, group). total + length group) 0 servers"

definition gateway_start ::
  "os \<Rightarrow> environ \<Rightarrow> (string \<Rightarrow> dir_entry list result) \<Rightarrow> hist \<Rightarrow> (config \<times> manager front) result \<times> hist" where
  "gateway_start E env readDir h =
     (let cfg = Load env; h = enableIPForwarding E h in
      case Scan readDir (OvpnDir cfg) of
        Inl e \<Rightarrow> (Inl e, h)
      | Inr servers \<Rightarrow>
          if count_servers servers = 0 then (Inl (Errorf ''no ovpn files in'' [OvpnDir cfg]), h)
          else
            let sessionManager = NewManager (DefaultSessionTTL cfg) in
            (case New servers (AuthFile cfg) (WorkerIdleTimeout cfg) (WorkerMaxLifetime cfg) (MinPoolSize cfg)
                    (WorkerVerbose cfg) (PreconnectConcurrency cfg) (WorkerLifetimeJitterPct cfg)
                    (WorkerRotationGrace cfg) of
               Inl e \<Rightarrow> (Inl e, h)
             | Inr workerManager \<Rightarrow> (Inr (cfg, NewRouter (workerManager, h) sessionManager), h)))"

subsection \<open>Loops in the background\<close>

partial_function (option) background ::
  "os \<Rightarrow> (hist \<Rightarrow> 's \<Rightarrow> 's) \<Rightarrow> (hist \<Rightarrow> 's \<Rightarrow> ('s \<times> hist) option) \<Rightarrow> 's \<Rightarrow> hist \<Rightarrow> ('s \<times> hist) option" where
  "background E others body s h =
     (case sys E WaitTick h of
        (Some e, h) \<Rightarrow> Some (others h s, h)
      | (None, h) \<Rightarrow>
          (case body h (others h s) of
             None \<Rightarrow> None
           | Some (s, h) \<Rightarrow> background E others body s h))"

fun health_body ::
  "env \<Rightarrow> (hist \<Rightarrow> string \<Rightarrow> time) \<Rightarrow> hist \<Rightarrow> manager \<times> sessionManager option \<Rightarrow>
   ((manager \<times> sessionManager option) \<times> hist) option" where
  "health_body E clock h (m, msm) =
     (let m = (if os_fd (e_os E) h WaitTick = 1 then m\<lparr>m_wakeup := False\<rparr> else m) in
      case checkWorkers E (clock h) m msm h of (m, msm, h) \<Rightarrow> Some ((m, msm), h))"

definition StartHealthCheck ::
  "env \<Rightarrow> (hist \<Rightarrow> string \<Rightarrow> time) \<Rightarrow> (hist \<Rightarrow> manager \<times> sessionManager option \<Rightarrow> manager \<times> sessionManager option) \<Rightarrow>
   manager \<times> sessionManager option \<Rightarrow> hist \<Rightarrow> ((manager \<times> sessionManager option) \<times> hist) option" where
  "StartHealthCheck E clock others s h = background (e_os E) others (health_body E clock) s h"

definition warmer_body :: "env \<Rightarrow> hist \<Rightarrow> manager \<Rightarrow> (manager \<times> hist) option" where
  "warmer_body E h m = warm_pool E (m\<lparr>m_grow := False\<rparr>) h"

definition StartPoolWarmer ::
  "env \<Rightarrow> (hist \<Rightarrow> manager \<Rightarrow> manager) \<Rightarrow> manager \<Rightarrow> hist \<Rightarrow> (manager \<times> hist) option" where
  "StartPoolWarmer E others m h =
     (if m_minPoolSize m \<le> 0 then Some (m, h)
      else background (e_os E) others (warmer_body E) (signalGrow m) h)"

text \<open>The coordinator also lists the workers for which it has started \<open>preconnectWorker\<close>.\<close>

fun coordinator_body ::
  "(hist \<Rightarrow> string \<Rightarrow> time) \<Rightarrow> hist \<Rightarrow> manager \<times> wref list \<Rightarrow> ((manager \<times> wref list) \<times> hist) option" where
  "coordinator_body clock h (m, started) =
     (let (ds, m) = dispatchPending (clock h) (m\<lparr>m_preconnectSignal := False\<rparr>) in Some ((m, started @ ds), h))"

definition StartPreconnectCoordinator ::
  "env \<Rightarrow> (hist \<Rightarrow> string \<Rightarrow> time) \<Rightarrow> (hist \<Rightarrow> manager \<times> wref list \<Rightarrow> manager \<times> wref list) \<Rightarrow> manager \<Rightarrow> hist \<Rightarrow>
   ((manager \<times> wref list) \<times> hist) option" where
  "StartPreconnectCoordinator E clock others m h =
     (if m_maxLifetime m \<le> 0 then Some ((m, []), h)
      else background (e_os E) others (coordinator_body clock) (m, []) h)"

definition cleanup_body :: "os \<Rightarrow> hist \<Rightarrow> sessionManager \<Rightarrow> (sessionManager \<times> hist) option" where
  "cleanup_body E h sm = Some (snd (Cleanup (os_fd E h TimeNow) sm), h)"

definition cleanupSessions ::
  "os \<Rightarrow> (hist \<Rightarrow> sessionManager \<Rightarrow> sessionManager) \<Rightarrow> sessionManager \<Rightarrow> hist \<Rightarrow> (sessionManager \<times> hist) option" where
  "cleanupSessions E others sm h = background E others (cleanup_body E) sm h"

subsection \<open>The servers' goroutines and the end\<close>

text \<open>Whether the goroutine that runs a server cancels the context when the server returns.\<close>

definition server_exit :: "err option \<times> hist \<Rightarrow> bool \<times> hist" where
  "server_exit x = (case x of (Some e, h) \<Rightarrow> (True, h) | (None, h) \<Rightarrow> (False, h))"

definition waitForShutdown :: "os \<Rightarrow> hist \<Rightarrow> hist" where
  "waitForShutdown E h = issue E WaitSignal h"

definition gateway_end :: "env \<Rightarrow> manager \<Rightarrow> hist \<Rightarrow> manager \<times> hist" where
  "gateway_end E m h = Shutdown E m (waitForShutdown (e_os E) h)"

subsection \<open>When the context ends\<close>

definition ticks :: "hist \<Rightarrow> nat" where
  "ticks h = length (filter (\<lambda>p. p = (WaitTick, None)) h)"

text \<open>The context is cancelled no later than after the \<open>n\<close>th wait.\<close>

definition ends_after :: "os \<Rightarrow> nat \<Rightarrow> bool" where
  "ends_after E n \<longleftrightarrow> (\<forall>h. n \<le> ticks h \<longrightarrow> os_err E h WaitTick \<noteq> None)"

definition sessions_ok :: "sessionManager option \<Rightarrow> bool" where
  "sessions_ok msm \<longleftrightarrow> (case msm of None \<Rightarrow> True | Some sm \<Rightarrow> session_ok sm)"

text \<open>For evaluation: an environment whose context is cancelled after two waits.\<close>

definition brief_os :: os where
  "brief_os = (calm_os 1)\<lparr>os_err := (\<lambda>h c. if c = WaitTick \<and> 2 \<le> ticks h then Some ContextCanceled else None)\<rparr>"

section \<open>Loops that end\<close>

lemma ticks_append [simp]: "ticks (h @ t) = ticks h + ticks t"
  by (simp add: ticks_def)

lemma ticks_prefix: "prefix h h' \<Longrightarrow> ticks h \<le> ticks h'"
  by (auto simp: prefix_def)

text \<open>
  What a background task promises: from a good state its body returns, in a good state, and only
  adds to the history.
\<close>

locale background_task =
  fixes body :: "hist \<Rightarrow> 's \<Rightarrow> ('s \<times> hist) option" and inv :: "'s \<Rightarrow> bool"
  assumes body_returns: "inv s \<Longrightarrow> \<exists>s' h'. body h s = Some (s', h') \<and> inv s' \<and> prefix h h'"
begin

lemma loop_returns:
  assumes "ends_after E n" and "\<And>h s. inv s \<Longrightarrow> inv (others h s)" and "inv s"
  shows "\<exists>s' h'. background E others body s h = Some (s', h') \<and> inv s' \<and> prefix h h' \<and>
    (\<exists>h0. prefix h0 h' \<and> os_err E h0 WaitTick \<noteq> None)"
  using assms(3)
proof (induction "n - ticks h" arbitrary: s h rule: less_induct)
  case less
  let ?h1 = "h @ [(WaitTick, os_err E h WaitTick)]"
  show ?case
  proof (cases "os_err E h WaitTick")
    case (Some e)
    then have "background E others body s h = Some (others ?h1 s, ?h1)"
      by (subst background.simps) (simp add: sys_def)
    with assms(2) [OF less.prems] Some show ?thesis by (intro exI [of _ ?h1] exI [of _ "others ?h1 s"]) (auto intro: exI [of _ h])
  next
    case None
    obtain s' h' where b: "body ?h1 (others ?h1 s) = Some (s', h')" "inv s'" "prefix ?h1 h'"
      using body_returns [OF assms(2) [OF less.prems], of ?h1 ?h1] by blast
    have "ticks ?h1 = Suc (ticks h)" using None by (simp add: ticks_def)
    moreover have "ticks h < n" using assms(1) None by (auto simp: ends_after_def not_le [symmetric])
    ultimately have "n - ticks h' < n - ticks h" using ticks_prefix [OF b(3)] by simp
    from less.hyps [OF this b(2)] obtain s2 h2 where r: "background E others body s' h' = Some (s2, h2)" "inv s2"
      "prefix h' h2" "\<exists>h0. prefix h0 h2 \<and> os_err E h0 WaitTick \<noteq> None" by blast
    have "background E others body s h = background E others body s' h'"
      using None b(1) by (subst background.simps) (simp add: sys_def)
    moreover have "prefix h h2" using b(3) r(3) by (auto simp: prefix_def)
    ultimately show ?thesis using r by auto
  qed
qed

end

section \<open>The four tasks\<close>

lemma pool_ok_flags [simp]:
  "pool_ok (m\<lparr>m_wakeup := b\<rparr>) = pool_ok m" "pool_ok (m\<lparr>m_grow := b\<rparr>) = pool_ok m"
  "pool_ok (m\<lparr>m_preconnectSignal := b\<rparr>) = pool_ok m"
  by (simp_all add: pool_ok_def published_ok_def worker_at_def)

lemma dispatch_pool_ok: "pool_ok m \<Longrightarrow> dispatchPending clock m = (ds, m') \<Longrightarrow> pool_ok m'"
  using pool_ok_same [OF same_slots_dispatch] by blast

lemma prefix_warm_pool:
  assumes "warm_pool E m h = Some r"
  shows "prefix h (snd r)"
proof (rule warm_pool.raw_induct [where P = "\<lambda>E m h r. prefix h (snd r)", OF _ assms])
  fix warm E m h r
  assume ih: "\<And>E m h r. warm E m h = Some r \<Longrightarrow> prefix h (snd r)"
    and run: "(case sys (e_os E) CtxErr h of
        (None, h) \<Rightarrow> if m_minPoolSize m \<le> countReady m then Some (m, h)
          else (case createForCountry E m [] h of (Inl e, m, h) \<Rightarrow> Some (m, h) | (Inr info, m, h) \<Rightarrow> warm E m h)
      | (Some e, h) \<Rightarrow> Some (m, h)) = Some r"
  let ?h1 = "h @ [(CtxErr, os_err (e_os E) h CtxErr)]"
  obtain x m2 h2 where c: "createForCountry E m [] ?h1 = (x, m2, h2)" by (metis prod_cases3)
  have "prefix h h2" using prefix_createForCountry [OF c] by (auto simp: prefix_def)
  then have "prefix h (snd r)" if "warm E m2 h2 = Some r" using ih [OF that] by (rule prefix_order.trans)
  then show "prefix h (snd r)"
    using run c \<open>prefix h h2\<close> by (auto simp: sys_def split: option.splits sum.splits if_splits)
qed

interpretation health: background_task "health_body E clock" "\<lambda>(m, msm). pool_ok m \<and> sessions_ok msm" for E clock
proof (unfold_locales, clarify)
  fix m :: manager and msm h
  assume ok: "pool_ok m" and sm: "sessions_ok msm"
  let ?m = "if os_fd (e_os E) h WaitTick = 1 then m\<lparr>m_wakeup := False\<rparr> else m"
  obtain m' msm' h' where c: "checkWorkers E (clock h) ?m msm h = (m', msm', h')" by (metis prod_cases3)
  have "pool_ok ?m" using ok by simp
  note cp = check_pool [OF this c refl]
  have "sessions_ok msm'" using cp(7) sm RemoveByWorker_all(1) by (auto simp: sessions_ok_def split: option.splits)
  moreover have "prefix h h'"
    using c by (auto simp: checkWorkers_def Let_def dest: prefix_stop_victims split: prod.splits)
  ultimately show "\<exists>s' h'. health_body E clock h (m, msm) = Some (s', h') \<and>
      (case s' of (m, msm) \<Rightarrow> pool_ok m \<and> sessions_ok msm) \<and> prefix h h'"
    using c cp(1) by (intro exI [of _ "(m', msm')"] exI [of _ h']) (simp add: Let_def)
qed

interpretation warmer: background_task "warmer_body E" pool_ok for E
proof (unfold_locales)
  fix m :: manager and h
  assume "pool_ok m"
  then have "pool_ok (m\<lparr>m_grow := False\<rparr>)" by simp
  from warm_pool_total [OF this, of E h] obtain m' h' where w: "warm_pool E (m\<lparr>m_grow := False\<rparr>) h = Some (m', h')" "pool_ok m'"
    by blast
  moreover have "prefix h h'" using prefix_warm_pool [OF w(1)] by simp
  ultimately show "\<exists>s' h'. warmer_body E h m = Some (s', h') \<and> pool_ok s' \<and> prefix h h'" by (auto simp: warmer_body_def)
qed

interpretation coordinator: background_task "coordinator_body clock" "\<lambda>(m, started). pool_ok m" for clock
proof (unfold_locales, clarify)
  fix m :: manager and started h
  assume "pool_ok m"
  then have ok: "pool_ok (m\<lparr>m_preconnectSignal := False\<rparr>)" by simp
  obtain ds m' where d: "dispatchPending (clock h) (m\<lparr>m_preconnectSignal := False\<rparr>) = (ds, m')" by (metis surj_pair)
  then have "coordinator_body clock h (m, started) = Some ((m', started @ ds), h)" by simp
  with dispatch_pool_ok [OF ok d] show "\<exists>s' h'. coordinator_body clock h (m, started) = Some (s', h') \<and>
      (case s' of (m, started) \<Rightarrow> pool_ok m) \<and> prefix h h'" by fastforce
qed

interpretation cleaner: background_task "cleanup_body E" session_ok for E
proof (unfold_locales)
  fix sm :: sessionManager and h
  assume "session_ok sm"
  then have "session_ok (snd (Cleanup (os_fd E h TimeNow) sm))" by (simp add: Cleanup_eq session_ok_filter session_ok_def)
  then show "\<exists>s' h'. cleanup_body E h sm = Some (s', h') \<and> session_ok s' \<and> prefix h h'" by (simp add: cleanup_body_def)
qed

section \<open>Properties\<close>

lemma count_servers_eq: "count_servers servers = length (all_servers servers)"
proof -
  have "foldl (\<lambda>total (country, group). total + length group) n servers = n + length (all_servers servers)" for n
    by (induction servers arbitrary: n) (auto simp: all_servers_def)
  then show ?thesis by (simp add: count_servers_def)
qed

lemma Scan_found:
  assumes "Scan readDir dir = Inr servers" and "readDir dir = Inr entries"
  shows "groups_ok servers" and "mset (all_servers servers) = mset (List.map_filter (entry_server dir) entries)"
  using assms scan_entries [OF groups_ok_empty, of dir entries]
  by (auto simp: Scan_def groups_ok_sorted all_servers_sorted all_servers_empty)

lemma all_servers_clone: "mset (all_servers (cloneServers servers)) = mset (all_servers servers)"
  unfolding cloneServers_def by (rule all_servers_sorted)

text \<open>
  C27: the gateway starts exactly when it can serve. It refuses to start if and only if the
  directory cannot be read, holds no server file, or the minimum pool size does not leave room for a
  rotation; otherwise the router is over an empty, well-formed pool that knows exactly the servers
  of the directory, and over a session table that is well formed unless the configured default
  lifetime of a session is negative.
\<close>

theorem gateway_start_spec:
  assumes "cfg = Load env"
    and "found = (\<lambda>entries. List.map_filter (entry_server (OvpnDir cfg)) entries)"
  shows "case fst (gateway_start E env readDir h) of
      Inl e \<Rightarrow> (\<forall>entries. readDir (OvpnDir cfg) = Inr entries \<longrightarrow> found entries = [] \<or> 125 < MinPoolSize cfg)
    | Inr (cfg', r) \<Rightarrow> cfg' = cfg \<and> MinPoolSize cfg \<le> 125 \<and>
        (\<exists>entries. readDir (OvpnDir cfg) = Inr entries \<and> found entries \<noteq> [] \<and>
           mset (all_servers (m_servers (manager_of r))) = mset (found entries)) \<and>
        pool_live (manager_of r) \<and> m_workers (manager_of r) = [] \<and> m_usedIndexes (manager_of r) = {} \<and>
        (session_ok (r_session r) \<longleftrightarrow> 0 \<le> DefaultSessionTTL cfg)"
proof (cases "readDir (OvpnDir cfg)")
  case (Inl e)
  then show ?thesis unfolding assms by (simp add: gateway_start_def Scan_def Let_def)
next
  case (Inr entries)
  then obtain servers where scan: "Scan readDir (OvpnDir cfg) = Inr servers" by (simp add: Scan_def)
  note facts = Scan_found [OF scan Inr]
  have count: "count_servers servers = 0 \<longleftrightarrow> found entries = []"
    unfolding count_servers_eq assms(2) by (metis facts(2) length_0_conv mset_zero_iff)
  show ?thesis
    using scan Inr facts count all_servers_clone [of servers] cloneServers_groups [OF facts(1)] assms
    by (auto simp: gateway_start_def Let_def New_def maxWorkerSlots_def maxNamespaceIndex_def reservedForOnDemand_def
        NewRouter_def manager_of_def pool_live_def pool_ok_def session_ok_def NewManager_def)
qed

theorem gateway_start_spec_witness:
  "\<exists>r. fst (gateway_start (calm_os 1) (\<lambda>_. []) (\<lambda>_. Inr sample_dir) []) = Inr (Load (\<lambda>_. []), r) \<and>
     pool_live (manager_of r) \<and> session_ok (r_session r)"
proof -
  let ?g = "fst (gateway_start (calm_os 1) (\<lambda>_. []) (\<lambda>_. Inr sample_dir) [])"
  have cfg: "MinPoolSize (Load (\<lambda>_. [])) = 10" "0 \<le> DefaultSessionTTL (Load (\<lambda>_. []))"
    by (simp_all add: Load_def Let_def dur_mul_def minute_def second_def in_int64_def)
  have "List.map_filter (entry_server dir) sample_dir \<noteq> []" for dir
  proof -
    have "parseFilename ''us-nyc.prod.ovpn'' = (''us'', ''us-nyc'')" by code_simp
    then show ?thesis by (simp add: sample_dir_def entry_server_def map_filter_simps)
  qed
  with gateway_start_spec [OF refl refl, where E = "calm_os 1" and env = "\<lambda>_. []" and readDir = "\<lambda>_. Inr sample_dir" and h = "[]"] cfg
  show ?thesis by (cases ?g) auto
qed

text \<open>
  C24: the goroutines in the background end when their context does, and leave the state well
  formed. If the context is cancelled eventually and the other goroutines keep the invariants, the
  health check, the pool warmer, the preconnect coordinator and the clean-up of sessions each
  return, with a well-formed pool and session table, however often they ran before.
\<close>

theorem background_loops_end:
  assumes "ends_after (e_os E) n" and "\<forall>h m. pool_ok m \<longrightarrow> pool_ok (others h m)"
    and "\<forall>h sm. session_ok sm \<longrightarrow> session_ok (others' h sm)" and "pool_ok m" and "session_ok sm"
  shows "(\<exists>m' msm' h'. StartHealthCheck E clock (\<lambda>h. map_prod (others h) (map_option (others' h))) (m, Some sm) h =
        Some ((m', msm'), h') \<and> pool_ok m' \<and> sessions_ok msm') \<and>
    (\<exists>m' h'. StartPoolWarmer E others m h = Some (m', h') \<and> pool_ok m') \<and>
    (\<exists>m' ds h'. StartPreconnectCoordinator E clock (\<lambda>h. map_prod (others h) id) m h = Some ((m', ds), h') \<and> pool_ok m') \<and>
    (\<exists>sm' h'. cleanupSessions (e_os E) others' sm h = Some (sm', h') \<and> session_ok sm')"
proof -
  let ?both = "\<lambda>h. map_prod (others h) (map_option (others' h))"
  have keep: "case ?both h s of (m, msm) \<Rightarrow> pool_ok m \<and> sessions_ok msm" if "case s of (m, msm) \<Rightarrow> pool_ok m \<and> sessions_ok msm" for h s
    using that assms(2,3) by (cases s) (simp add: sessions_ok_def split: option.splits)
  have "\<exists>s' h'. StartHealthCheck E clock ?both (m, Some sm) h = Some (s', h') \<and>
      (case s' of (m, msm) \<Rightarrow> pool_ok m \<and> sessions_ok msm)"
    using health.loop_returns [OF assms(1), of ?both "(m, Some sm)" E clock h, OF keep] assms(4,5)
    unfolding StartHealthCheck_def by (auto simp: sessions_ok_def)
  moreover have "\<exists>m' h'. StartPoolWarmer E others m h = Some (m', h') \<and> pool_ok m'"
    using warmer.loop_returns [OF assms(1), of others "signalGrow m" E h] assms(2,4)
    unfolding StartPoolWarmer_def by auto
  moreover have "\<exists>s' h'. StartPreconnectCoordinator E clock (\<lambda>h. map_prod (others h) id) m h = Some (s', h') \<and>
      (case s' of (m, ds) \<Rightarrow> pool_ok m)"
    using coordinator.loop_returns [OF assms(1), of "\<lambda>h. map_prod (others h) id" "(m, [])" clock h] assms(2,4)
    unfolding StartPreconnectCoordinator_def by (cases "m_maxLifetime m \<le> 0") auto
  moreover have "\<exists>sm' h'. cleanupSessions (e_os E) others' sm h = Some (sm', h') \<and> session_ok sm'"
    using cleaner.loop_returns [OF assms(1), of others' sm "e_os E" h] assms(3,5) unfolding cleanupSessions_def by blast
  ultimately show ?thesis by fast
qed

theorem background_loops_end_witness:
  "\<exists>m' h'. StartPoolWarmer (sample_env\<lparr>e_os := brief_os\<rparr>) (\<lambda>h m. m) sample_manager [] = Some (m', h') \<and> pool_ok m'"
proof -
  have "ends_after (e_os (sample_env\<lparr>e_os := brief_os\<rparr>)) 2" by (simp add: ends_after_def brief_os_def)
  from background_loops_end [OF this, where others = "\<lambda>h m. m" and others' = "\<lambda>h sm. sm" and m = sample_manager
      and sm = "NewManager minute" and clock = "\<lambda>h i. 100" and h = "[]"] sample_manager_ok session_ok_New [of minute]
  show ?thesis by (simp add: minute_def second_def)
qed

end
