(* ===== verification/Stub.thy ===== *)
theory Stub
  imports Proxy
begin

text \<open>
  The placeholders for systems other than Linux: \<open>internal/worker/manager_stub.go\<close>,
  \<open>internal/netns/netns_stub.go\<close> and \<open>internal/proxy/dialer_stub.go\<close>. The manager has no state; its
  operations do nothing or return an error. It is a pool in the sense of the router's contract and
  a resolver in the sense of the entrances', so what those promise holds on it too: every
  authorised request fails with an error.
\<close>

section \<open>Definitions\<close>

subsection \<open>The manager\<close>

type_synonym stub_manager = unit

definition stub_New ::
  "server_map \<Rightarrow> string \<Rightarrow> duration \<Rightarrow> duration \<Rightarrow> int \<Rightarrow> bool \<Rightarrow> int \<Rightarrow> int \<Rightarrow> duration \<Rightarrow> stub_manager" where
  "stub_New srvs authFile idleTimeout maxLifetime minPoolSize verbose preconnectConcurrency jitterPct rotationGrace = ()"

definition stub_GetReadyWorkers :: "stub_manager \<Rightarrow> string \<Rightarrow> worker_info list" where
  "stub_GetReadyWorkers m country = []"

definition stub_GetRoutableWorkers :: "stub_manager \<Rightarrow> string \<Rightarrow> worker_info list" where
  "stub_GetRoutableWorkers m country = []"

definition stub_RequestWorker :: "stub_manager \<Rightarrow> string \<Rightarrow> worker_info result" where
  "stub_RequestWorker m country = Inl (Errorf ''worker manager requires linux'' [])"

definition stub_GetWorkerNsHandle :: "stub_manager \<Rightarrow> string \<Rightarrow> int result" where
  "stub_GetWorkerNsHandle m workerID = Inl (Errorf ''worker manager requires linux'' [])"

definition stub_TrackConn :: "time \<Rightarrow> stub_manager \<Rightarrow> string \<Rightarrow> stub_manager" where
  "stub_TrackConn now m workerID = m"

definition stub_UntrackConn :: "time \<Rightarrow> stub_manager \<Rightarrow> string \<Rightarrow> stub_manager" where
  "stub_UntrackConn now m workerID = m"

definition stub_Shutdown :: "stub_manager \<Rightarrow> stub_manager" where
  "stub_Shutdown m = m"

definition stub_pool :: "(stub_manager \<times> hist) worker_pool" where
  "stub_pool =
     \<lparr>pool_GetReadyWorkers = (\<lambda>(m, h). stub_GetReadyWorkers m),
      pool_GetRoutableWorkers = (\<lambda>(m, h). stub_GetRoutableWorkers m),
      pool_RequestWorker = (\<lambda>(m, h) country. (stub_RequestWorker m country, m, h))\<rparr>"

definition stub_resolver :: "stub_manager ns_resolver" where
  "stub_resolver =
     \<lparr>res_GetWorkerNsHandle = stub_GetWorkerNsHandle, res_TrackConn = stub_TrackConn, res_UntrackConn = stub_UntrackConn\<rparr>"

subsection \<open>Namespaces and the dialer\<close>

definition stub_Create :: "string \<Rightarrow> int \<Rightarrow> namespace result" where
  "stub_Create name index = Inl (Errorf ''network namespaces require linux'' [])"

definition stub_Destroy :: "namespace \<Rightarrow> err option" where
  "stub_Destroy ns = None"

definition stub_DialInNs :: "int \<Rightarrow> string \<Rightarrow> string \<Rightarrow> int option \<times> err option" where
  "stub_DialInNs nsHandle network address = (None, Some (Errorf ''namespace dialer requires linux'' []))"

section \<open>The contracts\<close>

lemma stub_pool_simps [simp]:
  "pool_GetReadyWorkers stub_pool p c = []" "pool_GetRoutableWorkers stub_pool p c = []"
  "pool_RequestWorker stub_pool p c = (Inl (Errorf ''worker manager requires linux'' []), p)"
  by (simp_all add: stub_pool_def stub_GetReadyWorkers_def stub_GetRoutableWorkers_def stub_RequestWorker_def split: prod.split)

interpretation stub: worker_pool_contract stub_pool "\<lambda>p. True"
  by unfold_locales simp_all

interpretation stub_tracker: conn_tracker stub_resolver "\<lambda>m. True" "\<lambda>m i. None"
  by unfold_locales (simp_all add: stub_resolver_def stub_GetWorkerNsHandle_def fun_eq_iff)

section \<open>Properties\<close>

text \<open>
  On other systems the gateway refuses service without touching anything. Every HTTP request is
  answered by a demand for credentials or by a routing error, no system call is made, and no
  session is ever bound to a worker.
\<close>

theorem stub_requests_fail:
  assumes "session_ok (r_session r)" and "ServeHTTP cfg stub_resolver stub_pool E ts rq r = (rep, r')"
  shows "(rep = ProxyAuthRequired \<or> (\<exists>e. rep = BadGateway e)) \<and> r_pool r' = r_pool r \<and>
    (ts 0 \<le> t \<and> binding (r_session r) t sid = None \<longrightarrow> binding (r_session r') t sid = None)"
proof (cases "authorised cfg rq")
  case False
  then show ?thesis using assms(2) by (auto simp: authorised_def ServeHTTP_def Valid_def Let_def split: option.splits)
next
  case True
  then obtain user password where up: "parseProxyAuth rq = Some (user, password)" "Valid cfg user password"
    by (auto simp: authorised_def split: option.splits)
  let ?ps = "Parse user password"
  obtain x r1 where x: "Route stub_pool (ts 0) (ts 1) ?ps r = (x, r1)" by (metis surj_pair)
  obtain e where e: "x = Inl e"
    using stub.route_sound(1) [of r "ts 0" "ts 1" ?ps _ r1] assms(1) x by (cases x) auto
  have "dialTarget stub_resolver stub_pool E ts ?ps address r = (Inl (Wrapf ''route http request'' [] e), r1)" for address
    using x e by (simp add: dialTarget_def dial_routed_def)
  then have "rep = BadGateway (Wrapf ''route http request'' [] e)" "r' = r1"
    using assms(2) up by (auto simp: ServeHTTP_def handleConnect_def handleHTTP_def Valid_def Let_def split: if_splits)
  moreover have "r_pool r1 = r_pool r" using Route_pool [OF x] by auto
  moreover have "binding (r_session r1) t sid = None" if "ts 0 \<le> t" "binding (r_session r) t sid = None"
  proof (cases "IsSticky ?ps \<and> sid = p_SessionID ?ps")
    case True
    then show ?thesis using stub.route_error(3) [of r "ts 0" "ts 1" ?ps e r1 t] assms(1) x e that(1) by simp
  next
    case False
    then show ?thesis using stub.route_any(4) [of r "ts 0" "ts 1" ?ps x r1 t sid] assms(1) x that by auto
  qed
  ultimately show ?thesis by simp
qed

theorem stub_requests_fail_witness:
  "\<exists>rep r'. ServeHTTP sample_config stub_resolver stub_pool (calm_os 1) (\<lambda>n. 100) (sample_request ''alice__sessid.s1'')
      (NewRouter ((), []) (NewManager minute)) = (rep, r') \<and>
     (rep = ProxyAuthRequired \<or> (\<exists>e. rep = BadGateway e)) \<and> r_pool r' = ((), []) \<and> binding (r_session r') 100 ''s1'' = None"
proof -
  let ?r = "NewRouter ((), []) (NewManager minute)"
  obtain rep r' where s: "ServeHTTP sample_config stub_resolver stub_pool (calm_os 1) (\<lambda>n. 100)
      (sample_request ''alice__sessid.s1'') ?r = (rep, r')" by (metis surj_pair)
  have "session_ok (r_session ?r)" by (simp add: NewRouter_def session_ok_New minute_def second_def)
  moreover have "binding (r_session ?r) 100 ''s1'' = None" by (simp add: NewRouter_def NewManager_def binding_def)
  ultimately show ?thesis using stub_requests_fail [OF _ s, of 100 "''s1''"] s by (auto simp: NewRouter_def)
qed

end
