(* ===== verification/Pool_Runs.thy ===== *)
theory Pool_Runs
  imports Pool_System
begin

text \<open>
  The operations of the manager are runs of the pool system. \<open>Manager\<close>, \<open>Health\<close> and \<open>Preconnect\<close>
  model each operation as one function, as the goroutine that runs it sees it when nothing else
  happens; \<open>Pool_System\<close> has one rule per section under the lock. Here each function is shown to be
  a run of the system from a state in which no goroutine carries anything to another such state,
  so that the sequential model and the concurrent one speak about the same program.
\<close>

section \<open>Definitions\<close>

text \<open>A state in which one goroutine carries built workers that are not in the pool.\<close>

definition staging :: "manager \<Rightarrow> sessionManager \<Rightarrow> hist \<Rightarrow> wref set \<Rightarrow> pool_system" where
  "staging m sm h R = (pool_start m sm h)\<lparr>y_staged := R\<rparr>"

section \<open>Lemmas\<close>

lemma reach_then: "pool_reachable E y y' \<Longrightarrow> pool_reachable E y' y'' \<Longrightarrow> pool_reachable E y y''"
  by (rule pool_reachable_trans)

lemma reach_one: "pool_step E y y' \<Longrightarrow> pool_reachable E y y'"
  by (rule pool_reachable.step [OF pool_reachable.start])

lemma pool_start_upd [simp]:
  "(pool_start m sm h)\<lparr>y_m := m'\<rparr> = pool_start m' sm h" "(pool_start m sm h)\<lparr>y_h := h'\<rparr> = pool_start m sm h'"
  "(pool_start m sm h)\<lparr>y_sm := sm'\<rparr> = pool_start m sm' h" "(pool_start m sm h)\<lparr>y_building := {}\<rparr> = pool_start m sm h"
  "(pool_start m sm h)\<lparr>y_staged := {}\<rparr> = pool_start m sm h" "(pool_start m sm h)\<lparr>y_retired := {}\<rparr> = pool_start m sm h"
  "(pool_start m sm h)\<lparr>y_victims := {}\<rparr> = pool_start m sm h" "(pool_start m sm h)\<lparr>y_ending := {}\<rparr> = pool_start m sm h"
  "(pool_start m sm h)\<lparr>y_pending := None\<rparr> = pool_start m sm h"
  by (simp_all add: pool_start_def)

lemma pool_start_sel [simp]:
  "y_m (pool_start m sm h) = m" "y_h (pool_start m sm h) = h" "y_sm (pool_start m sm h) = sm"
  "y_building (pool_start m sm h) = {}" "y_staged (pool_start m sm h) = {}" "y_retired (pool_start m sm h) = {}"
  "y_victims (pool_start m sm h) = {}" "y_ending (pool_start m sm h) = {}"
  "y_pending (pool_start m sm h) = None"
  by (simp_all add: pool_start_def)

lemma reach_asked:
  assumes "sys (e_os E) c h = (x, h')" and "c \<in> {CtxErr, WaitTick} \<union> range WaitFor"
  shows "pool_reachable E (pool_start m sm h) (pool_start m sm h')"
  using reach_one [OF pool_step.asked [OF assms(2), of E "pool_start m sm h"]] assms(1) by (simp add: issue_def)

lemma reach_signal:
  assumes "pool_reachable E y (pool_start m sm h)"
  shows "pool_reachable E y (pool_start (signalWakeup m) sm h)" and "pool_reachable E y (pool_start (signalGrow m) sm h)"
    and "pool_reachable E y (pool_start (signalPreconnect m) sm h)"
  using pool_reachable.step [OF assms pool_step.signalled, of signalWakeup]
    pool_reachable.step [OF assms pool_step.signalled, of signalGrow]
    pool_reachable.step [OF assms pool_step.signalled, of signalPreconnect] by simp_all

subsection \<open>Creation\<close>

text \<open>A publication: its check of the context, then the insertion.\<close>

lemma reach_insert:
  assumes "pool_step E (staging m sm h {r}) ((staging m sm h {r})\<lparr>y_pending := Some r\<rparr>)"
  shows "pool_reachable E (staging m sm h {r}) (pool_start (insert_worker m r) sm h)"
proof -
  let ?y1 = "(staging m sm h {r})\<lparr>y_pending := Some r\<rparr>"
  have "?y1\<lparr>y_m := insert_worker (y_m ?y1) r, y_staged := y_staged ?y1 - {r}, y_pending := None\<rparr> = pool_start (insert_worker m r) sm h"
    by (simp add: staging_def pool_start_def)
  then show ?thesis using pool_reachable.step [OF reach_one [OF assms] pool_step.inserted [of ?y1 r E]] by simp
qed

text \<open>One attempt: the index is taken, the worker is built, and on failure the index is given back.\<close>

lemma reach_attempt:
  assumes "acquireIndex m = (i, m1)" and "0 \<le> i" and "srv \<in> set (all_servers (m_servers m))"
    and "createWorker E m1 srv i h = (x, m2, h')"
  shows "case x of Inl e \<Rightarrow> pool_reachable E (pool_start m sm h) (pool_start (releaseIndex m2 i) sm h')
    | Inr r \<Rightarrow> pool_reachable E (pool_start m sm h) (staging m2 sm h' {r})"
proof -
  have m1: "m1 = m\<lparr>m_usedIndexes := insert i (m_usedIndexes m)\<rparr>"
    using assms(1,2) by (cases rule: acquireIndex_cases [of m]; auto)
  have b: "build_worker E m1 srv i h = build_worker E m srv i h" by (rule build_worker_cong) (simp_all add: m1)
  let ?y1 = "(pool_start m sm h)\<lparr>y_m := m1, y_building := {i}\<rparr>"
  have s1: "pool_reachable E (pool_start m sm h) ?y1"
    using reach_one [OF pool_step.acquired [of "pool_start m sm h"]] assms(1,2) by simp
  have srv: "srv \<in> set (all_servers (m_servers (y_m ?y1)))" using assms(3) by (simp add: m1)
  show ?thesis
  proof (cases "build_worker E m srv i h")
    case (Pair w k)
    show ?thesis
    proof (cases w)
      case (Inl e)
      then have x: "x = Inl e" "m2 = m1" "h' = k" using assms(4) Pair by (simp_all add: m1 createWorker_eq)
      have "pool_step E ?y1 (?y1\<lparr>y_m := releaseIndex m1 i, y_h := k, y_building := {}\<rparr>)"
        using pool_step.failed [OF _ _ srv, of i E e k] Pair Inl b by simp
      moreover have "?y1\<lparr>y_m := releaseIndex m1 i, y_h := k, y_building := {}\<rparr> = pool_start (releaseIndex m1 i) sm k"
        by (simp add: pool_start_def)
      ultimately show ?thesis using pool_reachable.step [OF s1] by (simp add: x)
    next
      case (Inr v)
      then have x: "x = Inr (length (m_store m))" "m2 = m1\<lparr>m_store := m_store m @ [v]\<rparr>" "h' = k"
        using assms(4) Pair by (auto simp add: m1 createWorker_eq)
      have "pool_step E ?y1 (?y1\<lparr>y_m := m2, y_h := k, y_building := {}, y_staged := {length (m_store m)}\<rparr>)"
        using pool_step.built [OF _ srv, of i E v k "length (m_store m)" m2] Pair Inr b by (simp add: alloc_worker_def x m1)
      moreover have "?y1\<lparr>y_m := m2, y_h := k, y_building := {}, y_staged := {length (m_store m)}\<rparr> = staging m2 sm k {length (m_store m)}"
        by (simp add: pool_start_def staging_def)
      ultimately show ?thesis using pool_reachable.step [OF s1] by (simp add: x)
    qed
  qed
qed

lemma createWorker_keeps:
  assumes "createWorker E m srv i h = (x, m', h')"
  shows "m_servers m' = m_servers m"
  using assms by (auto simp: createWorker_def alloc_worker_def Let_def split: prod.splits sum.splits)

lemma reach_try:
  assumes "try_loop E candidates c n a lastErr m h = (x, m', h')" and "candidates \<noteq> []"
    and "set candidates \<subseteq> set (all_servers (m_servers m))"
  shows "case x of Inl e \<Rightarrow> pool_reachable E (pool_start m sm h) (pool_start m' sm h')
    | Inr r \<Rightarrow> pool_reachable E (pool_start m sm h) (staging m' sm h' {r})"
  using assms(1,3)
proof (induction n arbitrary: a lastErr m h)
  case 0
  then show ?case by (auto intro: pool_reachable.start)
next
  case (Suc n)
  obtain e h1 where ctx: "sys (e_os E) CtxErr h = (e, h1)" by (metis surj_pair)
  have s1: "pool_reachable E (pool_start m sm h) (pool_start m sm h1)" by (rule reach_asked [OF ctx]) simp
  obtain i m1 where acq: "acquireIndex m = (i, m1)" by (metis surj_pair)
  let ?srv = "candidates ! nat ((i + a) mod int (length candidates))"
  have "nat ((i + a) mod int (length candidates)) < length candidates" using assms(2) by (simp add: nat_less_iff)
  then have srv: "?srv \<in> set (all_servers (m_servers m))" using Suc.prems(2) nth_mem by blast
  obtain y m2 h2 where c: "createWorker E m1 ?srv i h1 = (y, m2, h2)" by (metis prod_cases3)
  have full: "m1 = m" if "i < 0" using that acq by (cases rule: acquireIndex_cases [of m]) (auto simp: free_index_def)
  have "m_servers m1 = m_servers m" using acq by (cases rule: acquireIndex_cases [of m]) auto
  then have sv: "m_servers (releaseIndex m2 i) = m_servers m" using createWorker_keeps [OF c] by (simp add: releaseIndex_def)
  show ?case
  proof (cases "e = None \<and> 0 \<le> i")
    case False
    then have "m' = m \<and> h' = h1 \<and> isl x" using Suc.prems(1) ctx acq full by (auto split: option.splits)
    then show ?thesis using s1 by (auto split: sum.split)
  next
    case True
    note at = reach_attempt [OF acq _ srv c, of sm]
    have tl: "(case y of Inr r \<Rightarrow> (Inr r, m2, h2) | Inl e \<Rightarrow> try_loop E candidates c n (a + 1) e (releaseIndex m2 i) h2) = (x, m', h')"
      using Suc.prems(1) ctx acq c True by (cases y) auto
    show ?thesis
    proof (cases y)
      case (Inl e)
      with tl have "try_loop E candidates c n (a + 1) e (releaseIndex m2 i) h2 = (x, m', h')" by simp
      note ih = Suc.IH [OF this]
      have "pool_reachable E (pool_start m sm h) (pool_start (releaseIndex m2 i) sm h2)" using at Inl True s1 by (auto intro: reach_then)
      then show ?thesis using ih Suc.prems(2) sv by (auto split: sum.splits intro: reach_then)
    next
      case (Inr r)
      with tl at True s1 show ?thesis by (auto intro: reach_then)
    qed
  qed
qed

lemma reach_tryCreate:
  assumes "groups_ok (m_servers m)" and "tryCreate E m c h = (x, m', h')"
  shows "case x of Inl e \<Rightarrow> pool_reachable E (pool_start m sm h) (pool_start m' sm h')
    | Inr r \<Rightarrow> pool_reachable E (pool_start m sm h) (staging m' sm h' {r})"
proof (cases "serverCandidates m c")
  case (Inl e)
  then show ?thesis using assms(2) by (auto simp: tryCreate_def intro: pool_reachable.start)
next
  case (Inr candidates)
  note sound = serverCandidates_sound [OF assms(1) Inr]
  show ?thesis by (rule reach_try [of E candidates c _ 0 _ m h]) (use assms(2) Inr sound in \<open>auto simp: tryCreate_def Let_def\<close>)
qed

lemma reach_publish:
  assumes "publishWorker E m r h = (b, m', h')"
  shows "pool_reachable E (staging m sm h {r}) (pool_start m' sm h')"
proof (cases "m_rootDone m")
  case False
  then have "m' = insert_worker m r" "h' = h" using assms by (simp_all add: publishWorker_def)
  moreover have "pool_step E (staging m sm h {r}) ((staging m sm h {r})\<lparr>y_pending := Some r\<rparr>)"
    using False by (intro pool_step.passed) (simp_all add: staging_def)
  ultimately show ?thesis using reach_insert by simp
next
  case True
  let ?m1 = "releaseIndex m (w_Index (worker_at m r))"
  let ?y1 = "(pool_start ?m1 sm h)\<lparr>y_ending := {r}\<rparr>"
  have "(staging m sm h {r})\<lparr>y_m := ?m1, y_staged := {}, y_ending := {r}\<rparr> = ?y1" by (simp add: staging_def pool_start_def)
  then have s1: "pool_step E (staging m sm h {r}) ?y1"
    using pool_step.refused [of r "staging m sm h {r}" E] True by (simp add: staging_def)
  have "stop_worker E r (?m1, h) = (m', h')" using assms True by (auto simp: publishWorker_def Let_def split: prod.splits)
  then have s2: "pool_step E ?y1 (?y1\<lparr>y_m := m', y_h := h', y_ending := {}\<rparr>)"
    using pool_step.stopped_ending [of r ?y1 E m' h'] by simp
  have "?y1\<lparr>y_m := m', y_h := h', y_ending := {}\<rparr> = pool_start m' sm h'" by (simp add: pool_start_def)
  then show ?thesis using pool_reachable.step [OF reach_one [OF s1] s2] by simp
qed

lemma reach_create:
  assumes "pool_ok m" and "createForCountry E m c h = (x, m', h')"
  shows "pool_reachable E (pool_start m sm h) (pool_start m' sm h')"
proof -
  obtain y m1 h1 where t: "tryCreate E m c h = (y, m1, h1)" by (metis prod_cases3)
  note rt = reach_tryCreate [OF _ t, of sm]
  show ?thesis
  proof (cases y)
    case (Inl e)
    then show ?thesis using assms t rt by (simp add: createForCountry_def pool_ok_def)
  next
    case (Inr r)
    obtain b m2 h2 where p: "publishWorker E m1 r h1 = (b, m2, h2)" by (metis prod_cases3)
    have "m' = m2" "h' = h2" using assms(2) t Inr p by (auto simp: createForCountry_def split: bool.splits)
    then show ?thesis using rt assms(1) Inr reach_then [OF _ reach_publish [OF p]] by (simp add: pool_ok_def)
  qed
qed

lemma createForCountry_ok: "pool_ok m \<Longrightarrow> createForCountry E m c h = (x, m', h') \<Longrightarrow> pool_ok m'"
  by (cases x) (blast dest: createForCountry_Inl(3), blast elim: createForCountry_Inr intro: fresh_with_worker_ok)

lemma reach_warm:
  assumes "warm_pool E m h = Some r" and "pool_ok m"
  shows "pool_reachable E (pool_start m sm h) (pool_start (fst r) sm (snd r))"
proof -
  have "pool_ok m \<longrightarrow> pool_reachable E (pool_start m sm h) (pool_start (fst r) sm (snd r))"
  proof (rule warm_pool.raw_induct [where P = "\<lambda>E m h r. pool_ok m \<longrightarrow>
        pool_reachable E (pool_start m sm h) (pool_start (fst r) sm (snd r))", OF _ assms(1)], rule impI)
    fix warm E m h r
    assume ih: "\<And>E m h r. warm E m h = Some r \<Longrightarrow> pool_ok m \<longrightarrow>
        pool_reachable E (pool_start m sm h) (pool_start (fst r) sm (snd r))"
      and run: "(case sys (e_os E) CtxErr h of
        (None, h) \<Rightarrow> if m_minPoolSize m \<le> countReady m then Some (m, h)
          else (case createForCountry E m [] h of (Inl e, m, h) \<Rightarrow> Some (m, h) | (Inr info, m, h) \<Rightarrow> warm E m h)
      | (Some e, h) \<Rightarrow> Some (m, h)) = Some r" and ok: "pool_ok m"
    obtain e h1 where ctx: "sys (e_os E) CtxErr h = (e, h1)" by (metis surj_pair)
    have s1: "pool_reachable E (pool_start m sm h) (pool_start m sm h1)" by (rule reach_asked [OF ctx]) simp
    obtain x m2 h2 where c: "createForCountry E m [] h1 = (x, m2, h2)" by (metis prod_cases3)
    note s2 = reach_then [OF s1 reach_create [OF ok c]]
    have "pool_reachable E (pool_start m sm h) (pool_start (fst r) sm (snd r))" if "warm E m2 h2 = Some r"
      using ih [OF that] createForCountry_ok [OF ok c] s2 by (blast intro: reach_then)
    then show "pool_reachable E (pool_start m sm h) (pool_start (fst r) sm (snd r))"
      using run c s1 s2 ctx by (auto split: option.splits sum.splits if_splits)
  qed
  then show ?thesis using assms(2) by blast
qed

subsection \<open>Health check and shutdown\<close>

lemma reach_victims:
  assumes "stop_victims E vs (m, h) (Some sm) = ((m', h'), msm')" and "distinct (map (\<lambda>v. fst (snd v)) vs)"
    and "\<forall>v \<in> set vs. w_ID (worker_at m (fst (snd v))) = fst v"
  shows "\<exists>sm'. msm' = Some sm' \<and>
    pool_reachable E ((pool_start m sm h)\<lparr>y_victims := (\<lambda>v. fst (snd v)) ` set vs\<rparr>) (pool_start m' sm' h')"
  using assms
proof (induction vs arbitrary: m h sm)
  case Nil
  then show ?case by (auto intro: pool_reachable.start)
next
  case (Cons v vs)
  obtain i r why where v: "v = (i, r, why)" by (metis prod_cases3)
  obtain m1 h1 where st: "stop_worker E r (m, h) = (m1, h1)" by (metis surj_pair)
  let ?V = "(\<lambda>v. fst (snd v)) ` set vs"
  let ?y = "(pool_start m sm h)\<lparr>y_victims := insert r ?V\<rparr>"
  have "pool_step E ?y (?y\<lparr>y_m := m1, y_h := h1, y_sm := RemoveByWorker sm i, y_victims := insert r ?V - {r}\<rparr>)"
    using pool_step.stopped_victim [of r ?y E m1 h1] st Cons.prems(3) v by simp
  moreover have "?y\<lparr>y_m := m1, y_h := h1, y_sm := RemoveByWorker sm i, y_victims := insert r ?V - {r}\<rparr> =
      (pool_start m1 (RemoveByWorker sm i) h1)\<lparr>y_victims := ?V\<rparr>"
    using Cons.prems(2) v by (simp add: pool_start_def)
  ultimately have s1: "pool_reachable E ?y ((pool_start m1 (RemoveByWorker sm i) h1)\<lparr>y_victims := ?V\<rparr>)" by (auto intro: reach_one)
  have "stop_victims E vs (m1, h1) (Some (RemoveByWorker sm i)) = ((m', h'), msm')" using Cons.prems(1) v st by (simp del: stop_worker.simps)
  moreover have "\<forall>v \<in> set vs. w_ID (worker_at m1 (fst (snd v))) = fst v"
    using Cons.prems(3) same_slots_stop [OF st] by (simp add: same_slots_def)
  ultimately obtain sm' where "msm' = Some sm'" "pool_reachable E ((pool_start m1 (RemoveByWorker sm i) h1)\<lparr>y_victims := ?V\<rparr>) (pool_start m' sm' h')"
    using Cons.IH [of m1 h1 "RemoveByWorker sm i"] Cons.prems(2) by (auto simp del: stop_victims.simps)
  then show ?case using reach_then [OF s1] v by auto
qed

lemma reach_check:
  assumes "pool_ok m" and "checkWorkers E clock m (Some sm) h = (m', msm', h')"
  shows "\<exists>sm'. msm' = Some sm' \<and> pool_reachable E (pool_start m sm h) (pool_start m' sm' h')"
proof -
  obtain m1 vs k where sc: "scan_workers clock (Some sm) m = (m1, vs, k)" by (metis prod_cases3)
  define D where "D = (\<lambda>p. doomed (clock (fst p)) (Some sm) m (fst p) (worker_at m (snd p)))"
  note sp = scan_pool [OF assms(1) sc D_def]
  obtain m2 h2 msm2 where sv: "stop_victims E vs (m1, h) (Some sm) = ((m2, h2), msm2)" by (metis prod_cases3 surj_pair)
  have refs: "map (\<lambda>v. fst (snd v)) vs = map snd (filter D (m_workers m))" unfolding sp(2) [symmetric] by (simp add: case_prod_beta o_def)
  have d: "distinct (map (\<lambda>v. fst (snd v)) vs)" unfolding refs using published_refs(1) [OF assms(1)] by (rule distinct_map_filter)
  have id: "w_ID (worker_at m1 (fst (snd v))) = fst v" if "v \<in> set vs" for v
  proof -
    have "(fst v, fst (snd v)) \<in> set (map (\<lambda>(i, r, _). (i, r)) vs)" using that by (auto simp: case_prod_beta intro: image_eqI [of _ _ v])
    then have "(fst v, fst (snd v)) \<in> set (m_workers m)" unfolding sp(2) by simp
    then show ?thesis using sp(3) published(2) [OF assms(1)] by fastforce
  qed
  have s1: "pool_reachable E (pool_start m sm h) ((pool_start m1 sm h)\<lparr>y_victims := (\<lambda>v. fst (snd v)) ` set vs\<rparr>)"
    using reach_one [OF pool_step.scanned [of "pool_start m sm h" clock m1 vs k E]] sc by simp
  obtain sm' where sm': "msm2 = Some sm'" and s2: "pool_reachable E (pool_start m sm h) (pool_start m2 sm' h2)"
    using reach_victims [OF sv d] id reach_then [OF s1] by blast
  have "msm' = Some sm'" "h' = h2" "m' \<in> {m2, signalPreconnect m2, signalPreconnect (signalGrow m2), signalPreconnect (signalPreconnect (signalGrow m2))}"
    using assms(2) sc sv sm' by (auto simp: checkWorkers_def Let_def)
  then show ?thesis using s2 by (auto intro: reach_signal)
qed

lemma reach_ending:
  assumes "foldl (\<lambda>s r. stop_worker E r s) (m, h) rs = (m', h')" and "distinct rs"
  shows "pool_reachable E ((pool_start m sm h)\<lparr>y_ending := set rs\<rparr>) (pool_start m' sm h')"
  using assms
proof (induction rs arbitrary: m h)
  case Nil
  then show ?case by (auto intro: pool_reachable.start)
next
  case (Cons r rs)
  obtain m1 h1 where st: "stop_worker E r (m, h) = (m1, h1)" by (metis surj_pair)
  let ?y = "(pool_start m sm h)\<lparr>y_ending := set (r # rs)\<rparr>"
  have "?y\<lparr>y_m := m1, y_h := h1, y_ending := set (r # rs) - {r}\<rparr> = (pool_start m1 sm h1)\<lparr>y_ending := set rs\<rparr>"
    using Cons.prems(2) by (simp add: pool_start_def)
  then have "pool_step E ?y ((pool_start m1 sm h1)\<lparr>y_ending := set rs\<rparr>)"
    using pool_step.stopped_ending [of r ?y E m1 h1] st by simp
  then show ?case using Cons.IH [of m1 h1] Cons.prems st by (auto simp del: stop_worker.simps intro: reach_then reach_one)
qed

lemma reach_Shutdown:
  assumes "pool_ok m" and "Shutdown E m h = (m', h')"
  shows "pool_reachable E (pool_start m sm h) (pool_start m' sm h')"
proof -
  let ?m0 = "m\<lparr>m_rootDone := True\<rparr>"
  obtain rs m1 where sec: "shutdown_section ?m0 = (rs, m1)" by (metis surj_pair)
  have "rs = map snd (m_workers m)" using sec by (simp add: shutdown_section_def Let_def)
  then have d: "distinct rs" using published_refs(1) [OF assms(1)] by simp
  have s1: "pool_reachable E (pool_start m sm h) (pool_start ?m0 sm h)" using reach_one [OF pool_step.cancelled [of E "pool_start m sm h"]] by simp
  have "pool_step E (pool_start ?m0 sm h) ((pool_start m1 sm h)\<lparr>y_ending := set rs\<rparr>)"
    using pool_step.shut_down [of "pool_start ?m0 sm h" rs m1 E] sec by simp
  then have s2: "pool_reachable E (pool_start m sm h) ((pool_start m1 sm h)\<lparr>y_ending := set rs\<rparr>)" by (rule pool_reachable.step [OF s1])
  show ?thesis using reach_then [OF s2 reach_ending [OF _ d]] assms(2) sec by (simp add: Shutdown_def)
qed

subsection \<open>Replacement\<close>

lemma reach_closing:
  assumes "pool_reachable E y (pool_start m sm h)" and "force_closing m r = (b, m')"
  shows "pool_reachable E y (pool_start m' sm h)"
  using pool_reachable.step [OF assms(1) pool_step.draining, of r b m'] assms(2) by simp

lemma reach_replace:
  assumes "replace_worker E (\<lambda>h m. m) r new' m h = (m', h')" and "new' < length (m_store m)"
  shows "pool_reachable E (staging m sm h {new'}) (pool_start m' sm h')"
proof (cases "publishable m r")
  case True
  have "pool_step E (staging m sm h {new'}) ((staging m sm h {new'})\<lparr>y_pending := Some new'\<rparr>)"
    using True by (intro pool_step.replacing [of _ _ r]) (simp_all add: staging_def)
  note s1 = reach_insert [OF this]
  obtain b m2 where f: "force_closing (insert_worker m new') r = (b, m2)" by (metis surj_pair)
  note s2 = reach_closing [OF s1 f]
  have "m' = (if b then signalWakeup m2 else m2)" "h' = h" using assms(1) True f by (auto simp: replace_worker_def let_drain_def)
  then show ?thesis using s2 by (simp add: reach_signal)
next
  case False
  let ?y1 = "(pool_start m sm h)\<lparr>y_retired := {new'}\<rparr>"
  have "(staging m sm h {new'})\<lparr>y_staged := {}, y_retired := {new'}\<rparr> = ?y1" by (simp add: staging_def pool_start_def)
  then have s1: "pool_step E (staging m sm h {new'}) ?y1"
    using pool_step.superfluous [of new' "staging m sm h {new'}" r E] False by (simp add: staging_def)
  obtain m1 h1 where st: "stop_worker E new' (m, h) = (m1, h1)" by (metis surj_pair)
  then obtain e w where w: "Stop (e_os E) (worker_at m new') h = (e, w, h1)" "m1 = set_worker m new' w" by (rule stop_worker_facts)
  have "w_stopOnce w" using Stop_keeps [OF w(1)] by simp
  then have once: "w_stopOnce (worker_at m1 new')" using w(2) assms(2) by (simp add: worker_at_def set_worker_def)
  let ?y2 = "(pool_start m1 sm h1)\<lparr>y_retired := {new'}\<rparr>"
  have y2: "?y1\<lparr>y_m := m1, y_h := h1\<rparr> = ?y2" by (simp add: pool_start_def)
  have s2: "pool_step E ?y1 ?y2" using pool_step.stopped_retired [of new' ?y1 E m1 h1] st unfolding y2 by simp
  have m': "m' = releaseIndex m1 (w_Index (worker_at m1 new'))" "h' = h1"
    using assms(1) False st by (auto simp: replace_worker_def simp del: stop_worker.simps)
  have "?y2\<lparr>y_m := m', y_retired := {}\<rparr> = pool_start m' sm h'" by (simp add: pool_start_def m'(2))
  then have "pool_step E ?y2 (pool_start m' sm h')" using pool_step.released [of ?y2 new' E] once by (simp add: m'(1))
  then show ?thesis using pool_reachable.step [OF pool_reachable.step [OF reach_one [OF s1] s2]] by blast
qed

lemma reach_slot_loop:
  assumes "slot_loop E (\<lambda>h m. m) m h = Some x"
  shows "fst (snd x) = m \<and> pool_reachable E (pool_start m sm h) (pool_start m sm (snd (snd x)))"
proof -
  have "(\<lambda>(h::hist) (m::manager). m) = (\<lambda>h m. m) \<longrightarrow> fst (snd x) = m \<and> pool_reachable E (pool_start m sm h) (pool_start m sm (snd (snd x)))"
  proof (rule slot_loop.raw_induct [where P = "\<lambda>E others m h x. others = (\<lambda>h m. m) \<longrightarrow>
        fst (snd x) = m \<and> pool_reachable E (pool_start m sm h) (pool_start m sm (snd (snd x)))", OF _ assms], rule impI)
    fix loop E others m h x
    assume ih: "\<And>E others m h x. loop E others m h = Some x \<Longrightarrow> others = (\<lambda>h m. m) \<longrightarrow>
        fst (snd x) = m \<and> pool_reachable E (pool_start m sm h) (pool_start m sm (snd (snd x)))"
      and run: "(case sys (e_os E) CtxErr h of
        (None, h) \<Rightarrow> if int (card (m_usedIndexes m)) < maxWorkerSlots - reservedForOnDemand then Some (True, m, h)
          else (case sys (e_os E) (WaitFor namespaceWaitBeforeRetry) h of
               (None, h) \<Rightarrow> loop E others (others h m) h
             | (Some e, h) \<Rightarrow> Some (False, others h m, h))
      | (Some e, h) \<Rightarrow> Some (False, m, h)) = Some x" and o: "others = (\<lambda>h m. m)"
    obtain e h1 where ctx: "sys (e_os E) CtxErr h = (e, h1)" by (metis surj_pair)
    have s1: "pool_reachable E (pool_start m sm h) (pool_start m sm h1)" by (rule reach_asked [OF ctx]) simp
    obtain e2 h2 where wait: "sys (e_os E) (WaitFor namespaceWaitBeforeRetry) h1 = (e2, h2)" by (metis surj_pair)
    have s2: "pool_reachable E (pool_start m sm h) (pool_start m sm h2)" by (rule reach_then [OF s1 reach_asked [OF wait]]) simp
    have "fst (snd x) = m \<and> pool_reachable E (pool_start m sm h) (pool_start m sm (snd (snd x)))" if "loop E others m h2 = Some x"
      using ih [OF that] o s2 by (blast intro: reach_then)
    then show "fst (snd x) = m \<and> pool_reachable E (pool_start m sm h) (pool_start m sm (snd (snd x)))"
      using run s1 s2 ctx wait o by (auto split: option.splits if_splits)
  qed
  then show ?thesis by simp
qed

lemma reach_staged:
  assumes "pool_ok m" and "createForCountryStaged E m c h = (Inr new', m1, h1)"
  shows "pool_reachable E (pool_start m sm h) (staging m1 sm h1 {new'})" and "new' < length (m_store m1)"
proof -
  have g: "groups_ok (m_servers m)" and t: "tryCreate E m c h = (Inr new', m1, h1)"
    using assms by (simp_all add: pool_ok_def createForCountryStaged_def)
  show "pool_reachable E (pool_start m sm h) (staging m1 sm h1 {new'})" using reach_tryCreate [OF g t, of sm] by simp
  from tryCreate_Inr [OF g t] obtain w where "new' = length (m_store m)"
    "m1 = m\<lparr>m_store := m_store m @ [w], m_usedIndexes := insert (w_Index w) (m_usedIndexes m)\<rparr>" by blast
  then show "new' < length (m_store m1)" by simp
qed

lemma reach_staged_Inl:
  assumes "pool_ok m" and "createForCountryStaged E m c h = (Inl e, m1, h1)"
  shows "m1 = m" and "pool_reachable E (pool_start m sm h) (pool_start m sm h1)"
proof -
  have t: "tryCreate E m c h = (Inl e, m1, h1)" using assms(2) by (simp add: createForCountryStaged_def)
  then show m1: "m1 = m" by (rule tryCreate_Inl)
  show "pool_reachable E (pool_start m sm h) (pool_start m sm h1)"
    using reach_tryCreate [OF _ t, of sm] assms(1) m1 by (simp add: pool_ok_def)
qed

text \<open>One round of the retry loop, once the goroutine has found its worker still waiting.\<close>

lemma reach_round:
  assumes "pool_reachable E y (pool_start m sm h)" and "pool_ok m" and "createForCountryStaged E m [] h = (x, m1, h1)"
    and "(case x of Inr new' \<Rightarrow> Some (replace_worker E (\<lambda>h m. m) r new' m1 h1)
      | Inl e \<Rightarrow> (case sys (e_os E) CtxErr h1 of (Some e, h) \<Rightarrow> Some (m1, h)
        | (None, h) \<Rightarrow> (case sys (e_os E) (WaitFor backoff) h of (Some e, h) \<Rightarrow> Some (m1, h)
          | (None, h) \<Rightarrow> loop m1 h))) = Some s"
    and "\<And>h'. loop m h' = Some s \<Longrightarrow> pool_reachable E (pool_start m sm h') (pool_start (fst s) sm (snd s))"
  shows "pool_reachable E y (pool_start (fst s) sm (snd s))"
proof (cases x)
  case (Inr new')
  note st = reach_staged [OF assms(2) assms(3) [unfolded Inr]]
  show ?thesis
    by (rule reach_then [OF assms(1) reach_then [OF st(1) reach_replace [OF _ st(2)]]]) (use assms(4) Inr in auto)
next
  case (Inl e)
  note st = reach_staged_Inl [OF assms(2) assms(3) [unfolded Inl]]
  obtain e1 h2 where ctx: "sys (e_os E) CtxErr h1 = (e1, h2)" by (metis surj_pair)
  have s2: "pool_reachable E y (pool_start m sm h2)" by (rule reach_then [OF reach_then [OF assms(1) st(2)] reach_asked [OF ctx]]) simp
  obtain e2 h3 where wait: "sys (e_os E) (WaitFor backoff) h2 = (e2, h3)" by (metis surj_pair)
  have s3: "pool_reachable E y (pool_start m sm h3)" by (rule reach_then [OF s2 reach_asked [OF wait]]) simp
  show ?thesis using assms(4,5) Inl ctx wait s2 s3 reach_then [OF s3] st(1) by (auto split: option.splits)
qed

lemma reach_replace_loop:
  assumes "replace_loop E (\<lambda>h m. m) r backoff m h = Some s" and "pool_ok m"
  shows "pool_reachable E (pool_start m sm h) (pool_start (fst s) sm (snd s))"
proof -
  have "pool_ok m \<and> (\<lambda>(h::hist) (m::manager). m) = (\<lambda>h m. m) \<longrightarrow> pool_reachable E (pool_start m sm h) (pool_start (fst s) sm (snd s))"
  proof (rule replace_loop.raw_induct [where P = "\<lambda>E others r backoff m h s. pool_ok m \<and> others = (\<lambda>h m. m) \<longrightarrow>
        pool_reachable E (pool_start m sm h) (pool_start (fst s) sm (snd s))", OF _ assms(1)], intro impI, elim conjE)
    fix loop E others r backoff m h s
    assume ih: "\<And>E others r backoff m h s. loop E others r backoff m h = Some s \<Longrightarrow> pool_ok m \<and> others = (\<lambda>h m. m) \<longrightarrow>
        pool_reachable E (pool_start m sm h) (pool_start (fst s) sm (snd s))"
      and ok: "pool_ok m" and o: "others = (\<lambda>h m. m)"
      and run: "(case sys (e_os E) CtxErr h of
        (None, h) \<Rightarrow>
          if \<not> still_ours m r then Some (m, h)
          else if \<not> is_zero_time (rotationScheduledSince (worker_at m r)) \<and>
                  effectiveGrace m \<le> time_sub (os_fd (e_os E) h TimeNow) (rotationScheduledSince (worker_at m r))
          then (case force_closing (others h m) r of (marked, m) \<Rightarrow> Some (if marked then signalGrow (signalWakeup m) else m, h))
          else (case createForCountryStaged E m [] h of
               (Inl e, m, h) \<Rightarrow> (case sys (e_os E) CtxErr h of
                  (None, h) \<Rightarrow> (case sys (e_os E) (WaitFor backoff) h of
                     (None, h) \<Rightarrow> loop E others r (nextBackoff backoff) (others h m) h
                   | (Some e, h) \<Rightarrow> Some (others h m, h))
                | (Some e, h) \<Rightarrow> Some (others h m, h))
             | (Inr new', m, h) \<Rightarrow> Some (replace_worker E others r new' (others h m) h))
      | (Some e, h) \<Rightarrow> Some (m, h)) = Some s"
    obtain e h1 where ctx: "sys (e_os E) CtxErr h = (e, h1)" by (metis surj_pair)
    have s1: "pool_reachable E (pool_start m sm h) (pool_start m sm h1)" by (rule reach_asked [OF ctx]) simp
    obtain b m' where f: "force_closing m r = (b, m')" by (metis surj_pair)
    have s2: "pool_reachable E (pool_start m sm h) (pool_start (if b then signalGrow (signalWakeup m') else m') sm h1)"
      using reach_closing [OF s1 f] by (simp add: reach_signal)
    obtain x m2 h2 where c: "createForCountryStaged E m [] h1 = (x, m2, h2)" by (metis prod_cases3)
    note round = reach_round [OF s1 ok c, where r = r and backoff = backoff and loop = "loop E others r (nextBackoff backoff)" and s = s]
    show "pool_reachable E (pool_start m sm h) (pool_start (fst s) sm (snd s))"
    proof (cases "e = None \<and> still_ours m r \<and> \<not> (\<not> is_zero_time (rotationScheduledSince (worker_at m r)) \<and>
        effectiveGrace m \<le> time_sub (os_fd (e_os E) h1 TimeNow) (rotationScheduledSince (worker_at m r)))")
      case True
      then show ?thesis using run ctx c o ih ok by (intro round) (auto split: option.splits sum.splits prod.splits)
    next
      case False
      then show ?thesis using run ctx f s1 s2 o by (auto split: option.splits if_splits)
    qed
  qed
  then show ?thesis using assms(2) by simp
qed

lemma reach_preconnect:
  assumes "preconnectWorker E (\<lambda>h m. m) r m h = Some (m', h')" and "pool_ok m"
  shows "pool_reachable E (pool_start m sm h) (pool_start m' sm h')"
proof -
  let ?leave = "\<lambda>m. m\<lparr>m_preconnectInflight := m_preconnectInflight m - {r}\<rparr>"
  let ?sem = "\<lambda>k m. m\<lparr>m_preconnectSem := m_preconnectSem m + k\<rparr>"
  have leave: "pool_reachable E y (pool_start (?leave a) sm k)" if "pool_reachable E y (pool_start a sm k)" for y a k
    using pool_reachable.step [OF that pool_step.replacing_ends, of r] by simp
  have sem: "pool_reachable E y (pool_start (?sem b a) sm k)" if "pool_reachable E y (pool_start a sm k)" "b \<in> {1, -1}" for y a k b
    using pool_reachable.step [OF that(1) pool_step.semaphore [OF that(2)]] by simp
  obtain b m1 h1 where sl: "slot_loop E (\<lambda>h m. m) m h = Some (b, m1, h1)"
    using assms(1) by (auto simp: preconnectWorker_def Let_def split: option.splits)
  have m1: "m1 = m" and s1: "pool_reachable E (pool_start m sm h) (pool_start m sm h1)" using reach_slot_loop [OF sl, of sm] by auto
  obtain e h2 where wait: "sys (e_os E) WaitTick h1 = (e, h2)" by (metis surj_pair)
  have s2: "pool_reachable E (pool_start m sm h) (pool_start m sm h2)" by (rule reach_then [OF s1 reach_asked [OF wait]]) simp
  have loop: "pool_reachable E (pool_start m sm h) (pool_start (?leave (?sem (-1) a)) sm k)"
    if "replace_loop E (\<lambda>h m. m) r preconnectInitialBackoff (?sem 1 m) h2 = Some (a, k)" for a k
  proof -
    have "pool_ok (?sem 1 m)" using assms(2) pool_ok_same [OF same_slots_root(3)] by blast
    from reach_replace_loop [OF that this, of sm] sem [OF s2, of 1] show ?thesis by (intro leave sem) (auto intro: reach_then)
  qed
  show ?thesis using assms(1) sl m1 wait leave [OF s1] leave [OF s2] loop
    by (auto simp: preconnectWorker_def Let_def split: bool.splits option.splits)
qed

section \<open>Properties\<close>

text \<open>
  C5: the sequential model is a part of the concurrent one. Creating a worker, filling the pool, a
  health check, a shutdown, a round of the rotation's coordinator and a replacement that runs
  undisturbed, each as one function, are runs of the pool system, section by section, from a quiet
  state to a quiet state.
\<close>

theorem operations_are_runs:
  assumes "pool_ok m"
  shows "(\<forall>c x m' h'. createForCountry E m c h = (x, m', h') \<longrightarrow> pool_reachable E (pool_start m sm h) (pool_start m' sm h')) \<and>
    (\<forall>m' h'. warm_pool E m h = Some (m', h') \<longrightarrow> pool_reachable E (pool_start m sm h) (pool_start m' sm h')) \<and>
    (\<forall>clock m' sm' h'. checkWorkers E clock m (Some sm) h = (m', Some sm', h') \<longrightarrow>
       pool_reachable E (pool_start m sm h) (pool_start m' sm' h')) \<and>
    (\<forall>m' h'. Shutdown E m h = (m', h') \<longrightarrow> pool_reachable E (pool_start m sm h) (pool_start m' sm h')) \<and>
    (\<forall>clock ds m'. dispatchPending clock m = (ds, m') \<longrightarrow> pool_reachable E (pool_start m sm h) (pool_start m' sm h)) \<and>
    (\<forall>r m' h'. preconnectWorker E (\<lambda>h m. m) r m h = Some (m', h') \<longrightarrow>
       pool_reachable E (pool_start m sm h) (pool_start m' sm h'))"
proof -
  have d: "pool_reachable E (pool_start m sm h) (pool_start m' sm h)" if "dispatchPending clock m = (ds, m')" for clock ds m'
    using reach_one [OF pool_step.dispatched [of "pool_start m sm h" clock ds m' E]] that by simp
  have k: "pool_reachable E (pool_start m sm h) (pool_start m' sm' h')"
    if "checkWorkers E clock m (Some sm) h = (m', Some sm', h')" for clock m' sm' h' using reach_check [OF assms that] by blast
  have w: "pool_reachable E (pool_start m sm h) (pool_start m' sm h')" if "warm_pool E m h = Some (m', h')" for m' h'
    using reach_warm [OF that assms] by simp
  show ?thesis
    by (intro conjI allI impI)
      (erule reach_create [OF assms] w k reach_Shutdown [OF assms] d reach_preconnect [OF _ assms])+
qed

theorem operations_are_runs_witness:
  "\<exists>m' h'. Shutdown sample_env sample_pool [] = (m', h') \<and> m_workers sample_pool \<noteq> [] \<and>
     pool_reachable sample_env (pool_start sample_pool (NewManager minute) []) (pool_start m' (NewManager minute) h')"
proof -
  obtain m' h' where s: "Shutdown sample_env sample_pool [] = (m', h')" by (metis surj_pair)
  moreover have "m_workers sample_pool \<noteq> []" by (simp add: sample_pool_def with_worker_def)
  ultimately show ?thesis using operations_are_runs [OF sample_pool_ok, of sample_env "[]" "NewManager minute"] by blast
qed

end
