(* ===== verification/Spec2Isabelle.thy ===== *)
theory Spec2Isabelle
  imports Gateway Stub Pool_Runs
begin

text \<open>
  A verification of the Surfshark VPN proxy gateway (Go).

  \<^bold>\<open>The program.\<close> The gateway offers a SOCKS5 and an HTTP proxy. A client's user name carries the country it
  wants to leave through and a session name. A pool of workers, each an OpenVPN process in a
  network namespace of its own, carries the traffic. A request goes through these parts:
  \<^item> \<open>internal/proxy\<close> checks the password, asks the router for a worker, counts the connection and
    dials the target in the worker's namespace;
  \<^item> \<open>internal/parser\<close> reads the user name; \<open>internal/session\<close> remembers which worker a session uses;
  \<^item> \<open>internal/router\<close> returns the session's worker if it still serves, and otherwise picks one in
    turn or asks the pool to create one;
  \<^item> \<open>internal/worker\<close> is the pool: creation of workers (\<open>internal/netns\<close> sets up the namespace), a
    health check, a warmer that keeps a minimum number ready, and the replacement of workers that
    are past their lifetime;
  \<^item> \<open>internal/config\<close>, \<open>internal/discovery\<close> and \<open>cmd/gateway\<close> read the settings and the server files and
    start everything.

  \<^bold>\<open>The theories\<close>, from the bottom up:
  \<^item> \<open>Go_Base\<close>: what the code uses of Go and its standard library: errors as values with wrapping, 64-bit
    durations that wrap, times, \<open>strings\<close>, \<open>strconv\<close>, \<open>sort\<close>, maps as association lists with one entry
    per key (the order is that of the iteration); the collections of facts the proofs share.
  \<^item> \<open>Parser\<close> (\<open>parser.go\<close>), \<open>Config\<close> (\<open>config.go\<close>), \<open>Discovery\<close> (\<open>discovery.go\<close>), \<open>Session\<close> (\<open>session.go\<close>): one
    definition per function. Reading back what a client writes, what a scan finds, how long a
    session lives.
  \<^item> \<open>Os\<close>: the boundary to the operating system. Every effect is a call, a value of \<open>oscall\<close>; running the
    model yields the history of calls with their outcomes, decided by the parameter \<open>os\<close> from the
    whole history. Theorems hold for every such parameter.
  \<^item> \<open>Netns\<close> (\<open>netns_linux.go\<close>): \<open>Create\<close> and \<open>Destroy\<close> as sequences of calls on every path. A successful
    creation has made every call of the set-up, a failed one leaves a namespace only where a deletion
    failed too, the thread returns unless one of two calls fails, indexes give disjoint subnets; what
    the firewall rules let out.
  \<^item> \<open>Router\<close> (\<open>router.go\<close>): the interface \<open>WorkerPool\<close> as a record of methods, and as the locale
    \<open>worker_pool_contract\<close> with the laws the router relies on; fairness, soundness and affinity are
    proved in it.
  \<^item> \<open>Worker\<close> (\<open>worker_linux.go\<close>): the life of a worker, its counters, the jittered lifetime, \<open>Stop\<close>.
  \<^item> \<open>Manager\<close> and \<open>Health\<close> (\<open>manager_linux.go\<close>): the pool, creation with its retries, publication, the health
    check, the warmer and \<open>Shutdown\<close>. Pointers to workers are indexes into the store \<open>m_store\<close>, so that
    a worker that left the pool is still the object its goroutines hold.
  \<^item> \<open>Preconnect\<close> (\<open>preconnect_linux.go\<close>): which workers are replaced, and the goroutine that replaces one.
  \<^item> \<open>Base64\<close>, \<open>Dialer\<close> (\<open>dialer_linux.go\<close>), \<open>Proxy\<close> (\<open>socks5.go\<close>, \<open>http.go\<close>): the entrances.
  \<^item> \<open>Pool_System\<close>: the same pool as a concurrent system, with one rule per section under the manager's
    lock (two where a publication checks the context and then inserts), its invariant and the finality of a
    shutdown under all interleavings; \<open>Pool_Runs\<close>: the operations of the manager, modelled as one
    function each, are runs of that system.
  \<^item> \<open>Gateway\<close> (\<open>main.go\<close>): the start, the four background goroutines, the end.
  \<^item> \<open>Stub\<close>: the placeholders for systems other than Linux.
  \<^item> This theory: what holds of the gateway as a whole, from the client to the tunnel.

  \<^bold>\<open>Interfaces.\<close> \<open>session_store\<close> (what the router relies on in the session table) is interpreted on the
  operations of \<open>Session\<close>; \<open>worker_pool_contract\<close> on the manager (\<open>mgr\<close>) and on the placeholder
  (\<open>stub\<close>); \<open>conn_tracker\<close>, the counting of connections, on the manager (\<open>tracker\<close>) and on the
  placeholder (\<open>stub_tracker\<close>); \<open>background_task\<close> on the bodies of the four background goroutines.

  \<^bold>\<open>Concurrency.\<close> An operation under a lock is one function. An operation that gives the lock up is one
  function for a goroutine that runs undisturbed; in a replacement, which waits for minutes, what the
  others do at each point where it holds no lock is a parameter (\<open>others\<close>), and \<open>pool_run_goes_on\<close>
  shows that every run of \<open>Pool_System\<close> is something they may do. \<open>Pool_System\<close> drops the assumption
  for the whole pool. There the cancellation of the context takes no lock, so it can fall between the
  check of a publication and its insertion; a connection is counted after the lock is given up; the
  goroutine that waits for a process is an event of its own (\<open>process_ended\<close>, which sets the flag and
  wakes the health check), also for a process that \<open>Stop\<close> or a failed creation has ended, so \<open>Stop\<close>
  itself signals nothing. \<open>Shutdown\<close> waits for creations under way (\<open>createWg\<close>) before it takes the
  lock; the rule does not ask for that, so the runs include those with the wait. Each worker has a lock
  of its own; an operation on one worker is one step, and a scan of the pool under the manager's lock,
  which takes these locks one after the other, is one step too. \<open>singleflight.Do\<close> is the
  parameter \<open>e_do\<close>; \<open>singleflight_runs\<close> is its documented behaviour for a caller that finds no call with
  its key in flight, and \<open>lone_caller\<close> is an environment that has it.

  \<^bold>\<open>Bounds and loops.\<close> \<open>waitForTun\<close> polls every 500 ms for 30 s, hence at most 60 ticks (\<open>tun_ticks\<close>); after the
  last one the timeout ends the wait, so the bound loses nothing. A creation makes at most three
  attempts, as in the source. Loops with no bound of their own (the warmer, the wait for
  slots, the retries of a replacement, the background goroutines) are partial functions whose
  \<open>None\<close> is not returning. On a well-formed pool the warmer returns in every environment; the
  others return when slots come free, the grace period ends or the context is cancelled, and that
  is proved as such, with these conditions as premises (\<open>slots_come_free\<close>, \<open>clock_ok\<close>). The counter of the round robin is a 64-bit word; durations wrap at 64
  bits; differences of times saturate.

  \<^bold>\<open>Not modelled.\<close> Logging, \<open>pumpLog\<close>, and \<open>managedContext\<close>, which joins two contexts whose cancellation is a
  call of the environment here. The SOCKS5 protocol (a library that calls \<open>Valid\<close> and
  \<open>dialWithRequest\<close>), \<open>net/http\<close> and the constructors that fill the structures of these libraries. The bytes
  of a connection: copying is one call. Strings are sequences of bytes; \<open>strings.TrimSpace\<close> removes all
  of Unicode's white space in UTF-8, while \<open>strings.ToLower\<close> maps the letters of ASCII only, and what
  depends on it is stated for ASCII. The kernel's side of namespaces, iptables and OpenVPN appears only as the
  outcome of calls; \<open>kill_switch_verdict\<close> reads the rules by the documented order of iptables.

  \<^bold>\<open>What the verification showed of the code.\<close> Most of it does what it means to. \<open>index_reuse_race\<close> is a run in which
  a worker's index is given away before its namespace is gone; \<open>restore_failure_leaks\<close> a dial whose
  connection is lost; \<open>Create_restores_thread\<close> names the two calls after whose failure the set-up of a
  namespace leaves its thread elsewhere; hits do not extend a session, as the README says they do
  (\<open>Lookup_never_extends\<close> in \<open>Session\<close>);
  \<open>kill_switch_verdict\<close> shows that packets to the veth peer pass while the tunnel is down.
\<close>

section \<open>Definitions for evaluation\<close>

text \<open>
  Entrances over one worker to which a session is bound, an environment whose context is cancelled,
  and one in which the thread's namespace can be observed.
\<close>

definition sticky_front :: "manager front" where
  "sticky_front = sample_front\<lparr>r_session := snd (Bind 0 (NewManager (30 * minute)) ''s1'' ''us'' 0 ''worker-3'')\<rparr>"

definition cancelled_env :: env where
  "cancelled_env = sample_env\<lparr>e_os := (calm_os 1)\<lparr>os_err := (\<lambda>h c. if c = CtxErr then Some ContextCanceled else None)\<rparr>\<rparr>"

definition watched_env :: env where
  "watched_env = sample_env\<lparr>e_os := sample_os\<rparr>"

section \<open>Routing over the manager\<close>

text \<open>
  C1: whoever gets a worker gets a working one of the right country. When a lone caller's request is
  routed over the manager, the worker is in the pool afterwards, in a serving state, and of the
  country asked for; the pool and the session table stay well formed.
\<close>

theorem route_serves:
  assumes "singleflight_runs E" and "pool_ok (manager_of r)" and "session_ok (r_session r)"
    and "Route (manager_pool E) t1 t2 ps r = (Inr w, r')"
  shows "w \<in> set (GetReadyWorkers (manager_of r') []) \<and> serving (wi_State w) \<and> country_ok (p_Country ps) w \<and>
    pool_ok (manager_of r') \<and> session_ok (r_session r')"
proof -
  have i: "pool_ok (fst (r_pool r))" using assms(2) by (simp add: manager_of_def)
  have "Route (manager_pool (lone_caller E)) t1 t2 ps r = (Inr w, r')" using assms(1,4) by (simp add: lone_caller_id)
  from mgr.route_sound [OF i assms(3) this] show ?thesis by (simp add: manager_of_def)
qed

theorem route_serves_witness:
  "\<exists>w r'. Route (manager_pool sample_env) 100 100 (Parse ''alice'' []) sample_front = (Inr w, r') \<and> serving (wi_State w)"
proof -
  have "pool_ok (manager_of sample_front)" using sample_front_live(1) by (simp add: pool_live_def)
  moreover have "session_ok (r_session sample_front)" by (simp add: sample_front_def NewRouter_def session_ok_New minute_def second_def)
  ultimately show ?thesis using route_serves [OF sample_runs _ _ sample_route] sample_route by blast
qed

text \<open>
  C2: a session stays with its worker. Over any sequence of requests, with and without sessions, for
  any countries, in which a session is live and bound to a worker of the pool, every request of
  that session that asks for no other country is routed to that worker.
\<close>

theorem session_affinity:
  assumes "singleflight_runs E" and "pool_ok (manager_of r)" and "session_ok (r_session r)"
    and "w \<in> set (GetReadyWorkers (manager_of r) [])" and "sid \<noteq> []" and "sorted (map fst rqs)"
    and "\<forall>(t, ps) \<in> set rqs. binding (r_session r) t sid = Some (wi_ID w) \<and>
      (p_SessionID ps = sid \<longrightarrow> country_ok (p_Country ps) w)"
    and "i < length rqs" and "p_SessionID (snd (rqs ! i)) = sid"
  shows "fst (route_run (manager_pool E) rqs r) ! i = Inr w"
proof -
  have i: "pool_ok (fst (r_pool r))" "w \<in> set (pool_GetReadyWorkers (manager_pool (lone_caller E)) (r_pool r) [])"
    using assms(2,4) by (simp_all add: manager_of_def)
  from mgr.run_affinity [OF i(1) assms(3) i(2) assms(5) assms(7) assms(6,8,9)] show ?thesis
    by (simp add: lone_caller_id [OF assms(1)])
qed

theorem session_affinity_witness:
  "fst (route_run (manager_pool sample_env)
     [(1, Parse ''alice__sessid.s1'' []), (2, Parse ''alice'' []), (3, Parse ''alice__cr.us;sessid.s1'' [])] sticky_front) ! 2 =
   Inr (Info ready_sample)"
proof -
  let ?rqs = "[(1, Parse ''alice__sessid.s1'' []), (2, Parse ''alice'' []), (3, Parse ''alice__cr.us;sessid.s1'' [])]"
  have m: "manager_of sticky_front = sample_pool" by (simp add: sticky_front_def sample_front_def manager_of_def NewRouter_def)
  have ok: "pool_ok (manager_of sticky_front)" "session_ok (r_session sticky_front)"
    using sample_pool_ok by (simp_all add: m) (simp add: sticky_front_def session_ok_Bind session_ok_New minute_def second_def)
  have ready: "Info ready_sample \<in> set (GetReadyWorkers (manager_of sticky_front) [])"
    unfolding m set_GetReadyWorkers by (simp add: pool_infos_def sample_pool_eq)
      (simp add: Info_def ready_sample_def sample_worker_def serving_def country_ok_def)
  have id: "wi_ID (Info ready_sample) = ''worker-3''" "wi_Country (Info ready_sample) = ''us''"
    by (simp_all add: Info_def ready_sample_def sample_worker_def)
  have b: "binding (r_session sticky_front) t ''s1'' = Some ''worker-3''" if "t \<in> {1, 2, 3}" for t
    using that by (auto simp: sticky_front_def Bind_def NewManager_def binding_def mget_def mput_def expired_def Let_def
        time_sub_def sat64_def minute_def second_def)
  have p: "p_SessionID (Parse ''alice'' []) = []" "p_Country (Parse ''alice__sessid.s1'' []) = []"
    "p_SessionID (Parse ''alice__cr.us;sessid.s1'' []) = ''s1''" "p_Country (Parse ''alice__cr.us;sessid.s1'' []) = ''us''"
    by code_simp+
  have "\<forall>(t, ps) \<in> set ?rqs. binding (r_session sticky_front) t ''s1'' = Some (wi_ID (Info ready_sample)) \<and>
      (p_SessionID ps = ''s1'' \<longrightarrow> country_ok (p_Country ps) (Info ready_sample))"
    using b p id by (simp add: country_ok_def)
  from session_affinity [OF sample_runs ok ready _ _ this, of 2] p(3) show ?thesis by simp
qed

text \<open>
  C15: a request is turned away only when it cannot be served. Routing fails only when no worker of the
  country serves and creating one failed, with that error; then no session is left bound by
  the request, and no worker or slot has changed.
\<close>

theorem route_turned_away:
  assumes "singleflight_runs E" and "pool_ok (manager_of r)" and "session_ok (r_session r)"
    and "Route (manager_pool E) t1 t2 ps r = (Inl e, r')"
  shows "GetReadyWorkers (manager_of r) (p_Country ps) = [] \<and>
    (\<exists>e'. createForCountry E (manager_of r) (p_Country ps) (hist_of r) = (Inl e', manager_of r', hist_of r') \<and>
       e = Wrapf ''request worker for country'' [p_Country ps] e') \<and>
    pool_infos (manager_of r') = pool_infos (manager_of r) \<and> m_usedIndexes (manager_of r') = m_usedIndexes (manager_of r) \<and>
    (IsSticky ps \<longrightarrow> t1 \<le> t \<longrightarrow> binding (r_session r') t (p_SessionID ps) = None)"
proof -
  have i: "pool_ok (fst (r_pool r))" using assms(2) by (simp add: manager_of_def)
  have l: "lone_caller E = E" by (rule lone_caller_id [OF assms(1)])
  then have "Route (manager_pool (lone_caller E)) t1 t2 ps r = (Inl e, r')" using assms(4) by simp
  note re = mgr.route_error [OF i assms(3) this, unfolded l]
  from re(2) obtain e' where e': "RequestWorker E (manager_of r) (p_Country ps) (hist_of r) = (Inl e', manager_of r', hist_of r')"
    "e = Wrapf ''request worker for country'' [p_Country ps] e'" by (auto simp: manager_of_def hist_of_def)
  have c: "createForCountry E (manager_of r) (p_Country ps) (hist_of r) = (Inl e', manager_of r', hist_of r')"
    by (rule RequestWorker_Inl(4) [OF assms(1,2) e'(1)])
  show ?thesis using re(1,3) c e'(2) createForCountry_Inl(2,4) [OF assms(2) c] by (auto simp: manager_of_def)
qed

theorem route_turned_away_witness:
  "\<exists>e r'. Route (manager_pool cancelled_env) 1 1 (Parse ''alice__sessid.s1'' []) (NewRouter (sample_manager, []) (NewManager minute)) = (Inl e, r') \<and>
     m_usedIndexes (manager_of r') = {} \<and> binding (r_session r') 1 ''s1'' = None"
proof -
  let ?r = "NewRouter (sample_manager, []) (NewManager minute)" and ?ps = "Parse ''alice__sessid.s1'' []"
  have p: "p_SessionID ?ps = ''s1''" "p_Country ?ps = []" "IsSticky ?ps" by code_simp+
  have run: "singleflight_runs cancelled_env" by (simp add: singleflight_runs_def cancelled_env_def sample_env_def)
  have ok: "pool_ok (manager_of ?r)" "session_ok (r_session ?r)"
    using sample_manager_ok by (simp_all add: NewRouter_def manager_of_def session_ok_New minute_def second_def)
  have none: "GetRoutableWorkers sample_manager [] = []" by (simp add: GetRoutableWorkers_eq pool_infos_def sample_manager_eq sort_slice_def)
  have "\<exists>c. serverCandidates sample_manager [] = Inr c \<and> length c = 2"
    by (simp add: serverCandidates_def sample_manager_eq cloneServers_def sample_servers_def)
  then obtain e h' where "createForCountry cancelled_env sample_manager [] [] = (Inl e, sample_manager, h')"
    by (auto simp: createForCountry_def tryCreate_def createMaxAttempts_def numeral_2_eq_2 sys_def cancelled_env_def Let_def)
  then have "RequestWorker cancelled_env sample_manager [] [] = (Inl e, sample_manager, h')"
    using none by (simp add: RequestWorker_eq [OF run] pickReady_def)
  then obtain e' r' where r: "Route (manager_pool cancelled_env) 1 1 ?ps ?r = (Inl e', r')"
    using p none by (simp add: Route_def routeSticky_def bindNew_def selectOrCreate_def NewRouter_def NewManager_def Lookup_def)
  from route_turned_away [OF run ok r, of 1] r p show ?thesis by (simp add: NewRouter_def manager_of_def sample_manager_eq)
qed

section \<open>From the client to the tunnel\<close>

text \<open>
  C3: a client's traffic leaves through a worker of the country it asked for. When the SOCKS entrance
  hands out a connection, the request was routed to a serving worker of the country named in
  the user name, the connection belongs to that worker, and every dial made for it took place
  while the thread was in that worker's network namespace.
\<close>

theorem traffic_leaves_through_worker:
  assumes "singleflight_runs E" and "pool_ok (manager_of r)" and "session_ok (r_session r)"
    and "get_is_current (e_os E) fd cur"
    and "dialWithRequest manager_resolver (manager_pool E) (e_os E) ts network address (Some user) r = (Inr conn, r')"
  shows "\<exists>w r1 ref t. Route (manager_pool E) (ts 0) (ts 1) (Parse user []) r = (Inr w, r1) \<and>
    serving (wi_State w) \<and> country_ok (p_Country (Parse user [])) w \<and> tc_workerID conn = wi_ID w \<and>
    mget (m_workers (manager_of r1)) (wi_ID w) = Some ref \<and> hist_of r' = hist_of r1 @ t \<and>
    set (dial_places fd (thread_ns fd cur (hist_of r1)) t) \<subseteq> {NsHandle (worker_at (manager_of r1) ref)}"
proof -
  let ?V = "manager_pool E" and ?ps = "Parse user []"
  have i: "pool_ok (fst (r_pool r))" using assms(2) by (simp add: manager_of_def)
  have d: "dial_routed manager_resolver ?V (e_os E) ts ''route socks5 request'' ?ps network address r = (Inr conn, r')"
    using assms(5) by (simp add: dialWithRequest_def)
  then obtain w r1 ns c h where route: "Route ?V (ts 0) (ts 1) ?ps r = (Inr w, r1)"
    and ns: "GetWorkerNsHandle (manager_of r1) (wi_ID w) = Inr ns"
    and dial: "DialInNs (e_os E) ns network address (hist_of r1) = (c, h)"
    and r': "hist_of r' = h" "tc_workerID conn = wi_ID w"
    by (auto simp: dial_routed_def Let_def manager_resolver_def split: sum.splits prod.splits option.splits)
  from mgr.route_sound [OF i assms(3), of E "ts 0" "ts 1" ?ps w r1] route
  have "serving (wi_State w)" "country_ok (p_Country ?ps) w" by (simp_all add: lone_caller_id [OF assms(1)])
  moreover obtain ref where "mget (m_workers (manager_of r1)) (wi_ID w) = Some ref" "ns = NsHandle (worker_at (manager_of r1) ref)"
    using ns by (auto simp: GetWorkerNsHandle_def split: option.splits)
  moreover obtain t where "h = hist_of r1 @ t" "set (dial_places fd (thread_ns fd cur (hist_of r1)) t) \<subseteq> {ns}"
    using dial_confined [OF assms(4) dial] by blast
  ultimately show ?thesis using route r' by blast
qed

theorem traffic_leaves_through_worker_witness:
  "\<exists>conn r' t. dialWithRequest manager_resolver (manager_pool watched_env) sample_os (\<lambda>n. 100) ''tcp'' ''example.org:80''
       (Some ''alice'') sample_front = (Inr conn, r') \<and> tc_workerID conn = ''worker-3'' \<and>
     hist_of r' = t \<and> set (dial_places (\<lambda>_ _. Some 9) 7 t) \<subseteq> {9}"
proof -
  let ?r1 = "sample_front\<lparr>r_roundRobin := 1\<rparr>"
  have run: "singleflight_runs watched_env" and os: "e_os watched_env = sample_os"
    by (simp_all add: singleflight_runs_def watched_env_def sample_env_def)
  have ok: "pool_ok (manager_of sample_front)" "session_ok (r_session sample_front)"
    using sample_front_live(1) by (simp_all add: pool_live_def sample_front_def NewRouter_def session_ok_New minute_def second_def)
  have g: "get_is_current (e_os watched_env) (\<lambda>_ _. Some 9) 7" by (simp add: os get_is_current_def sample_os_def)
  have i: "wi_ID (Info ready_sample) = ''worker-3''" by (simp add: Info_def ready_sample_def sample_worker_def)
  have m: "manager_of ?r1 = sample_pool" "hist_of ?r1 = []" by (simp_all add: sample_front_def NewRouter_def manager_of_def hist_of_def)
  have h9: "NsHandle ready_sample = 9" by (simp add: NsHandle_def ready_sample_def sample_worker_def new_namespace_def)
  have ns: "res_GetWorkerNsHandle manager_resolver (manager_of ?r1) (wi_ID (Info ready_sample)) = Inr 9"
    by (simp add: i m manager_resolver_def GetWorkerNsHandle_def sample_pool_eq mget_def h9)
  obtain c h where "DialInNs sample_os 9 ''tcp'' ''example.org:80'' (hist_of ?r1) = ((c, None), h)"
    by (simp add: DialInNs_def dial_thread_def sys_def sample_os_def Let_def)
  from dial_routed_ok [OF sample_route ns this] obtain conn r' where
    d: "dialWithRequest manager_resolver (manager_pool watched_env) (e_os watched_env) (\<lambda>n. 100) ''tcp'' ''example.org:80''
      (Some ''alice'') sample_front = (Inr conn, r')"
    unfolding dialWithRequest_def os by (metis option.simps(5))
  from traffic_leaves_through_worker [OF run ok g d] sample_route [of watched_env 100 100]
  show ?thesis using d by (auto simp: i m os sample_pool_eq mget_def h9)
qed

end
